(* ===== verification/Prelude.thy ===== *)
theory Prelude
  imports Main "HOL-Library.Word" "HOL-Library.List_Lexorder"
begin

unbundle bit_operations_syntax

text \<open>
  Shared vocabulary of the development: the machine types of the Go sources, results with
  errors as values, the fixed-width byte codecs of \<^verbatim>\<open>encoding/binary\<close>, Go string literals
  as byte strings, and maps kept as association lists in key order. Every component theory
  builds on these definitions and on the collections declared here.
\<close>

section \<open>Types and collections\<close>

type_synonym byte = "8 word"
type_synonym bytes = "8 word list"
type_synonym u16 = "16 word"
type_synonym u32 = "32 word"
type_synonym u64 = "64 word"

named_theorems codec_simps \<open>what a decoder returns on the bytes an encoder wrote\<close>
named_theorems codec_len \<open>how many bytes an encoder writes\<close>
named_theorems consume_rules \<open>a successful read leaves fewer bytes\<close>

section \<open>Results\<close>

text \<open>A Go call that returns \<open>(v, err)\<close>: \<open>Inl\<close> is the error, \<open>Inr\<close> the value.\<close>

definition bindE :: "'e + 'a \<Rightarrow> ('a \<Rightarrow> 'e + 'b) \<Rightarrow> 'e + 'b" where
  "bindE m f = (case m of Inl e \<Rightarrow> Inl e | Inr a \<Rightarrow> f a)"

lemma bindE_simps [simp]:
  "bindE (Inl e) f = Inl e"
  "bindE (Inr a) f = f a"
  by (simp_all add: bindE_def)

lemma bindE_Inr_iff: "bindE m f = Inr b \<longleftrightarrow> (\<exists>a. m = Inr a \<and> f a = Inr b)"
  by (cases m) auto

lemma bindE_Inl_iff: "bindE m f = Inl e \<longleftrightarrow> m = Inl e \<or> (\<exists>a. m = Inr a \<and> f a = Inl e)"
  by (cases m) auto

lemma bindE_cong [fundef_cong]:
  "m = m' \<Longrightarrow> (\<And>a. m' = Inr a \<Longrightarrow> f a = g a) \<Longrightarrow> bindE m f = bindE m' g"
  by (cases m') auto

text \<open>A call that also advances a state: the state is returned on the error path too.\<close>

definition bindS :: "('e + 'a) \<times> 's \<Rightarrow> ('a \<Rightarrow> 's \<Rightarrow> ('e + 'b) \<times> 's) \<Rightarrow> ('e + 'b) \<times> 's" where
  "bindS m f = (case m of (Inl e, s) \<Rightarrow> (Inl e, s) | (Inr a, s) \<Rightarrow> f a s)"

lemma bindS_simps [simp]:
  "bindS (Inl e, s) f = (Inl e, s)"
  "bindS (Inr a, s) f = f a s"
  by (simp_all add: bindS_def)

lemma bindS_Inr_iff:
  "bindS m f = (Inr b, t) \<longleftrightarrow> (\<exists>a s. m = (Inr a, s) \<and> f a s = (Inr b, t))"
  by (cases m; cases "fst m") auto

lemma bindS_Inl_iff:
  "bindS m f = (Inl e, t) \<longleftrightarrow> m = (Inl e, t) \<or> (\<exists>a s. m = (Inr a, s) \<and> f a s = (Inl e, t))"
  by (cases m; cases "fst m") auto

lemma bindS_cong [fundef_cong]:
  "m = m' \<Longrightarrow> (\<And>a s. m' = (Inr a, s) \<Longrightarrow> f a s = g a s) \<Longrightarrow> bindS m f = bindS m' g"
  by (cases m'; cases "fst m'") auto

definition mapErrS :: "('e \<Rightarrow> 'f) \<Rightarrow> ('e + 'a) \<times> 's \<Rightarrow> ('f + 'a) \<times> 's" where
  "mapErrS h m = (case m of (Inl e, s) \<Rightarrow> (Inl (h e), s) | (Inr a, s) \<Rightarrow> (Inr a, s))"

lemma mapErrS_simps [simp]:
  "mapErrS h (Inl e, s) = (Inl (h e), s)"
  "mapErrS h (Inr a, s) = (Inr a, s)"
  by (simp_all add: mapErrS_def)

lemma mapErrS_Inr_iff [simp]: "mapErrS h m = (Inr a, s) \<longleftrightarrow> m = (Inr a, s)"
  by (cases m; cases "fst m") auto

text \<open>The same for an error type that wraps another one (\<^verbatim>\<open>fmt.Errorf("...: %w", err)\<close>).\<close>

definition mapErr :: "('e \<Rightarrow> 'f) \<Rightarrow> 'e + 'a \<Rightarrow> 'f + 'a" where
  "mapErr h m = (case m of Inl e \<Rightarrow> Inl (h e) | Inr a \<Rightarrow> Inr a)"

lemma mapErr_simps [simp]:
  "mapErr h (Inl e) = Inl (h e)"
  "mapErr h (Inr a) = Inr a"
  by (simp_all add: mapErr_def)

lemma mapErr_Inr_iff [simp]: "mapErr h m = Inr a \<longleftrightarrow> m = Inr a"
  by (cases m) auto

section \<open>Byte order: encoding/binary\<close>

definition PutUint16 :: "u16 \<Rightarrow> bytes" where
  "PutUint16 v = [ucast (drop_bit 8 v), ucast v]"

definition PutUint32 :: "u32 \<Rightarrow> bytes" where
  "PutUint32 v = [ucast (drop_bit 24 v), ucast (drop_bit 16 v), ucast (drop_bit 8 v), ucast v]"

definition PutUint64 :: "u64 \<Rightarrow> bytes" where
  "PutUint64 v = PutUint32 (ucast (drop_bit 32 v)) @ PutUint32 (ucast v)"

text \<open>
  The readers take the bytes of a buffer that is long enough, which every caller ensures by
  reading exactly the width first.
\<close>

definition Uint16 :: "bytes \<Rightarrow> u16" where
  "Uint16 b = ucast (b ! 1) OR push_bit 8 (ucast (b ! 0))"

definition Uint32 :: "bytes \<Rightarrow> u32" where
  "Uint32 b = ucast (b ! 3) OR push_bit 8 (ucast (b ! 2)) OR push_bit 16 (ucast (b ! 1))
     OR push_bit 24 (ucast (b ! 0))"

definition Uint64 :: "bytes \<Rightarrow> u64" where
  "Uint64 b = push_bit 32 (ucast (Uint32 (take 4 b))) OR ucast (Uint32 (drop 4 b))"

text \<open>Three bytes, most significant first: \<^verbatim>\<open>uint32(h[0])<<16 | uint32(h[1])<<8 | uint32(h[2])\<close>.\<close>

definition Uint24 :: "byte \<Rightarrow> byte \<Rightarrow> byte \<Rightarrow> u32" where
  "Uint24 a b c = push_bit 16 (ucast a) OR push_bit 8 (ucast b) OR ucast c"

definition PutUint24 :: "u32 \<Rightarrow> bytes" where
  "PutUint24 v = [ucast (drop_bit 16 v), ucast (drop_bit 8 v), ucast v]"

text \<open>Four bytes, least significant first.\<close>

definition Uint32LE :: "byte \<Rightarrow> byte \<Rightarrow> byte \<Rightarrow> byte \<Rightarrow> u32" where
  "Uint32LE a b c d = ucast a OR push_bit 8 (ucast b) OR push_bit 16 (ucast c)
     OR push_bit 24 (ucast d)"

definition PutUint32LE :: "u32 \<Rightarrow> bytes" where
  "PutUint32LE v = [ucast v, ucast (drop_bit 8 v), ucast (drop_bit 16 v), ucast (drop_bit 24 v)]"

lemma length_Put [simp, codec_len]:
  "length (PutUint16 v) = 2" "length (PutUint32 w) = 4" "length (PutUint64 x) = 8"
  "length (PutUint24 w) = 3" "length (PutUint32LE w) = 4"
  by (simp_all add: PutUint16_def PutUint32_def PutUint64_def PutUint24_def PutUint32LE_def)

text \<open>Which byte of the buffer a bit position falls in.\<close>

lemma byte_position:
  fixes n :: nat
  shows "n < 32 \<Longrightarrow> n < 8 \<or> (8 \<le> n \<and> n < 16) \<or> (16 \<le> n \<and> n < 24) \<or> (24 \<le> n \<and> n < 32)"
  by arith

lemma Uint16_Put [simp, codec_simps]: "Uint16 (PutUint16 v) = v"
  by (rule bit_word_eqI) (auto simp: Uint16_def PutUint16_def bit_simps)

lemma Uint32_Put [simp, codec_simps]: "Uint32 (PutUint32 v) = v"
proof (rule bit_word_eqI)
  fix n assume "n < LENGTH(32)"
  then show "bit (Uint32 (PutUint32 v)) n = bit v n"
    using byte_position [of n]
    by (auto simp: Uint32_def PutUint32_def bit_simps)
qed

lemma Uint32_4: "Uint32 (take 4 b) = Uint32 b"
  by (simp add: Uint32_def)

lemma Uint64_Put [simp, codec_simps]: "Uint64 (PutUint64 v) = v"
  by (rule bit_word_eqI)
    (auto simp: Uint64_def PutUint64_def bit_simps)

lemma Uint32LE_Put [simp, codec_simps]:
  "Uint32LE (ucast v) (ucast (drop_bit 8 v)) (ucast (drop_bit 16 v)) (ucast (drop_bit 24 v)) = v"
proof (rule bit_word_eqI)
  fix n assume "n < LENGTH(32)"
  then show "bit (Uint32LE (ucast v) (ucast (drop_bit 8 v)) (ucast (drop_bit 16 v))
      (ucast (drop_bit 24 v))) n = bit v n"
    using byte_position [of n]
    by (auto simp: Uint32LE_def bit_simps)
qed

text \<open>A value that fits three bytes survives them; a larger one loses its top byte.\<close>

lemma Uint24_Put: "Uint24 (ucast (drop_bit 16 v)) (ucast (drop_bit 8 v)) (ucast v) = take_bit 24 v"
proof (rule bit_word_eqI)
  fix n assume "n < LENGTH(32)"
  then show "bit (Uint24 (ucast (drop_bit 16 v)) (ucast (drop_bit 8 v)) (ucast v)) n
      = bit (take_bit 24 v) n"
    using byte_position [of n]
    by (auto simp: Uint24_def bit_simps)
qed

lemma take_bit_24_id: "unat (v :: u32) < 2 ^ 24 \<Longrightarrow> take_bit 24 v = v"
  by (rule word_unat_eq_iff [THEN iffD2]) (simp only: unsigned_take_bit_eq take_bit_nat_eq_self)

lemma unat_u16_less: "unat (w :: u16) < 65536"
  and unat_u32_less: "unat (x :: u32) < 4294967296"
  and unat_u64_less: "unat (y :: u64) < 18446744073709551616"
proof -
  have "unat w < 2 ^ LENGTH(16)" "unat x < 2 ^ LENGTH(32)" "unat y < 2 ^ LENGTH(64)"
    by (rule unsigned_less)+
  then show "unat w < 65536" "unat x < 4294967296" "unat y < 18446744073709551616" by simp_all
qed

text \<open>Two positions less than \<open>n\<close> apart fall into different places of a ring of \<open>n\<close>.\<close>

lemma mod_collision:
  fixes p q n :: nat
  assumes "p mod n = q mod n" and "p < q" and "q < p + n"
  shows False
proof -
  have "n dvd q - p" using assms(1,2) by (metis less_imp_le mod_eq_dvd_iff_nat)
  with assms(2,3) show False by (auto dest: dvd_imp_le)
qed

section \<open>Signed 64-bit integers\<close>

text \<open>An \<open>int64\<close> as an integer: the result of an operation wraps around.\<close>

definition wrap64 :: "int \<Rightarrow> int" where
  "wrap64 x = (x + 2 ^ 63) mod 2 ^ 64 - 2 ^ 63"

lemma wrap64_range: "- (2 ^ 63) \<le> wrap64 x \<and> wrap64 x < 2 ^ 63"
  by (simp add: wrap64_def)

lemma wrap64_id: "- (2 ^ 63) \<le> x \<Longrightarrow> x < 2 ^ 63 \<Longrightarrow> wrap64 x = x"
  by (simp add: wrap64_def)

lemma wrap64_add: "wrap64 (wrap64 x + y) = wrap64 (x + y)"
proof -
  have "wrap64 x + y + 2 ^ 63 = (x + 2 ^ 63) mod 2 ^ 64 + y" by (simp add: wrap64_def)
  then show ?thesis by (simp add: wrap64_def mod_simps algebra_simps)
qed

section \<open>Go strings\<close>

text \<open>
  A Go string is a sequence of bytes. \<open>str\<close> reads an ASCII literal of the sources as one;
  \<open>sort.Strings\<close> compares bytewise, which is the lexicographic order of
  \<^verbatim>\<open>HOL-Library.List_Lexorder\<close> on byte lists.
\<close>

definition str :: "string \<Rightarrow> bytes" where
  "str s = map of_char s"

lemma str_inject: "str s = str t \<longleftrightarrow> s = t"
proof -
  have "inj (of_char :: char \<Rightarrow> 8 word)"
  proof (rule injI)
    fix c d :: char
    assume "(of_char c :: 8 word) = of_char d"
    then have "unat (of_nat (of_char c) :: 8 word) = unat (of_nat (of_char d) :: 8 word)"
      by (simp only: of_nat_of_char)
    then have "(of_char c :: nat) mod 256 = of_char d mod 256"
      by (simp only: unat_of_nat) simp
    then show "c = d" by simp
  qed
  then show ?thesis by (auto simp: str_def inj_map_eq_map)
qed

section \<open>Maps in key order\<close>

text \<open>
  A Go map whose iteration order never matters is kept as its list of entries in increasing
  key order. \<open>mapPut\<close> is \<open>m[k] = v\<close>, \<^const>\<open>map_of\<close> is \<open>m[k]\<close>.
\<close>

fun mapPut :: "'k::linorder \<Rightarrow> 'v \<Rightarrow> ('k \<times> 'v) list \<Rightarrow> ('k \<times> 'v) list" where
  "mapPut k v [] = [(k, v)]"
| "mapPut k v ((a, b) # m) =
     (if k < a then (k, v) # (a, b) # m
      else if k = a then (k, v) # m
      else (a, b) # mapPut k v m)"

definition keysOk :: "('k::linorder \<times> 'v) list \<Rightarrow> bool" where
  "keysOk m \<longleftrightarrow> sorted_wrt (<) (map fst m)"

lemma keysOk_simps [simp]:
  "keysOk []"
  "keysOk ((k, v) # m) \<longleftrightarrow> (\<forall>a \<in> set (map fst m). k < a) \<and> keysOk m"
  by (simp_all add: keysOk_def)

lemma mapPut_lookup [simp]: "map_of (mapPut k v m) = (map_of m)(k \<mapsto> v)"
  by (induction m) (auto simp: fun_eq_iff)

lemma mapPut_keys [simp]: "fst ` set (mapPut k v m) = insert k (fst ` set m)"
  by (simp flip: dom_map_of_conv_image_fst)

lemma mapPut_keysOk: "keysOk m \<Longrightarrow> keysOk (mapPut k v m)"
proof (induction m)
  case Nil
  then show ?case by simp
next
  case (Cons e m)
  obtain a b where e: "e = (a, b)" by (cases e)
  have "\<forall>x \<in> fst ` set (mapPut k v m). a < x" if "a < k"
    using Cons.prems that by (auto simp: e)
  with Cons show ?case by (auto simp: e)
qed

lemma mapPut_entries: "e \<in> set (mapPut k v m) \<Longrightarrow> e = (k, v) \<or> e \<in> set m"
  by (induction m) (auto split: if_splits)

lemma mapPut_last: "\<forall>a \<in> set (map fst m). a < k \<Longrightarrow> mapPut k v m = m @ [(k, v)]"
  by (induction m) auto

lemma keysOk_distinct: "keysOk m \<Longrightarrow> distinct (map fst m)"
  by (simp add: keysOk_def strict_sorted_iff)

lemma keysOk_sort: "keysOk m \<Longrightarrow> sort (map fst m) = map fst m"
  by (simp add: keysOk_def strict_sorted_iff sorted_sort_id)

lemma keysOk_append:
  "keysOk (m @ [(k, v)]) \<longleftrightarrow> keysOk m \<and> (\<forall>a \<in> set (map fst m). a < k)"
  by (auto simp: keysOk_def sorted_wrt_append)

end
