(* ===== verification/Byte_Reader.thy ===== *)
theory Byte_Reader
  imports Prelude
begin

text \<open>
  The byte sources the RTMP code reads from: a byte slice (\<^verbatim>\<open>bytes.Reader\<close>), the network
  connection itself (the handshake reads it directly) and the connection behind a
  \<^verbatim>\<open>bufio.Reader\<close> of 4096 bytes with a byte counter underneath
  (\<^verbatim>\<open>src/internal/rtmp/conn.go\<close>, \<open>countingReader\<close> and \<open>newConn\<close>). The network delivers
  its bytes in segments of arbitrary sizes. The locale \<open>byte_reader\<close> is what the decoders
  rely on: \<^verbatim>\<open>io.ReadFull\<close> returns the next bytes of the stream, however it is segmented.
\<close>

section \<open>io.ReadFull\<close>

text \<open>
  \<open>EOF\<close> before the first byte, \<open>ErrUnexpectedEOF\<close> after it; any other failure of the
  connection (a deadline, a reset) is \<open>TransportError\<close>.
\<close>

datatype io_error = EOF | ErrUnexpectedEOF | TransportError

text \<open>What \<^verbatim>\<open>io.ReadFull\<close> returns when the stream ends with \<open>e\<close> after \<open>acc\<close>.\<close>

definition shortErr :: "bytes \<Rightarrow> io_error \<Rightarrow> io_error" where
  "shortErr acc e = (if e = EOF \<and> acc \<noteq> [] then ErrUnexpectedEOF else e)"

subsection \<open>A byte slice\<close>

definition bytesReadFull :: "nat \<Rightarrow> bytes \<Rightarrow> (io_error + bytes) \<times> bytes" where
  "bytesReadFull n bs =
     (if n \<le> length bs then (Inr (take n bs), drop n bs) else (Inl (shortErr bs EOF), []))"

subsection \<open>The connection\<close>

text \<open>
  \<open>segs\<close> is what the connection's successive reads have to deliver, \<open>rerr\<close> the error that
  ends the stream. One read returns at most one segment, or the part of it that fits.
\<close>

record transport =
  segs :: "bytes list"
  rerr :: io_error

definition transportContents :: "transport \<Rightarrow> bytes" where
  "transportContents t = concat (segs t)"

fun readSegs :: "nat \<Rightarrow> bytes \<Rightarrow> io_error \<Rightarrow> bytes list \<Rightarrow> (io_error + bytes) \<times> bytes list" where
  "readSegs n acc e [] = (if n = 0 then (Inr acc, []) else (Inl (shortErr acc e), []))"
| "readSegs n acc e (s # ss) =
     (if n = 0 then (Inr acc, s # ss)
      else if n < length s then (Inr (acc @ take n s), drop n s # ss)
      else readSegs (n - length s) (acc @ s) e ss)"

definition transportReadFull :: "nat \<Rightarrow> transport \<Rightarrow> (io_error + bytes) \<times> transport" where
  "transportReadFull n t =
     (let (r, ss) = readSegs n [] (rerr t) (segs t) in (r, t\<lparr>segs := ss\<rparr>))"

subsection \<open>bufio.Reader over the counted connection\<close>

text \<open>
  \<open>buffered\<close> are the bytes read ahead, \<open>count\<close> is \<open>countingReader.count\<close>: the bytes taken
  from the connection, read ahead or not. A read with an empty buffer takes one segment,
  through the buffer when the rest asked for is shorter than it, directly otherwise.
\<close>

record bufio =
  buffered :: bytes
  rd :: transport
  count :: u64

definition bufioSize :: nat where
  "bufioSize = 4096"

text \<open>The result, what is left buffered, the segments left and the bytes counted.\<close>

fun fillSegs :: "nat \<Rightarrow> bytes \<Rightarrow> io_error \<Rightarrow> u64 \<Rightarrow> bytes list
    \<Rightarrow> (io_error + bytes) \<times> bytes \<times> bytes list \<times> u64" where
  "fillSegs n acc e c [] =
     (if n = 0 then (Inr acc, [], [], c) else (Inl (shortErr acc e), [], [], c))"
| "fillSegs n acc e c (s # ss) =
     (if n = 0 then (Inr acc, [], s # ss, c)
      else if bufioSize \<le> n then
        (if n < length s then (Inr (acc @ take n s), [], drop n s # ss, c + of_nat n)
         else fillSegs (n - length s) (acc @ s) e (c + of_nat (length s)) ss)
      else if n \<le> length s then
        (let f = take bufioSize s; rest = drop bufioSize s
         in (Inr (acc @ take n f), drop n f, (if rest = [] then ss else rest # ss),
             c + of_nat (length f)))
      else fillSegs (n - length s) (acc @ s) e (c + of_nat (length s)) ss)"

definition bufioReadFull :: "nat \<Rightarrow> bufio \<Rightarrow> (io_error + bytes) \<times> bufio" where
  "bufioReadFull n b =
     (if n \<le> length (buffered b)
      then (Inr (take n (buffered b)), b\<lparr>buffered := drop n (buffered b)\<rparr>)
      else let (r, buf, ss, c) = fillSegs (n - length (buffered b)) (buffered b)
                 (rerr (rd b)) (count b) (segs (rd b))
           in (r, b\<lparr>buffered := buf, rd := (rd b)\<lparr>segs := ss\<rparr>, count := c\<rparr>))"

definition bufioContents :: "bufio \<Rightarrow> bytes" where
  "bufioContents b = buffered b @ transportContents (rd b)"

section \<open>The interface\<close>

text \<open>
  A reader is determined by the bytes it still has to deliver and the error that ends them:
  \<^verbatim>\<open>io.ReadFull\<close> returns the next \<open>n\<close> bytes when there are that many, and otherwise fails
  with the error the end of the stream gives.
\<close>

locale byte_reader =
  fixes readFull :: "nat \<Rightarrow> 's \<Rightarrow> (io_error + bytes) \<times> 's"
    and contents :: "'s \<Rightarrow> bytes"
    and ending :: "'s \<Rightarrow> io_error"
  assumes read_enough:
      "n \<le> length (contents s) \<Longrightarrow>
         \<exists>s'. readFull n s = (Inr (take n (contents s)), s')
           \<and> contents s' = drop n (contents s) \<and> ending s' = ending s"
    and read_short:
      "length (contents s) < n \<Longrightarrow>
         \<exists>s'. readFull n s = (Inl (shortErr (contents s) (ending s)), s')
           \<and> contents s' = [] \<and> ending s' = ending s"
begin

lemma read_Inr:
  assumes "readFull n s = (Inr bs, s')"
  shows "length bs = n \<and> contents s = bs @ contents s' \<and> ending s' = ending s"
proof (cases "n \<le> length (contents s)")
  case True
  from read_enough [OF this] assms True show ?thesis by auto
next
  case False
  then show ?thesis
    using read_short [of s n] assms by auto
qed

lemma read_Inl:
  assumes "readFull n s = (Inl e, s')"
  shows "length (contents s) < n \<and> e = shortErr (contents s) (ending s)"
proof (cases "n \<le> length (contents s)")
  case True
  from read_enough [OF this] assms show ?thesis by auto
next
  case False
  then show ?thesis using read_short [of s n] assms by auto
qed

lemma read_append:
  assumes "contents s = bs @ r" and "n = length bs"
  obtains s' where "readFull n s = (Inr bs, s')" and "contents s' = r" and "ending s' = ending s"
  using read_enough [of n s] assms by auto

lemma read_progress:
  "readFull n s = (Inr bs, s') \<Longrightarrow> length (contents s) = n + length (contents s')"
  using read_Inr [of n s bs s'] by auto

lemma read_shrinks: "readFull n s = (r, s') \<Longrightarrow> length (contents s') \<le> length (contents s)"
proof (cases r)
  case (Inl e)
  assume "readFull n s = (r, s')"
  with Inl read_Inl [of n s e s'] read_short [of s n] show ?thesis by auto
next
  case (Inr bs)
  assume "readFull n s = (r, s')"
  with Inr read_progress [of n s bs s'] show ?thesis by simp
qed

end

section \<open>The three readers implement it\<close>

interpretation bytes_rd: byte_reader bytesReadFull "\<lambda>bs. bs" "\<lambda>_. EOF"
  by unfold_locales (auto simp: bytesReadFull_def)

lemma readSegs_enough:
  "n \<le> length (concat ss) \<Longrightarrow>
     \<exists>ss'. readSegs n acc e ss = (Inr (acc @ take n (concat ss)), ss')
       \<and> concat ss' = drop n (concat ss)"
  by (induction n acc e ss rule: readSegs.induct) auto

lemma readSegs_short:
  "length (concat ss) < n \<Longrightarrow> readSegs n acc e ss = (Inl (shortErr (acc @ concat ss) e), [])"
  by (induction n acc e ss rule: readSegs.induct) auto

definition transportEnding :: "transport \<Rightarrow> io_error" where
  "transportEnding t = rerr t"

interpretation transport_rd: byte_reader transportReadFull transportContents transportEnding
proof unfold_locales
  fix n and t :: transport
  assume "n \<le> length (transportContents t)"
  then show "\<exists>s'. transportReadFull n t = (Inr (take n (transportContents t)), s')
      \<and> transportContents s' = drop n (transportContents t)
      \<and> transportEnding s' = transportEnding t"
    using readSegs_enough [of n "segs t" "[]" "rerr t"]
    by (auto simp: transportReadFull_def transportContents_def transportEnding_def)
next
  fix n and t :: transport
  assume "length (transportContents t) < n"
  then show "\<exists>s'. transportReadFull n t
        = (Inl (shortErr (transportContents t) (transportEnding t)), s')
      \<and> transportContents s' = [] \<and> transportEnding s' = transportEnding t"
    using readSegs_short [of "segs t" n "[]" "rerr t"]
    by (auto simp: transportReadFull_def transportContents_def transportEnding_def)
qed

lemma take_drop_append: "n \<le> k \<Longrightarrow> drop n (take k s) @ drop k s = drop n s"
  by (metis append_take_drop_id drop_append drop_take le_add_diff_inverse2 drop_drop)

lemma fillSegs_enough:
  "n \<le> length (concat ss) \<Longrightarrow>
     \<exists>buf ss' c'. fillSegs n acc e c ss = (Inr (acc @ take n (concat ss)), buf, ss', c')
       \<and> buf @ concat ss' = drop n (concat ss)"
proof (induction n acc e c ss rule: fillSegs.induct)
  case (1 n acc e c)
  then show ?case by simp
next
  case (2 n acc e c s ss)
  show ?case
  proof (cases "n \<le> length s \<and> 0 < n \<and> (n < bufioSize \<or> n < length s)")
    case True
    then show ?thesis by (auto simp: Let_def take_drop_append min_def)
  next
    case False
    show ?thesis
    proof (cases "n = 0")
      case True
      then show ?thesis by simp
    next
      case False
      with \<open>\<not> (n \<le> length s \<and> 0 < n \<and> (n < bufioSize \<or> n < length s))\<close>
      have step: "fillSegs n acc e c (s # ss)
          = fillSegs (n - length s) (acc @ s) e (c + of_nat (length s)) ss"
        and "length s \<le> n" by auto
      from "2.prems" have "n - length s \<le> length (concat ss)" by simp
      then show ?thesis
        using "2.IH" False \<open>\<not> (n \<le> length s \<and> 0 < n \<and> (n < bufioSize \<or> n < length s))\<close>
          \<open>length s \<le> n\<close> unfolding step by (cases "bufioSize \<le> n") auto
    qed
  qed
qed

lemma fillSegs_short:
  "length (concat ss) < n \<Longrightarrow>
     \<exists>c'. fillSegs n acc e c ss = (Inl (shortErr (acc @ concat ss) e), [], [], c')"
  by (induction n acc e c ss rule: fillSegs.induct) auto

definition bufioEnding :: "bufio \<Rightarrow> io_error" where
  "bufioEnding b = rerr (rd b)"

lemmas bufio_defs = bufioReadFull_def bufioContents_def transportContents_def bufioEnding_def

interpretation bufio_rd: byte_reader bufioReadFull bufioContents bufioEnding
proof unfold_locales
  fix n and b :: bufio
  assume len: "n \<le> length (bufioContents b)"
  then have "n - length (buffered b) \<le> length (concat (segs (rd b)))"
    by (simp add: bufio_defs)
  from fillSegs_enough [OF this, of "buffered b" "rerr (rd b)" "count b"] len
  show "\<exists>s'. bufioReadFull n b = (Inr (take n (bufioContents b)), s')
      \<and> bufioContents s' = drop n (bufioContents b) \<and> bufioEnding s' = bufioEnding b"
    by (auto simp: bufio_defs)
next
  fix n and b :: bufio
  assume len: "length (bufioContents b) < n"
  then have "length (concat (segs (rd b))) < n - length (buffered b)"
    by (simp add: bufio_defs)
  from fillSegs_short [OF this, of "buffered b" "rerr (rd b)" "count b"] len
  show "\<exists>s'. bufioReadFull n b = (Inl (shortErr (bufioContents b) (bufioEnding b)), s')
      \<and> bufioContents s' = [] \<and> bufioEnding s' = bufioEnding b"
    by (auto simp: bufio_defs)
qed


section \<open>The byte counter\<close>

text \<open>
  What was counted and what the connection still has to deliver add up to the same number:
  the counter is the number of bytes received.
\<close>

definition bufTotal :: "bufio \<Rightarrow> u64" where
  "bufTotal b = count b + of_nat (length (transportContents (rd b)))"

lemma fillSegs_count:
  "fillSegs n acc e c ss = (r, buf, ss', c') \<Longrightarrow>
     c' + of_nat (length (concat ss')) = c + of_nat (length (concat ss))"
proof (induction n acc e c ss rule: fillSegs.induct)
  case (1 n acc e c)
  then show ?case by (auto split: if_splits)
next
  case (2 n acc e c s ss)
  have split: "of_nat (length (take k s)) + of_nat (length (drop k s)) = (of_nat (length s) :: u64)" for k
    by (metis append_take_drop_id length_append of_nat_add)
  consider (none) "n = 0" | (direct) "0 < n" "bufioSize \<le> n" "n < length s"
    | (buffer) "0 < n" "n < bufioSize" "n \<le> length s"
    | (more) "0 < n" "bufioSize \<le> n \<and> \<not> n < length s \<or> n < bufioSize \<and> \<not> n \<le> length s"
    by linarith
  then show ?case
  proof cases
    case none
    with 2 show ?thesis by auto
  next
    case direct
    with "2.prems" split [of n] show ?thesis by (auto simp: algebra_simps)
  next
    case buffer
    with "2.prems" split [of bufioSize] show ?thesis
      by (auto simp: Let_def algebra_simps split: if_splits)
  next
    case more
    with 2 show ?thesis by (auto simp: algebra_simps split: if_splits)
  qed
qed

lemma bufioReadFull_total: "bufTotal (snd (bufioReadFull n b)) = bufTotal b"
  using fillSegs_count [of "n - length (buffered b)" "buffered b" "rerr (rd b)" "count b" "segs (rd b)"]
  by (auto simp: bufioReadFull_def bufTotal_def transportContents_def split: prod.split)

end
