(* ===== verification/Rtmp_Wire.thy ===== *)
theory Rtmp_Wire
  imports Byte_Reader
begin

text \<open>
  The fixed-layout pieces of the RTMP wire format: the protocol control messages of
  \<^verbatim>\<open>src/internal/rtmp/message.go\<close>, the chunk basic header and extended timestamp of
  \<^verbatim>\<open>stream.go\<close>, and the handshake of \<^verbatim>\<open>handshake.go\<close>. Every decoder takes the reader's
  \<open>readFull\<close>, as the code takes an \<^verbatim>\<open>io.Reader\<close>; what it returns on encoded input is proved
  once in \<open>byte_reader\<close> and holds for every reader.
\<close>

section \<open>Control messages\<close>

record messageSetChunkSize =
  ChunkSize :: u32

record messageAbort =
  AbortChunkStreamID :: u32

record messageAck =
  SequenceNumber :: u32

record messageUserControl =
  EventType :: u16
  EventData :: bytes

record messageWindowAckSize =
  WindowSize :: u32

record messageSetPeerBandwidth =
  Bandwidth :: u32
  LimitType :: byte

definition messageSetChunkSize_encode :: "messageSetChunkSize \<Rightarrow> bytes" where
  "messageSetChunkSize_encode m = PutUint32 (ChunkSize m AND 0x7FFFFFFF)"

definition messageSetChunkSize_decode ::
  "(nat \<Rightarrow> 's \<Rightarrow> (io_error + bytes) \<times> 's) \<Rightarrow> 's \<Rightarrow> (io_error + messageSetChunkSize) \<times> 's" where
  "messageSetChunkSize_decode rf s =
     bindS (rf 4 s) (\<lambda>b s'. (Inr \<lparr>ChunkSize = Uint32 b AND 0x7FFFFFFF\<rparr>, s'))"

definition messageAbort_encode :: "messageAbort \<Rightarrow> bytes" where
  "messageAbort_encode m = PutUint32 (AbortChunkStreamID m)"

definition messageAbort_decode ::
  "(nat \<Rightarrow> 's \<Rightarrow> (io_error + bytes) \<times> 's) \<Rightarrow> 's \<Rightarrow> (io_error + messageAbort) \<times> 's" where
  "messageAbort_decode rf s =
     bindS (rf 4 s) (\<lambda>b s'. (Inr \<lparr>AbortChunkStreamID = Uint32 b\<rparr>, s'))"

definition messageAck_encode :: "messageAck \<Rightarrow> bytes" where
  "messageAck_encode m = PutUint32 (SequenceNumber m)"

definition messageAck_decode ::
  "(nat \<Rightarrow> 's \<Rightarrow> (io_error + bytes) \<times> 's) \<Rightarrow> 's \<Rightarrow> (io_error + messageAck) \<times> 's" where
  "messageAck_decode rf s = bindS (rf 4 s) (\<lambda>b s'. (Inr \<lparr>SequenceNumber = Uint32 b\<rparr>, s'))"

definition messageUserControl_encode :: "messageUserControl \<Rightarrow> bytes" where
  "messageUserControl_encode m = PutUint16 (EventType m) @ EventData m"

text \<open>\<^verbatim>\<open>io.ReadAll\<close> takes the rest of the message payload, which is a byte slice.\<close>

definition messageUserControl_decode :: "bytes \<Rightarrow> (io_error + messageUserControl) \<times> bytes" where
  "messageUserControl_decode bs =
     bindS (bytesReadFull 2 bs) (\<lambda>b r. (Inr \<lparr>EventType = Uint16 b, EventData = r\<rparr>, []))"

definition messageWindowAckSize_encode :: "messageWindowAckSize \<Rightarrow> bytes" where
  "messageWindowAckSize_encode m = PutUint32 (WindowSize m)"

definition messageWindowAckSize_decode ::
  "(nat \<Rightarrow> 's \<Rightarrow> (io_error + bytes) \<times> 's) \<Rightarrow> 's \<Rightarrow> (io_error + messageWindowAckSize) \<times> 's" where
  "messageWindowAckSize_decode rf s =
     bindS (rf 4 s) (\<lambda>b s'. (Inr \<lparr>WindowSize = Uint32 b\<rparr>, s'))"

definition messageSetPeerBandwidth_encode :: "messageSetPeerBandwidth \<Rightarrow> bytes" where
  "messageSetPeerBandwidth_encode m = PutUint32 (Bandwidth m) @ [LimitType m]"

definition messageSetPeerBandwidth_decode ::
  "(nat \<Rightarrow> 's \<Rightarrow> (io_error + bytes) \<times> 's) \<Rightarrow> 's \<Rightarrow> (io_error + messageSetPeerBandwidth) \<times> 's" where
  "messageSetPeerBandwidth_decode rf s =
     bindS (rf 5 s) (\<lambda>b s'. (Inr \<lparr>Bandwidth = Uint32 b, LimitType = b ! 4\<rparr>, s'))"

section \<open>Chunk basic header\<close>

record chunkBasicHeader =
  fmt :: byte
  chunkStreamID :: u32

definition chunkBasicHeader_encode :: "chunkBasicHeader \<Rightarrow> bytes" where
  "chunkBasicHeader_encode h =
     (if chunkStreamID h \<le> 63 then [push_bit 6 (fmt h) OR ucast (chunkStreamID h)]
      else if chunkStreamID h \<le> 319 then [push_bit 6 (fmt h), ucast (chunkStreamID h - 64)]
      else [push_bit 6 (fmt h) OR 1, ucast (chunkStreamID h - 64),
            ucast (drop_bit 8 (chunkStreamID h - 64))])"

definition chunkBasicHeader_decode ::
  "(nat \<Rightarrow> 's \<Rightarrow> (io_error + bytes) \<times> 's) \<Rightarrow> 's \<Rightarrow> (io_error + chunkBasicHeader) \<times> 's" where
  "chunkBasicHeader_decode rf s =
     bindS (rf 1 s) (\<lambda>b s1.
       let f = drop_bit 6 (b ! 0); streamIDPart = b ! 0 AND 0x3F
       in if streamIDPart = 0 then
            bindS (rf 1 s1) (\<lambda>b s2. (Inr \<lparr>fmt = f, chunkStreamID = ucast (b ! 0) + 64\<rparr>, s2))
          else if streamIDPart = 1 then
            bindS (rf 2 s1) (\<lambda>b s2.
              (Inr \<lparr>fmt = f, chunkStreamID = ucast (b ! 0) + push_bit 8 (ucast (b ! 1)) + 64\<rparr>, s2))
          else (Inr \<lparr>fmt = f, chunkStreamID = ucast streamIDPart\<rparr>, s1))"

definition chunkTimestampMax :: u32 where
  "chunkTimestampMax = 0xFFFFFF"

definition encodeExtendedTimestamp :: "u32 \<Rightarrow> bytes" where
  "encodeExtendedTimestamp ts = PutUint32 ts"

definition decodeExtendedTimestamp ::
  "(nat \<Rightarrow> 's \<Rightarrow> (io_error + bytes) \<times> 's) \<Rightarrow> 's \<Rightarrow> (io_error + u32) \<times> 's" where
  "decodeExtendedTimestamp rf s = bindS (rf 4 s) (\<lambda>b s'. (Inr (Uint32 b), s'))"

section \<open>Handshake\<close>

record handshakeChunk0 =
  version :: byte

text \<open>The random part is a Go array of 1528 bytes.\<close>

record handshakeChunk1 =
  time :: u32
  rand :: bytes

record handshakeChunk2 =
  receivedTimestamp :: u32
  readTime :: u32
  echo :: bytes

definition handshakeChunk0_encode :: "handshakeChunk0 \<Rightarrow> bytes" where
  "handshakeChunk0_encode c = [version c]"

definition handshakeChunk0_decode ::
  "(nat \<Rightarrow> 's \<Rightarrow> (io_error + bytes) \<times> 's) \<Rightarrow> 's \<Rightarrow> (io_error + handshakeChunk0) \<times> 's" where
  "handshakeChunk0_decode rf s = bindS (rf 1 s) (\<lambda>b s'. (Inr \<lparr>version = b ! 0\<rparr>, s'))"

definition handshakeChunk1_encode :: "handshakeChunk1 \<Rightarrow> bytes" where
  "handshakeChunk1_encode c = PutUint32 (time c) @ [0, 0, 0, 0] @ rand c"

definition handshakeChunk1_decode ::
  "(nat \<Rightarrow> 's \<Rightarrow> (io_error + bytes) \<times> 's) \<Rightarrow> 's \<Rightarrow> (io_error + handshakeChunk1) \<times> 's" where
  "handshakeChunk1_decode rf s =
     bindS (rf 1536 s) (\<lambda>b s'. (Inr \<lparr>time = Uint32 (take 4 b), rand = drop 8 b\<rparr>, s'))"

definition handshakeChunk2_encode :: "handshakeChunk2 \<Rightarrow> bytes" where
  "handshakeChunk2_encode c = PutUint32 (receivedTimestamp c) @ PutUint32 (readTime c) @ echo c"

definition handshakeChunk2_decode ::
  "(nat \<Rightarrow> 's \<Rightarrow> (io_error + bytes) \<times> 's) \<Rightarrow> 's \<Rightarrow> (io_error + handshakeChunk2) \<times> 's" where
  "handshakeChunk2_decode rf s =
     bindS (rf 1536 s) (\<lambda>b s'.
       (Inr \<lparr>receivedTimestamp = Uint32 (take 4 b), readTime = Uint32 (take 4 (drop 4 b)),
              echo = drop 8 b\<rparr>, s'))"

text \<open>
  The writing side of a network connection: what has been written to it. \<open>room\<close> is how many
  more bytes the writes accept before the connection fails (\<open>None\<close>: it never does).
\<close>

record netwriter =
  tx :: bytes
  room :: "nat option"

definition netWrite :: "bytes \<Rightarrow> 'z netwriter_scheme \<Rightarrow> (io_error + unit) \<times> 'z netwriter_scheme" where
  "netWrite bs c =
     (case room c of
        None \<Rightarrow> (Inr (), c\<lparr>tx := tx c @ bs\<rparr>)
      | Some n \<Rightarrow>
          if length bs \<le> n then (Inr (), c\<lparr>tx := tx c @ bs, room := Some (n - length bs)\<rparr>)
          else (Inl TransportError, c\<lparr>tx := tx c @ take n bs, room := Some 0\<rparr>))"

text \<open>The connection the handshake reads and writes directly.\<close>

record netconn = netwriter +
  rx :: transport

definition netReadFull :: "nat \<Rightarrow> netconn \<Rightarrow> (io_error + bytes) \<times> netconn" where
  "netReadFull n c = (let (r, t) = transportReadFull n (rx c) in (r, c\<lparr>rx := t\<rparr>))"

datatype hs_error =
    ReadC0 io_error | ReadC1 io_error | ReadC2 io_error
  | ReadS0 io_error | ReadS1 io_error | ReadS2 io_error
  | WriteC0 io_error | WriteC1 io_error | WriteC2 io_error
  | WriteS0 io_error | WriteS1 io_error | WriteS2 io_error
  | RandFailed

definition version3 :: byte where
  "version3 = 3"

text \<open>
  The clock and the random source are arguments: \<open>now\<close> is \<^verbatim>\<open>uint32(time.Now().UnixMilli())\<close>
  (the client reads the clock twice), \<open>rnd\<close> the 1528 bytes of \<^verbatim>\<open>rand.Read\<close> or its failure.
\<close>

definition serverHandshake :: "u32 \<Rightarrow> bytes option \<Rightarrow> netconn \<Rightarrow> (hs_error + unit) \<times> netconn" where
  "serverHandshake now rnd rw =
     bindS (mapErrS ReadC0 (handshakeChunk0_decode netReadFull rw)) (\<lambda>c0 rw.
     bindS (mapErrS ReadC1 (handshakeChunk1_decode netReadFull rw)) (\<lambda>c1 rw.
     case rnd of
       None \<Rightarrow> (Inl RandFailed, rw)
     | Some rb \<Rightarrow>
         let s0 = \<lparr>version = version3\<rparr>;
             s1 = \<lparr>time = now, rand = rb\<rparr>;
             s2 = \<lparr>receivedTimestamp = time c1, readTime = now, echo = rand c1\<rparr>
         in bindS (mapErrS WriteS0 (netWrite (handshakeChunk0_encode s0) rw)) (\<lambda>_ rw.
            bindS (mapErrS WriteS1 (netWrite (handshakeChunk1_encode s1) rw)) (\<lambda>_ rw.
            bindS (mapErrS WriteS2 (netWrite (handshakeChunk2_encode s2) rw)) (\<lambda>_ rw.
            bindS (mapErrS ReadC2 (handshakeChunk2_decode netReadFull rw)) (\<lambda>c2 rw.
              (Inr (), rw)))))))"

definition clientHandshake ::
  "u32 \<Rightarrow> u32 \<Rightarrow> bytes option \<Rightarrow> netconn \<Rightarrow> (hs_error + unit) \<times> netconn" where
  "clientHandshake now now' rnd rw =
     (case rnd of
        None \<Rightarrow> (Inl RandFailed, rw)
      | Some rb \<Rightarrow>
          let c0 = \<lparr>version = version3\<rparr>; c1 = \<lparr>time = now, rand = rb\<rparr>
          in bindS (mapErrS WriteC0 (netWrite (handshakeChunk0_encode c0) rw)) (\<lambda>_ rw.
             bindS (mapErrS WriteC1 (netWrite (handshakeChunk1_encode c1) rw)) (\<lambda>_ rw.
             bindS (mapErrS ReadS0 (handshakeChunk0_decode netReadFull rw)) (\<lambda>s0 rw.
             bindS (mapErrS ReadS1 (handshakeChunk1_decode netReadFull rw)) (\<lambda>s1 rw.
             bindS (mapErrS ReadS2 (handshakeChunk2_decode netReadFull rw)) (\<lambda>s2 rw.
             mapErrS WriteC2 (netWrite (handshakeChunk2_encode
               \<lparr>receivedTimestamp = time s1, readTime = now', echo = rand s1\<rparr>) rw)))))))"

section \<open>Encoded sizes\<close>

lemma wire_len [simp, codec_len]:
  "length (messageSetChunkSize_encode m1) = 4"
  "length (messageAbort_encode m2) = 4"
  "length (messageAck_encode m3) = 4"
  "length (messageWindowAckSize_encode m5) = 4"
  "length (messageSetPeerBandwidth_encode m6) = 5"
  "length (encodeExtendedTimestamp ts) = 4"
  "length (handshakeChunk0_encode c0) = 1"
  by (simp_all add: messageSetChunkSize_encode_def messageAbort_encode_def messageAck_encode_def
      messageWindowAckSize_encode_def messageSetPeerBandwidth_encode_def
      encodeExtendedTimestamp_def handshakeChunk0_encode_def)

lemma Uint32_append [simp]: "Uint32 (PutUint32 v @ r) = v"
  using Uint32_Put [of v] by (simp add: Uint32_def nth_append)

lemma length_basic_header:
  "0 < length (chunkBasicHeader_encode h)" "length (chunkBasicHeader_encode h) \<le> 3"
  by (simp_all add: chunkBasicHeader_encode_def)

section \<open>Bits of the basic header\<close>

lemma fmt_bits:
  fixes f p :: byte
  assumes f: "take_bit 2 f = f" and p: "take_bit 6 p = p"
  shows "drop_bit 6 (push_bit 6 f OR p) = f" and "(push_bit 6 f OR p) AND 0x3F = p"
proof -
  have fb: "n < 2" if "bit f n" for n
    using that f by (metis bit_take_bit_iff)
  have pb: "n < 6" if "bit p n" for n
    using that p by (metis bit_take_bit_iff)
  show "drop_bit 6 (push_bit 6 f OR p) = f"
    by (rule bit_word_eqI) (auto simp: bit_simps dest: fb pb)
  have mask: "(0x3F :: byte) = mask 6" by (simp add: mask_eq_exp_minus_1)
  show "(push_bit 6 f OR p) AND 0x3F = p"
    unfolding mask by (rule bit_word_eqI) (auto simp: bit_simps dest: fb pb)
qed

lemma u8_small: "unat (b :: byte) < 2 ^ k \<Longrightarrow> take_bit k b = b"
  by (rule word_unat_eq_iff [THEN iffD2]) (simp only: unsigned_take_bit_eq take_bit_nat_eq_self)

lemma two_byte_id:
  fixes v :: u32
  assumes "unat v < 2 ^ 16"
  shows "ucast (ucast v :: byte) + push_bit 8 (ucast (ucast (drop_bit 8 v) :: byte)) = v"
proof -
  have v: "take_bit 16 v = v"
    using assms by (intro word_unat_eq_iff [THEN iffD2])
      (simp only: unsigned_take_bit_eq take_bit_nat_eq_self)
  let ?lo = "ucast (ucast v :: byte) :: u32"
  let ?hi = "push_bit 8 (ucast (ucast (drop_bit 8 v) :: byte)) :: u32"
  have "?lo AND ?hi = 0" by (rule bit_word_eqI) (auto simp: bit_simps)
  then have "?lo + ?hi = ?lo OR ?hi" by (simp add: disjunctive_add_eq_or)
  also have "\<dots> = take_bit 16 v"
    by (rule bit_word_eqI) (auto simp: bit_simps)
  finally show ?thesis by (simp add: v)
qed

lemma one_byte_id:
  fixes v :: u32
  assumes "unat v < 2 ^ 8"
  shows "ucast (ucast v :: byte) = v"
proof -
  have "take_bit 8 v = v"
    using assms by (intro word_unat_eq_iff [THEN iffD2])
      (simp only: unsigned_take_bit_eq take_bit_nat_eq_self)
  moreover have "ucast (ucast v :: byte) = take_bit 8 v"
    by (rule bit_word_eqI) (auto simp: bit_simps)
  ultimately show ?thesis by simp
qed

section \<open>Decoders over any reader\<close>

text \<open>The basic header of an RTMP chunk stream: format 0 to 3, stream id 2 to 65599.\<close>

definition basicHeaderOk :: "chunkBasicHeader \<Rightarrow> bool" where
  "basicHeaderOk h \<longleftrightarrow> unat (fmt h) < 4 \<and> 2 \<le> unat (chunkStreamID h) \<and> unat (chunkStreamID h) \<le> 65599"

context byte_reader
begin

lemma read_exact:
  assumes "contents s = bs @ r" and "length bs = n"
  shows "\<exists>s'. readFull n s = (Inr bs, s') \<and> contents s' = r \<and> ending s' = ending s"
  using read_enough [of n s] assms by auto

lemma control_decode_encode:
  "contents s = messageSetChunkSize_encode m1 @ r \<Longrightarrow>
     \<exists>s'. messageSetChunkSize_decode readFull s
        = (Inr \<lparr>ChunkSize = ChunkSize m1 AND 0x7FFFFFFF\<rparr>, s') \<and> contents s' = r"
  "contents s = messageAbort_encode m2 @ r \<Longrightarrow>
     \<exists>s'. messageAbort_decode readFull s = (Inr m2, s') \<and> contents s' = r"
  "contents s = messageAck_encode m3 @ r \<Longrightarrow>
     \<exists>s'. messageAck_decode readFull s = (Inr m3, s') \<and> contents s' = r"
  "contents s = messageWindowAckSize_encode m5 @ r \<Longrightarrow>
     \<exists>s'. messageWindowAckSize_decode readFull s = (Inr m5, s') \<and> contents s' = r"
  "contents s = messageSetPeerBandwidth_encode m6 @ r \<Longrightarrow>
     \<exists>s'. messageSetPeerBandwidth_decode readFull s = (Inr m6, s') \<and> contents s' = r"
proof -
  assume "contents s = messageSetChunkSize_encode m1 @ r"
  from read_exact [OF this wire_len(1)] show "\<exists>s'. messageSetChunkSize_decode readFull s
        = (Inr \<lparr>ChunkSize = ChunkSize m1 AND 0x7FFFFFFF\<rparr>, s') \<and> contents s' = r"
    by (auto simp: messageSetChunkSize_decode_def messageSetChunkSize_encode_def and.assoc)
next
  assume "contents s = messageAbort_encode m2 @ r"
  from read_exact [OF this wire_len(2)]
  show "\<exists>s'. messageAbort_decode readFull s = (Inr m2, s') \<and> contents s' = r"
    by (auto simp: messageAbort_decode_def messageAbort_encode_def)
next
  assume "contents s = messageAck_encode m3 @ r"
  from read_exact [OF this wire_len(3)]
  show "\<exists>s'. messageAck_decode readFull s = (Inr m3, s') \<and> contents s' = r"
    by (auto simp: messageAck_decode_def messageAck_encode_def)
next
  assume "contents s = messageWindowAckSize_encode m5 @ r"
  from read_exact [OF this wire_len(4)]
  show "\<exists>s'. messageWindowAckSize_decode readFull s = (Inr m5, s') \<and> contents s' = r"
    by (auto simp: messageWindowAckSize_decode_def messageWindowAckSize_encode_def)
next
  assume "contents s = messageSetPeerBandwidth_encode m6 @ r"
  from read_exact [OF this wire_len(5)]
  show "\<exists>s'. messageSetPeerBandwidth_decode readFull s = (Inr m6, s') \<and> contents s' = r"
    by (auto simp: messageSetPeerBandwidth_decode_def messageSetPeerBandwidth_encode_def nth_append)
qed

lemma extended_timestamp_decode_encode:
  "contents s = encodeExtendedTimestamp ts @ r \<Longrightarrow>
     \<exists>s'. decodeExtendedTimestamp readFull s = (Inr ts, s') \<and> contents s' = r \<and> ending s' = ending s"
  using read_exact [of s "encodeExtendedTimestamp ts" r 4]
  by (auto simp: decodeExtendedTimestamp_def encodeExtendedTimestamp_def)

lemma basic_header_decode_encode:
  assumes ok: "basicHeaderOk h" and s: "contents s = chunkBasicHeader_encode h @ r"
  shows "\<exists>s'. chunkBasicHeader_decode readFull s = (Inr h, s') \<and> contents s' = r
           \<and> ending s' = ending s"
proof -
  let ?c = "chunkStreamID h"
  have f: "take_bit 2 (fmt h) = fmt h"
    using ok by (intro u8_small) (simp add: basicHeaderOk_def)
  consider (one) "unat ?c \<le> 63" | (two) "64 \<le> unat ?c" "unat ?c \<le> 319"
    | (three) "320 \<le> unat ?c" by linarith
  then show ?thesis
  proof cases
    case one
    let ?p = "ucast ?c :: byte"
    have up: "unat ?p = unat ?c" using one by (simp add: unsigned_ucast_eq take_bit_nat_eq_self)
    then have p: "take_bit 6 ?p = ?p" using one by (intro u8_small) simp
    have c: "ucast ?p = ?c" using one by (intro one_byte_id) simp
    have enc: "chunkBasicHeader_encode h = [push_bit 6 (fmt h) OR ?p]"
      using one by (simp add: chunkBasicHeader_encode_def word_le_nat_alt)
    have ne: "?p \<noteq> 0" "?p \<noteq> 1"
      using ok up by (auto simp: basicHeaderOk_def)
    from read_exact [of s "[push_bit 6 (fmt h) OR ?p]" r 1] s enc obtain s' where
      "readFull 1 s = (Inr [push_bit 6 (fmt h) OR ?p], s')" "contents s' = r" "ending s' = ending s"
      by auto
    then show ?thesis
      using fmt_bits [OF f p] ne by (simp add: chunkBasicHeader_decode_def Let_def c)
  next
    case two
    have sub: "unat (?c - 64) = unat ?c - 64" using two by (simp add: unat_sub word_le_nat_alt)
    have c: "ucast (ucast (?c - 64) :: byte) + 64 = ?c"
      using two sub one_byte_id [of "?c - 64"] by simp
    have enc: "chunkBasicHeader_encode h = [push_bit 6 (fmt h)] @ [ucast (?c - 64)]"
      using two by (simp add: chunkBasicHeader_encode_def word_le_nat_alt)
    from read_exact [of s "[push_bit 6 (fmt h)]" "[ucast (?c - 64)] @ r" 1] s enc obtain s1 where
      1: "readFull 1 s = (Inr [push_bit 6 (fmt h)], s1)" "contents s1 = [ucast (?c - 64)] @ r"
        "ending s1 = ending s"
      by auto
    from read_exact [OF 1(2), of 1] obtain s2 where
      "readFull 1 s1 = (Inr [ucast (?c - 64)], s2)" "contents s2 = r" "ending s2 = ending s1"
      by auto
    with 1 show ?thesis
      using fmt_bits [OF f, of 0] by (simp add: chunkBasicHeader_decode_def Let_def c)
  next
    case three
    have sub: "unat (?c - 64) = unat ?c - 64" using three by (simp add: unat_sub word_le_nat_alt)
    have "unat (?c - 64) < 2 ^ 16" using ok three sub by (auto simp: basicHeaderOk_def)
    from two_byte_id [OF this] have c: "ucast (ucast (?c - 64) :: byte)
        + push_bit 8 (ucast (ucast (drop_bit 8 (?c - 64)) :: byte)) + 64 = ?c" by simp
    let ?tail = "[ucast (?c - 64), ucast (drop_bit 8 (?c - 64))] :: bytes"
    have enc: "chunkBasicHeader_encode h = [push_bit 6 (fmt h) OR 1] @ ?tail"
      using three by (simp add: chunkBasicHeader_encode_def word_le_nat_alt)
    from read_exact [of s "[push_bit 6 (fmt h) OR 1]" "?tail @ r" 1] s enc obtain s1 where
      1: "readFull 1 s = (Inr [push_bit 6 (fmt h) OR 1], s1)" "contents s1 = ?tail @ r"
        "ending s1 = ending s"
      by auto
    from read_exact [OF 1(2), of 2] obtain s2 where
      "readFull 2 s1 = (Inr ?tail, s2)" "contents s2 = r" "ending s2 = ending s1"
      by auto
    with 1 show ?thesis
      using fmt_bits [OF f, of 1] by (simp add: chunkBasicHeader_decode_def Let_def c)
  qed
qed

lemma basic_header_progress:
  "chunkBasicHeader_decode readFull s = (Inr h, s') \<Longrightarrow> length (contents s') < length (contents s)"
  by (auto simp: chunkBasicHeader_decode_def Let_def bindS_Inr_iff
      dest!: read_progress split: if_splits)

lemma extended_timestamp_shrinks:
  "decodeExtendedTimestamp readFull s = (r, s') \<Longrightarrow> length (contents s') \<le> length (contents s)"
  by (cases "readFull 4 s"; cases "fst (readFull 4 s)")
    (auto simp: decodeExtendedTimestamp_def dest: read_shrinks)

lemma extended_timestamp_progress:
  "decodeExtendedTimestamp readFull s = (Inr ts, s') \<Longrightarrow> length (contents s') < length (contents s)"
  by (auto simp: decodeExtendedTimestamp_def bindS_Inr_iff dest!: read_progress)

end

section \<open>The handshake completes\<close>

definition netContents :: "netconn \<Rightarrow> bytes" where
  "netContents c = transportContents (rx c)"

interpretation net_rd: byte_reader netReadFull netContents "\<lambda>c. transportEnding (rx c)"
proof unfold_locales
  fix n and c :: netconn
  assume "n \<le> length (netContents c)"
  from transport_rd.read_enough [OF this [unfolded netContents_def]]
  show "\<exists>s'. netReadFull n c = (Inr (take n (netContents c)), s')
      \<and> netContents s' = drop n (netContents c)
      \<and> transportEnding (rx s') = transportEnding (rx c)"
    by (auto simp: netReadFull_def netContents_def)
next
  fix n and c :: netconn
  assume "length (netContents c) < n"
  from transport_rd.read_short [OF this [unfolded netContents_def]]
  show "\<exists>s'. netReadFull n c = (Inl (shortErr (netContents c) (transportEnding (rx c))), s')
      \<and> netContents s' = [] \<and> transportEnding (rx s') = transportEnding (rx c)"
    by (auto simp: netReadFull_def netContents_def)
qed

lemma netReadFull_frame: "netReadFull n c = (r, c') \<Longrightarrow> tx c' = tx c \<and> room c' = room c"
  by (auto simp: netReadFull_def split: prod.splits)

lemma netWrite_roomy:
  "room c = None \<Longrightarrow> netWrite bs c = (Inr (), c\<lparr>tx := tx c @ bs\<rparr>)"
  by (simp add: netWrite_def)

text \<open>One read of the handshake: the next \<open>n\<close> bytes, nothing written.\<close>

lemma net_read:
  assumes "netContents c = bs @ r" and "length bs = n"
  shows "\<exists>c'. netReadFull n c = (Inr bs, c') \<and> netContents c' = r \<and> tx c' = tx c \<and> room c' = room c"
  using net_rd.read_exact [OF assms] by (blast dest: netReadFull_frame)

lemma netContents_tx [simp]: "netContents (c\<lparr>tx := b\<rparr>) = netContents c"
  by (simp add: netContents_def)

lemma chunk1_len: "length (rand c) = 1528 \<Longrightarrow> length (handshakeChunk1_encode c) = 1536"
  by (simp add: handshakeChunk1_encode_def)

lemma chunk2_len: "length (echo c) = 1528 \<Longrightarrow> length (handshakeChunk2_encode c) = 1536"
  by (simp add: handshakeChunk2_encode_def)

lemma chunk0_net:
  assumes "netContents c = handshakeChunk0_encode h @ r"
  shows "\<exists>c'. handshakeChunk0_decode netReadFull c = (Inr h, c') \<and> netContents c' = r
    \<and> tx c' = tx c \<and> room c' = room c"
  using net_read [OF assms, of 1] by (auto simp: handshakeChunk0_decode_def handshakeChunk0_encode_def)

lemma chunk1_net:
  assumes "netContents c = handshakeChunk1_encode h @ r" and "length (rand h) = 1528"
  shows "\<exists>c'. handshakeChunk1_decode netReadFull c = (Inr h, c') \<and> netContents c' = r
    \<and> tx c' = tx c \<and> room c' = room c"
  using net_read [OF assms(1) chunk1_len [OF assms(2)]]
  by (auto simp: handshakeChunk1_decode_def handshakeChunk1_encode_def)

lemma chunk2_net:
  assumes "netContents c = handshakeChunk2_encode h @ r" and "length (echo h) = 1528"
  shows "\<exists>c'. handshakeChunk2_decode netReadFull c = (Inr h, c') \<and> netContents c' = r
    \<and> tx c' = tx c \<and> room c' = room c"
  using net_read [OF assms(1) chunk2_len [OF assms(2)]]
  by (auto simp: handshakeChunk2_decode_def handshakeChunk2_encode_def)

text \<open>What each side writes, given what the other side sent first.\<close>

definition clientHello :: "u32 \<Rightarrow> bytes \<Rightarrow> bytes" where
  "clientHello now rb = handshakeChunk0_encode \<lparr>version = version3\<rparr>
     @ handshakeChunk1_encode \<lparr>time = now, rand = rb\<rparr>"

definition handshakeReply :: "u32 \<Rightarrow> u32 \<Rightarrow> bytes \<Rightarrow> bytes" where
  "handshakeReply received now rb =
     handshakeChunk2_encode \<lparr>receivedTimestamp = received, readTime = now, echo = rb\<rparr>"

lemma server_handshake_run:
  assumes roomy: "room rw = None" and sr: "length sr = 1528" and cr: "length cr = 1528"
    and c2: "length (echo c2) = 1528"
    and rx: "netContents rw = handshakeChunk0_encode c0
               @ handshakeChunk1_encode \<lparr>time = ct, rand = cr\<rparr> @ handshakeChunk2_encode c2 @ r"
  shows "\<exists>rw'. serverHandshake st (Some sr) rw = (Inr (), rw') \<and> netContents rw' = r
     \<and> tx rw' = tx rw @ clientHello st sr @ handshakeReply ct st cr \<and> room rw' = None"
proof -
  from chunk0_net [OF rx] obtain rw1 where
    1: "handshakeChunk0_decode netReadFull rw = (Inr c0, rw1)" "tx rw1 = tx rw" "room rw1 = None"
    and rx1: "netContents rw1 = handshakeChunk1_encode \<lparr>time = ct, rand = cr\<rparr>
               @ handshakeChunk2_encode c2 @ r"
    using roomy by auto
  from chunk1_net [OF rx1] cr obtain rw2 where
    2: "handshakeChunk1_decode netReadFull rw1 = (Inr \<lparr>time = ct, rand = cr\<rparr>, rw2)"
      "tx rw2 = tx rw" "room rw2 = None" and rx2: "netContents rw2 = handshakeChunk2_encode c2 @ r"
    using 1 by auto
  let ?rw3 = "rw2\<lparr>tx := tx rw @ clientHello st sr @ handshakeReply ct st cr\<rparr>"
  from rx2 have "netContents ?rw3 = handshakeChunk2_encode c2 @ r" by simp
  from chunk2_net [OF this c2] obtain rw4 where
    "handshakeChunk2_decode netReadFull ?rw3 = (Inr c2, rw4)" "netContents rw4 = r"
    "tx rw4 = tx ?rw3" "room rw4 = None" using 2(3) by auto
  with 1 2 show ?thesis
    by (auto simp: serverHandshake_def netWrite_roomy clientHello_def handshakeReply_def)
qed

lemma client_handshake_run:
  assumes roomy: "room rw = None" and cr: "length cr = 1528" and sr: "length sr = 1528"
    and s2: "length (echo s2) = 1528"
    and rx: "netContents rw = handshakeChunk0_encode s0
               @ handshakeChunk1_encode \<lparr>time = st, rand = sr\<rparr> @ handshakeChunk2_encode s2 @ r"
  shows "\<exists>rw'. clientHandshake ct ct' (Some cr) rw = (Inr (), rw') \<and> netContents rw' = r
     \<and> tx rw' = tx rw @ clientHello ct cr @ handshakeReply st ct' sr"
proof -
  let ?rw0 = "rw\<lparr>tx := tx rw @ clientHello ct cr\<rparr>"
  from chunk0_net [of ?rw0] rx obtain rw1 where
    1: "handshakeChunk0_decode netReadFull ?rw0 = (Inr s0, rw1)" "tx rw1 = tx ?rw0" "room rw1 = None"
    and rx1: "netContents rw1 = handshakeChunk1_encode \<lparr>time = st, rand = sr\<rparr>
               @ handshakeChunk2_encode s2 @ r"
    using roomy by auto
  from chunk1_net [OF rx1] sr obtain rw2 where
    2: "handshakeChunk1_decode netReadFull rw1 = (Inr \<lparr>time = st, rand = sr\<rparr>, rw2)"
      "tx rw2 = tx ?rw0" "room rw2 = None" and rx2: "netContents rw2 = handshakeChunk2_encode s2 @ r"
    using 1 by auto
  from chunk2_net [OF rx2 s2] obtain rw3 where
    "handshakeChunk2_decode netReadFull rw2 = (Inr s2, rw3)" "netContents rw3 = r"
    "tx rw3 = tx ?rw0" "room rw3 = None" using 2 by auto
  with roomy 1 2 show ?thesis
    by (auto simp: clientHandshake_def netWrite_roomy clientHello_def handshakeReply_def)
qed


section \<open>Properties\<close>

text \<open>
  The handshake completes. When each side receives what the other one sends, in whatever
  segments, client and server both finish without error, have sent exactly what the other one
  expects, and leave the bytes after the handshake unread.
\<close>

theorem handshake_completes:
  assumes "room c = None" "tx c = []" and "room s = None" "tx s = []"
    and "length cr = 1528" and "length sr = 1528"
    and "netContents s = clientHello ct cr @ handshakeReply st ct' sr @ rs"
    and "netContents c = clientHello st sr @ handshakeReply ct st cr @ rc"
  shows "\<exists>c' s'. clientHandshake ct ct' (Some cr) c = (Inr (), c')
    \<and> serverHandshake st (Some sr) s = (Inr (), s')
    \<and> netContents s = tx c' @ rs \<and> netContents c = tx s' @ rc
    \<and> netContents s' = rs \<and> netContents c' = rc"
  using server_handshake_run [of s sr cr "\<lparr>receivedTimestamp = st, readTime = ct', echo = sr\<rparr>"
      "\<lparr>version = version3\<rparr>" ct rs st]
    client_handshake_run [of c cr sr "\<lparr>receivedTimestamp = ct, readTime = st, echo = cr\<rparr>"
      "\<lparr>version = version3\<rparr>" st rc ct ct'] assms
  by (auto simp: clientHello_def handshakeReply_def)

definition sampleRand :: bytes where
  "sampleRand = replicate 1528 5"

text \<open>
  The server takes any protocol version and any echo: the version byte C0 and the whole
  content of C2 have no influence on the outcome or on what the server sends.
\<close>

theorem server_handshake_unchecked:
  assumes "room s = None" and "length sr = 1528" "length cr = 1528" "length (echo c2) = 1528"
    and "netContents s = [v] @ handshakeChunk1_encode \<lparr>time = ct, rand = cr\<rparr>
           @ handshakeChunk2_encode c2 @ rs"
  shows "\<exists>s'. serverHandshake st (Some sr) s = (Inr (), s') \<and> netContents s' = rs
    \<and> tx s' = tx s @ clientHello st sr @ handshakeReply ct st cr"
  using server_handshake_run [of s sr cr c2 "\<lparr>version = v\<rparr>" ct rs st] assms
  by (auto simp: handshakeChunk0_encode_def)

lemma server_short_run:
  assumes "length (netContents s) < 1537"
  shows "\<exists>e s'. serverHandshake now rnd s = (Inl e, s') \<and> tx s' = tx s
    \<and> (if netContents s = [] then e = ReadC0 (shortErr [] (transportEnding (rx s)))
       else e = ReadC1 (shortErr (tl (netContents s)) (transportEnding (rx s))))"
proof (cases "netContents s")
  case Nil
  then obtain s' where "netReadFull 1 s = (Inl (shortErr [] (transportEnding (rx s))), s')"
    using net_rd.read_short [of s 1] by auto
  with Nil show ?thesis
    by (auto simp: serverHandshake_def handshakeChunk0_decode_def dest: netReadFull_frame)
next
  case (Cons v r)
  from net_rd.read_exact [of s "[v]" r 1] Cons obtain s1 where
    1: "netReadFull 1 s = (Inr [v], s1)" "netContents s1 = r"
      "transportEnding (rx s1) = transportEnding (rx s)" by auto
  have "length (netContents s1) < 1536" using assms Cons 1(2) by simp
  from net_rd.read_short [OF this] 1 obtain s2 where
    2: "netReadFull 1536 s1 = (Inl (shortErr r (transportEnding (rx s))), s2)" by auto
  have "tx s2 = tx s"
    using netReadFull_frame [OF 1(1)] netReadFull_frame [OF 2] by simp
  with 1 2 Cons show ?thesis
    by (simp add: serverHandshake_def handshakeChunk0_decode_def handshakeChunk1_decode_def)
qed

text \<open>
  Nothing is sent to a peer that has not sent a whole C0 and C1: with fewer than 1537
  bytes to come the server fails reading the chunk that is cut, and has written nothing.
\<close>

theorem server_handshake_short:
  assumes "length (netContents s) < 1537"
  shows "\<exists>e s'. serverHandshake now rnd s = (Inl e, s') \<and> tx s' = tx s
    \<and> (if netContents s = [] then e = ReadC0 (shortErr [] (transportEnding (rx s)))
       else e = ReadC1 (shortErr (tl (netContents s)) (transportEnding (rx s))))"
  using server_short_run [OF assms] .

text \<open>
  The chunk basic header is decoded as it was encoded, in its one, two or three byte form,
  for every format and every chunk stream id from 2 to 65599, and what follows is left alone.
\<close>

theorem basic_header_roundtrip:
  assumes "basicHeaderOk h" and "bufioContents b = chunkBasicHeader_encode h @ r"
  shows "\<exists>b'. chunkBasicHeader_decode bufioReadFull b = (Inr h, b') \<and> bufioContents b' = r"
  using bufio_rd.basic_header_decode_encode [OF assms] by blast

text \<open>
  The six protocol control messages are decoded as they were encoded; of a chunk size only
  the 31 bits the protocol gives it are kept.
\<close>

theorem control_messages_roundtrip:
  "messageSetChunkSize_decode bytesReadFull (messageSetChunkSize_encode m1 @ r)
     = (Inr \<lparr>ChunkSize = ChunkSize m1 AND 0x7FFFFFFF\<rparr>, r)
   \<and> messageAbort_decode bytesReadFull (messageAbort_encode m2 @ r) = (Inr m2, r)
   \<and> messageAck_decode bytesReadFull (messageAck_encode m3 @ r) = (Inr m3, r)
   \<and> messageUserControl_decode (messageUserControl_encode m4) = (Inr m4, [])
   \<and> messageWindowAckSize_decode bytesReadFull (messageWindowAckSize_encode m5 @ r) = (Inr m5, r)
   \<and> messageSetPeerBandwidth_decode bytesReadFull (messageSetPeerBandwidth_encode m6 @ r)
     = (Inr m6, r)"
proof -
  have "Uint16 (PutUint16 (EventType m4)) = EventType m4" by simp
  then have "messageUserControl_decode (messageUserControl_encode m4) = (Inr m4, [])"
    by (simp add: messageUserControl_decode_def messageUserControl_encode_def bytesReadFull_def)
  then show ?thesis
    using bytes_rd.control_decode_encode(1) [OF refl, of m1 r]
      bytes_rd.control_decode_encode(2) [OF refl, of m2 r]
      bytes_rd.control_decode_encode(3) [OF refl, of m3 r]
      bytes_rd.control_decode_encode(4) [OF refl, of m5 r]
      bytes_rd.control_decode_encode(5) [OF refl, of m6 r] by auto
qed

end
