(* ===== verification/Rtmp_Conn.thy ===== *)
theory Rtmp_Conn
  imports Rtmp_Wire
begin

text \<open>
  The chunk layer of an RTMP connection, \<^verbatim>\<open>src/internal/rtmp/conn.go\<close>: messages are split
  into chunks on the way out and reassembled from interleaved chunk streams on the way in,
  with the acknowledgement of received bytes and the handling of protocol control messages.
  The connection is the record \<open>conn\<close>; every method takes it and returns it updated with a
  result or an error.
\<close>

section \<open>State\<close>

abbreviation (input) "defaultReadChunkSize \<equiv> 128 :: u32"
abbreviation (input) "defaultWriteChunkSize \<equiv> 128 :: u32"
abbreviation (input) "serverChunkSize \<equiv> 4096 :: u32"
abbreviation (input) "defaultWindowAckSize \<equiv> 2500000 :: u32"

definition maxMessageSize :: u32 where
  "maxMessageSize = 16 * 1024 * 1024"

abbreviation (input) "csidControl \<equiv> 2 :: u32"
abbreviation (input) "csidCommand \<equiv> 3 :: u32"
abbreviation (input) "csidAudio \<equiv> 6 :: u32"
abbreviation (input) "csidVideo \<equiv> 7 :: u32"

abbreviation (input) "userControlStreamBegin \<equiv> 0 :: u16"
abbreviation (input) "userControlStreamEOF \<equiv> 1 :: u16"
abbreviation (input) "userControlPingRequest \<equiv> 6 :: u16"
abbreviation (input) "userControlPingResponse \<equiv> 7 :: u16"

abbreviation (input) "messageTypeSetChunkSize \<equiv> 1 :: byte"
abbreviation (input) "messageTypeAbort \<equiv> 2 :: byte"
abbreviation (input) "messageTypeAck \<equiv> 3 :: byte"
abbreviation (input) "messageTypeUserControl \<equiv> 4 :: byte"
abbreviation (input) "messageTypeWindowAckSize \<equiv> 5 :: byte"
abbreviation (input) "messageTypeSetPeerBandwidth \<equiv> 6 :: byte"
abbreviation (input) "messageTypeAudio \<equiv> 8 :: byte"
abbreviation (input) "messageTypeVideo \<equiv> 9 :: byte"
abbreviation (input) "messageTypeAMF3Data \<equiv> 15 :: byte"
abbreviation (input) "messageTypeAMF3Command \<equiv> 17 :: byte"
abbreviation (input) "messageTypeAMF0Data \<equiv> 18 :: byte"
abbreviation (input) "messageTypeAMF0Command \<equiv> 20 :: byte"

text \<open>
  Reassembly state of one chunk stream. \<open>payloadCap\<close> is the capacity of the payload slice:
  growing the slice beyond it is a run-time panic.
\<close>

record chunkReadState =
  timestamp :: u32
  timestampDelta :: u32
  messageLength :: u32
  messageTypeID :: byte
  messageStreamID :: u32
  hasExtended :: bool
  payload :: bytes
  payloadCap :: nat
  remaining :: u32

definition newReadState :: chunkReadState where
  "newReadState = \<lparr>timestamp = 0, timestampDelta = 0, messageLength = 0, messageTypeID = 0,
     messageStreamID = 0, hasExtended = False, payload = [], payloadCap = 0, remaining = 0\<rparr>"

record rawMessage =
  typeID :: byte
  streamID :: u32
  msgTimestamp :: u32
  msgPayload :: bytes

record conn = netwriter +
  br :: bufio
  readChunkSize :: u32
  writeChunkSize :: u32
  readStates :: "u32 \<rightharpoonup> chunkReadState"
  windowAckSize :: u32
  lastAcked :: u64
  peerAckedBytes :: u64
  nextStreamID :: u32

definition newConn :: "transport \<Rightarrow> netwriter \<Rightarrow> conn" where
  "newConn t w = \<lparr>tx = tx w, room = room w,
     br = \<lparr>buffered = [], rd = t, count = 0\<rparr>,
     readChunkSize = defaultReadChunkSize, writeChunkSize = defaultWriteChunkSize,
     readStates = Map.empty, windowAckSize = defaultWindowAckSize, lastAcked = 0,
     peerAckedBytes = 0, nextStreamID = 1\<rparr>"

text \<open>
  \<open>SliceBounds\<close> and \<open>Diverges\<close> are not Go errors: the first is a run-time panic, the second a
  loop that never ends. Both are shown unreachable.
\<close>

datatype rtmp_error =
    IOErr io_error
  | ErrMessageTooLarge u32
  | ErrInvalidChunkSize u32
  | SliceBounds
  | Diverges

section \<open>Writing a message\<close>

text \<open>The header of the first chunk: format 0 with the message header.\<close>

definition firstHeader :: "u32 \<Rightarrow> rawMessage \<Rightarrow> u32 \<Rightarrow> bytes" where
  "firstHeader csid msg msgLen =
     chunkBasicHeader_encode \<lparr>fmt = 0, chunkStreamID = csid\<rparr>
     @ (if msgTimestamp msg \<ge> chunkTimestampMax then [0xFF, 0xFF, 0xFF]
        else PutUint24 (msgTimestamp msg))
     @ PutUint24 msgLen
     @ [typeID msg]
     @ PutUint32LE (streamID msg)
     @ (if msgTimestamp msg \<ge> chunkTimestampMax
        then encodeExtendedTimestamp (msgTimestamp msg) else [])"

text \<open>The header of every later chunk: format 3, repeating an extended timestamp.\<close>

definition nextHeader :: "u32 \<Rightarrow> rawMessage \<Rightarrow> bytes" where
  "nextHeader csid msg =
     chunkBasicHeader_encode \<lparr>fmt = 3, chunkStreamID = csid\<rparr>
     @ (if msgTimestamp msg \<ge> chunkTimestampMax
        then encodeExtendedTimestamp (msgTimestamp msg) else [])"

text \<open>
  The loop of \<open>writeRawMessage\<close>: one chunk per pass. A chunk size of zero would make it write
  headers forever.
\<close>

function writeChunks :: "u32 \<Rightarrow> rawMessage \<Rightarrow> u32 \<Rightarrow> nat \<Rightarrow> nat \<Rightarrow> bool \<Rightarrow> rtmp_error + bytes" where
  "writeChunks csid msg msgLen chunkSize offset first =
     (let n = min chunkSize (unat msgLen - offset);
          hdr = (if first then firstHeader csid msg msgLen else nextHeader csid msg);
          bs = hdr @ take n (drop offset (msgPayload msg));
          offset' = offset + n
      in if unat msgLen \<le> offset' then Inr bs
         else if n = 0 then Inl Diverges
         else bindE (writeChunks csid msg msgLen chunkSize offset' False) (\<lambda>r. Inr (bs @ r)))"
  by pat_completeness auto
termination
  by (relation "measure (\<lambda>(csid, msg, msgLen, chunkSize, offset, first). unat msgLen - offset)") auto

declare writeChunks.simps [simp del]

text \<open>
  The buffered writer is flushed at the end, under the write lock: the chunks of a message
  leave together, or the connection fails.
\<close>

definition writeRawMessage :: "u32 \<Rightarrow> rawMessage \<Rightarrow> conn \<Rightarrow> (rtmp_error + unit) \<times> conn" where
  "writeRawMessage csid msg c =
     (case writeChunks csid msg (of_nat (length (msgPayload msg))) (unat (writeChunkSize c)) 0 True of
        Inl e \<Rightarrow> (Inl e, c)
      | Inr bs \<Rightarrow> mapErrS IOErr (netWrite bs c))"

definition ackMessage :: "u32 \<Rightarrow> rawMessage" where
  "ackMessage seq = \<lparr>typeID = messageTypeAck, streamID = 0, msgTimestamp = 0,
      msgPayload = messageAck_encode \<lparr>SequenceNumber = seq\<rparr>\<rparr>"

definition sendAck :: "u32 \<Rightarrow> conn \<Rightarrow> (rtmp_error + unit) \<times> conn" where
  "sendAck seq c = writeRawMessage csidControl (ackMessage seq) c"

definition sendSetChunkSize :: "u32 \<Rightarrow> conn \<Rightarrow> (rtmp_error + unit) \<times> conn" where
  "sendSetChunkSize n c = writeRawMessage csidControl
     \<lparr>typeID = messageTypeSetChunkSize, streamID = 0, msgTimestamp = 0,
      msgPayload = messageSetChunkSize_encode \<lparr>ChunkSize = n\<rparr>\<rparr> c"

definition sendWindowAckSize :: "u32 \<Rightarrow> conn \<Rightarrow> (rtmp_error + unit) \<times> conn" where
  "sendWindowAckSize n c = writeRawMessage csidControl
     \<lparr>typeID = messageTypeWindowAckSize, streamID = 0, msgTimestamp = 0,
      msgPayload = messageWindowAckSize_encode \<lparr>WindowSize = n\<rparr>\<rparr> c"

definition sendSetPeerBandwidth :: "u32 \<Rightarrow> byte \<Rightarrow> conn \<Rightarrow> (rtmp_error + unit) \<times> conn" where
  "sendSetPeerBandwidth bandwidth limitType c = writeRawMessage csidControl
     \<lparr>typeID = messageTypeSetPeerBandwidth, streamID = 0, msgTimestamp = 0,
      msgPayload = messageSetPeerBandwidth_encode \<lparr>Bandwidth = bandwidth, LimitType = limitType\<rparr>\<rparr> c"

definition sendUserControl :: "u16 \<Rightarrow> bytes \<Rightarrow> conn \<Rightarrow> (rtmp_error + unit) \<times> conn" where
  "sendUserControl eventType data c = writeRawMessage csidControl
     \<lparr>typeID = messageTypeUserControl, streamID = 0, msgTimestamp = 0,
      msgPayload = messageUserControl_encode \<lparr>EventType = eventType, EventData = data\<rparr>\<rparr> c"

definition sendStreamBegin :: "u32 \<Rightarrow> conn \<Rightarrow> (rtmp_error + unit) \<times> conn" where
  "sendStreamBegin sid c = sendUserControl userControlStreamBegin (PutUint32 sid) c"

definition sendStreamEOF :: "u32 \<Rightarrow> conn \<Rightarrow> (rtmp_error + unit) \<times> conn" where
  "sendStreamEOF sid c = sendUserControl userControlStreamEOF (PutUint32 sid) c"

definition checkAck :: "conn \<Rightarrow> (rtmp_error + unit) \<times> conn" where
  "checkAck c =
     (if windowAckSize c = 0 then (Inr (), c)
      else let bytesRead = count (br c)
           in if bytesRead - lastAcked c \<ge> ucast (windowAckSize c)
              then sendAck (ucast bytesRead) (c\<lparr>lastAcked := bytesRead\<rparr>)
              else (Inr (), c))"

section \<open>Reading a message\<close>

text \<open>A new message starts: an empty payload with room for the whole message.\<close>

definition startMessage :: "chunkReadState \<Rightarrow> chunkReadState" where
  "startMessage st = st\<lparr>payload := [], payloadCap := unat (messageLength st),
     remaining := messageLength st\<rparr>"

definition startSized :: "chunkReadState \<Rightarrow> bufio
    \<Rightarrow> (rtmp_error + unit) \<times> chunkReadState \<times> bufio" where
  "startSized st b =
     (if messageLength st > maxMessageSize
      then (Inl (ErrMessageTooLarge (messageLength st)), st, b)
      else (Inr (), startMessage st, b))"

text \<open>
  The message header of one chunk, by format. Fields are assigned as the bytes are read, so
  an error leaves the state partly updated.
\<close>

definition chunkHeader0 :: "chunkReadState \<Rightarrow> bufio \<Rightarrow> (rtmp_error + unit) \<times> chunkReadState \<times> bufio" where
  "chunkHeader0 st b =
     (case bufioReadFull 11 b of
        (Inl e, b) \<Rightarrow> (Inl (IOErr e), st, b)
      | (Inr hdr, b) \<Rightarrow>
          let ts = Uint24 (hdr ! 0) (hdr ! 1) (hdr ! 2);
              st = st\<lparr>messageLength := Uint24 (hdr ! 3) (hdr ! 4) (hdr ! 5),
                     messageTypeID := hdr ! 6,
                     messageStreamID := Uint32LE (hdr ! 7) (hdr ! 8) (hdr ! 9) (hdr ! 10)\<rparr>
          in if ts = chunkTimestampMax then
               (case decodeExtendedTimestamp bufioReadFull b of
                  (Inl e, b) \<Rightarrow> (Inl (IOErr e), st, b)
                | (Inr ext, b) \<Rightarrow>
                    startSized (st\<lparr>timestamp := ext, hasExtended := True, timestampDelta := 0\<rparr>) b)
             else startSized (st\<lparr>timestamp := ts, hasExtended := False, timestampDelta := 0\<rparr>) b)"

definition chunkHeader1 :: "chunkReadState \<Rightarrow> bufio \<Rightarrow> (rtmp_error + unit) \<times> chunkReadState \<times> bufio" where
  "chunkHeader1 st b =
     (case bufioReadFull 7 b of
        (Inl e, b) \<Rightarrow> (Inl (IOErr e), st, b)
      | (Inr hdr, b) \<Rightarrow>
          let td = Uint24 (hdr ! 0) (hdr ! 1) (hdr ! 2);
              st = st\<lparr>messageLength := Uint24 (hdr ! 3) (hdr ! 4) (hdr ! 5),
                     messageTypeID := hdr ! 6\<rparr>
          in if td = chunkTimestampMax then
               (case decodeExtendedTimestamp bufioReadFull b of
                  (Inl e, b) \<Rightarrow> (Inl (IOErr e), st, b)
                | (Inr ext, b) \<Rightarrow>
                    startSized (st\<lparr>hasExtended := True, timestampDelta := ext,
                                  timestamp := timestamp st + ext\<rparr>) b)
             else startSized (st\<lparr>hasExtended := False, timestampDelta := td,
                                timestamp := timestamp st + td\<rparr>) b)"

definition chunkHeader2 :: "chunkReadState \<Rightarrow> bufio \<Rightarrow> (rtmp_error + unit) \<times> chunkReadState \<times> bufio" where
  "chunkHeader2 st b =
     (case bufioReadFull 3 b of
        (Inl e, b) \<Rightarrow> (Inl (IOErr e), st, b)
      | (Inr hdr, b) \<Rightarrow>
          let td = Uint24 (hdr ! 0) (hdr ! 1) (hdr ! 2)
          in if td = chunkTimestampMax then
               (case decodeExtendedTimestamp bufioReadFull b of
                  (Inl e, b) \<Rightarrow> (Inl (IOErr e), st, b)
                | (Inr ext, b) \<Rightarrow>
                    (Inr (), startMessage (st\<lparr>hasExtended := True, timestampDelta := ext,
                                             timestamp := timestamp st + ext\<rparr>), b))
             else (Inr (), startMessage (st\<lparr>hasExtended := False, timestampDelta := td,
                                           timestamp := timestamp st + td\<rparr>), b))"

text \<open>A chunk without header continues the message, or starts the next one like the last.\<close>

definition continueMessage :: "chunkReadState \<Rightarrow> chunkReadState" where
  "continueMessage st =
     (if remaining st = 0
      then startMessage (st\<lparr>timestamp := timestamp st + timestampDelta st\<rparr>) else st)"

definition chunkHeader3 :: "chunkReadState \<Rightarrow> bufio \<Rightarrow> (rtmp_error + unit) \<times> chunkReadState \<times> bufio" where
  "chunkHeader3 st b =
     (if hasExtended st then
        (case decodeExtendedTimestamp bufioReadFull b of
           (Inl e, b) \<Rightarrow> (Inl (IOErr e), st, b)
         | (Inr _, b) \<Rightarrow> (Inr (), continueMessage st, b))
      else (Inr (), continueMessage st, b))"

definition chunkHeader :: "byte \<Rightarrow> chunkReadState \<Rightarrow> bufio
    \<Rightarrow> (rtmp_error + unit) \<times> chunkReadState \<times> bufio" where
  "chunkHeader f st b =
     (if f = 0 then chunkHeader0 st b
      else if f = 1 then chunkHeader1 st b
      else if f = 2 then chunkHeader2 st b
      else if f = 3 then chunkHeader3 st b
      else (Inr (), st, b))"

text \<open>
  The payload of one chunk, read into the slice grown by its size. A read that fails leaves the
  slice grown, with the bytes that came and the zeros of the allocation.
\<close>

definition chunkPayload :: "u32 \<Rightarrow> chunkReadState \<Rightarrow> bufio
    \<Rightarrow> (rtmp_error + unit) \<times> chunkReadState \<times> bufio" where
  "chunkPayload chunkSize st b =
     (let toRead = min (remaining st) chunkSize
      in if toRead > 0 then
           if length (payload st) + unat toRead > payloadCap st then (Inl SliceBounds, st, b)
           else (case bufioReadFull (unat toRead) b of
                   (Inl e, b') \<Rightarrow>
                     (Inl (IOErr e), st\<lparr>payload := payload st @ bufioContents b
                        @ replicate (unat toRead - length (bufioContents b)) 0\<rparr>, b')
                 | (Inr p, b) \<Rightarrow>
                     (Inr (), st\<lparr>payload := payload st @ p, remaining := remaining st - toRead\<rparr>, b))
         else (Inr (), st, b))"

text \<open>
  One pass of the loop of \<open>readMessage\<close>: a whole chunk, and the message if it is complete.
\<close>

definition readChunk :: "conn \<Rightarrow> (rtmp_error + rawMessage option) \<times> conn" where
  "readChunk c =
     (case chunkBasicHeader_decode bufioReadFull (br c) of
        (Inl e, b) \<Rightarrow> (Inl (IOErr e), c\<lparr>br := b\<rparr>)
      | (Inr bh, b) \<Rightarrow>
          let csid = chunkStreamID bh;
              st = (case readStates c csid of None \<Rightarrow> newReadState | Some st \<Rightarrow> st)
          in (case chunkHeader (fmt bh) st b of
                (Inl e, st, b) \<Rightarrow> (Inl e, c\<lparr>br := b, readStates := (readStates c)(csid \<mapsto> st)\<rparr>)
              | (Inr _, st, b) \<Rightarrow>
                  (case chunkPayload (readChunkSize c) st b of
                     (Inl e, st, b) \<Rightarrow> (Inl e, c\<lparr>br := b, readStates := (readStates c)(csid \<mapsto> st)\<rparr>)
                   | (Inr _, st, b) \<Rightarrow>
                       bindS (checkAck (c\<lparr>br := b, readStates := (readStates c)(csid \<mapsto> st)\<rparr>)) (\<lambda>_ c.
                         if remaining st = 0 then
                           (Inr (Some \<lparr>typeID = messageTypeID st, streamID = messageStreamID st,
                                       msgTimestamp = timestamp st, msgPayload = payload st\<rparr>),
                            c\<lparr>readStates := (readStates c)(csid \<mapsto> st\<lparr>payload := [], payloadCap := 0\<rparr>)\<rparr>)
                         else (Inr None, c)))))"

definition connContents :: "conn \<Rightarrow> bytes" where
  "connContents c = bufioContents (br c)"

subsection \<open>Every pass consumes input\<close>

lemmas bufio_shrinks = bufio_rd.read_shrinks bufio_rd.extended_timestamp_shrinks

lemma startSized_bufio [simp]: "snd (snd (startSized st b)) = b"
  by (simp add: startSized_def)

lemma chunkHeader0_shrinks:
  "length (bufioContents (snd (snd (chunkHeader0 st b)))) \<le> length (bufioContents b)"
  by (auto simp: chunkHeader0_def Let_def split: prod.split sum.split
      dest!: bufio_shrinks intro: le_trans)

lemma chunkHeader1_shrinks:
  "length (bufioContents (snd (snd (chunkHeader1 st b)))) \<le> length (bufioContents b)"
  by (auto simp: chunkHeader1_def Let_def split: prod.split sum.split
      dest!: bufio_shrinks intro: le_trans)

lemma chunkHeader2_shrinks:
  "length (bufioContents (snd (snd (chunkHeader2 st b)))) \<le> length (bufioContents b)"
  by (auto simp: chunkHeader2_def Let_def split: prod.split sum.split
      dest!: bufio_shrinks intro: le_trans)

lemma chunkHeader3_shrinks:
  "length (bufioContents (snd (snd (chunkHeader3 st b)))) \<le> length (bufioContents b)"
  by (auto simp: chunkHeader3_def split: prod.split sum.split dest!: bufio_shrinks)

lemma chunkHeader_shrinks:
  "length (bufioContents (snd (snd (chunkHeader f st b)))) \<le> length (bufioContents b)"
  by (simp add: chunkHeader_def chunkHeader0_shrinks chunkHeader1_shrinks chunkHeader2_shrinks
      chunkHeader3_shrinks)

lemma chunkPayload_shrinks:
  "length (bufioContents (snd (snd (chunkPayload n st b)))) \<le> length (bufioContents b)"
  by (auto simp: chunkPayload_def Let_def split: prod.split sum.split dest!: bufio_shrinks)

lemma netWrite_br [simp]: "br (snd (netWrite bs c)) = br c"
  by (auto simp: netWrite_def split: option.splits)

lemma snd_mapErrS [simp]: "snd (mapErrS h m) = snd m"
  by (cases m; cases "fst m") auto

lemma writeRawMessage_br [simp]: "br (snd (writeRawMessage csid msg c)) = br c"
  by (auto simp: writeRawMessage_def split: sum.split)

lemma checkAck_br [simp]: "br (snd (checkAck c)) = br c"
  by (simp add: checkAck_def sendAck_def Let_def)

lemma bindS_prod: "bindS m f = (r, s) \<Longrightarrow> (\<exists>e. r = Inl e \<and> m = (Inl e, s)) \<or> (\<exists>a t. m = (Inr a, t) \<and> f a t = (r, s))"
  by (cases m; cases "fst m") auto

lemma readChunk_progress:
  assumes "readChunk c = (Inr m, c')"
  shows "length (connContents c') < length (connContents c)"
proof -
  from assms obtain bh b where dec: "chunkBasicHeader_decode bufioReadFull (br c) = (Inr bh, b)"
    by (auto simp: readChunk_def split: prod.splits sum.splits)
  let ?csid = "chunkStreamID bh"
  let ?st = "case readStates c ?csid of None \<Rightarrow> newReadState | Some st \<Rightarrow> st"
  obtain r1 st1 b1 where h: "chunkHeader (fmt bh) ?st b = (r1, st1, b1)"
    by (metis prod_cases3)
  obtain r2 st2 b2 where p: "chunkPayload (readChunkSize c) st1 b1 = (r2, st2, b2)"
    by (metis prod_cases3)
  let ?c = "c\<lparr>br := b2, readStates := (readStates c)(?csid \<mapsto> st2)\<rparr>"
  have fr: "br y = b2" if "checkAck ?c = (r, y)" for r y
    using checkAck_br [of ?c] that by simp
  from assms have "br c' = b2"
    by (auto simp: readChunk_def dec h p Let_def bindS_def dest: fr
        split: sum.splits prod.splits if_splits)
  moreover have "length (bufioContents b1) \<le> length (bufioContents b)"
    using chunkHeader_shrinks [of "fmt bh" ?st b] by (simp add: h)
  moreover have "length (bufioContents b2) \<le> length (bufioContents b1)"
    using chunkPayload_shrinks [of "readChunkSize c" st1 b1] by (simp add: p)
  ultimately show ?thesis
    using bufio_rd.basic_header_progress [OF dec] by (simp add: connContents_def)
qed

subsection \<open>readMessage\<close>

function readMessage :: "conn \<Rightarrow> (rtmp_error + rawMessage) \<times> conn" where
  "readMessage c =
     (case readChunk c of
        (Inl e, c') \<Rightarrow> (Inl e, c')
      | (Inr (Some msg), c') \<Rightarrow> (Inr msg, c')
      | (Inr None, c') \<Rightarrow> readMessage c')"
  by pat_completeness auto
termination
  by (relation "measure (\<lambda>c. length (connContents c))") (auto dest: readChunk_progress [OF sym])

declare readMessage.simps [simp del]

lemma readMessage_progress:
  "readMessage c = (Inr msg, c') \<Longrightarrow> length (connContents c') < length (connContents c)"
proof (induction c rule: readMessage.induct)
  case (1 c)
  obtain r c1 where ch: "readChunk c = (r, c1)" by (cases "readChunk c")
  show ?case
  proof (cases r)
    case (Inl e)
    with "1.prems" ch show ?thesis by (simp add: readMessage.simps [of c])
  next
    case (Inr m)
    with ch have lt: "length (connContents c1) < length (connContents c)"
      by (auto dest: readChunk_progress)
    show ?thesis
    proof (cases m)
      case None
      with "1.prems" ch Inr have "readMessage c1 = (Inr msg, c')"
        by (simp add: readMessage.simps [of c])
      from "1.IH" [OF ch [symmetric] Inr None this] lt show ?thesis by simp
    next
      case (Some a)
      with "1.prems" ch Inr lt show ?thesis by (simp add: readMessage.simps [of c])
    qed
  qed
qed

section \<open>Control messages\<close>

definition isControlMessage :: "byte \<Rightarrow> bool" where
  "isControlMessage t \<longleftrightarrow> messageTypeSetChunkSize \<le> t \<and> t \<le> messageTypeSetPeerBandwidth"

definition handleControlMessage :: "rawMessage \<Rightarrow> conn \<Rightarrow> (rtmp_error + unit) \<times> conn" where
  "handleControlMessage msg c =
     (let r = msgPayload msg in
      if typeID msg = messageTypeSetChunkSize then
        (case fst (messageSetChunkSize_decode bytesReadFull r) of
           Inl e \<Rightarrow> (Inl (IOErr e), c)
         | Inr m \<Rightarrow>
             if ChunkSize m < 1 then (Inl (ErrInvalidChunkSize (ChunkSize m)), c)
             else (Inr (), c\<lparr>readChunkSize := ChunkSize m\<rparr>))
      else if typeID msg = messageTypeAbort then
        (case fst (messageAbort_decode bytesReadFull r) of
           Inl e \<Rightarrow> (Inl (IOErr e), c)
         | Inr m \<Rightarrow>
             (case readStates c (AbortChunkStreamID m) of
                None \<Rightarrow> (Inr (), c)
              | Some st \<Rightarrow> (Inr (), c\<lparr>readStates := (readStates c)
                    (AbortChunkStreamID m \<mapsto> st\<lparr>payload := [], payloadCap := 0, remaining := 0\<rparr>)\<rparr>)))
      else if typeID msg = messageTypeAck then
        (case fst (messageAck_decode bytesReadFull r) of
           Inl e \<Rightarrow> (Inl (IOErr e), c)
         | Inr m \<Rightarrow> (Inr (), c\<lparr>peerAckedBytes := ucast (SequenceNumber m)\<rparr>))
      else if typeID msg = messageTypeUserControl then
        (case fst (messageUserControl_decode r) of
           Inl e \<Rightarrow> (Inl (IOErr e), c)
         | Inr m \<Rightarrow>
             if EventType m = userControlPingRequest \<and> 4 \<le> length (EventData m)
             then sendUserControl userControlPingResponse (take 4 (EventData m)) c
             else (Inr (), c))
      else if typeID msg = messageTypeWindowAckSize then
        (case fst (messageWindowAckSize_decode bytesReadFull r) of
           Inl e \<Rightarrow> (Inl (IOErr e), c)
         | Inr m \<Rightarrow> (Inr (), c\<lparr>windowAckSize := WindowSize m\<rparr>))
      else if typeID msg = messageTypeSetPeerBandwidth then
        (case fst (messageSetPeerBandwidth_decode bytesReadFull r) of
           Inl e \<Rightarrow> (Inl (IOErr e), c)
         | Inr m \<Rightarrow> (Inr (), c))
      else (Inr (), c))"

lemma handleControlMessage_br [simp]: "br (snd (handleControlMessage msg c)) = br c"
  by (simp add: handleControlMessage_def sendUserControl_def Let_def split: sum.split option.split)

section \<open>Writing succeeds on an open connection\<close>

lemma writeChunks_total: "0 < n \<Longrightarrow> \<exists>bs. writeChunks csid msg len n off first = Inr bs"
proof (induction csid msg len n off first rule: writeChunks.induct)
  case (1 csid msg len n off first)
  then show ?case
    by (subst writeChunks.simps) (fastforce simp: Let_def min_def split: if_splits)
qed

lemma writeRawMessage_open:
  assumes "room c = None" and "writeChunkSize c \<noteq> 0"
  shows "\<exists>bs. writeRawMessage csid msg c = (Inr (), c\<lparr>tx := tx c @ bs\<rparr>)
    \<and> writeChunks csid msg (of_nat (length (msgPayload msg))) (unat (writeChunkSize c)) 0 True = Inr bs"
proof -
  have "0 < unat (writeChunkSize c)" using assms(2) by (simp add: unat_gt_0)
  from writeChunks_total [OF this] obtain bs where
    "writeChunks csid msg (of_nat (length (msgPayload msg))) (unat (writeChunkSize c)) 0 True = Inr bs"
    by blast
  with assms(1) show ?thesis by (simp add: writeRawMessage_def netWrite_def)
qed

lemma checkAck_open:
  assumes "room c = None" and "writeChunkSize c \<noteq> 0"
  shows "\<exists>t l. checkAck c = (Inr (), c\<lparr>lastAcked := l, tx := t\<rparr>)"
proof -
  have "\<exists>t. sendAck seq (c\<lparr>lastAcked := l\<rparr>) = (Inr (), c\<lparr>lastAcked := l, tx := t\<rparr>)" for seq l
  proof -
    let ?c = "c\<lparr>lastAcked := l\<rparr>"
    have "room ?c = None" "writeChunkSize ?c \<noteq> 0" using assms by simp_all
    from writeRawMessage_open [OF this, of csidControl "ackMessage seq"]
    obtain bs where "sendAck seq ?c = (Inr (), ?c\<lparr>tx := tx ?c @ bs\<rparr>)"
      unfolding sendAck_def by blast
    then show ?thesis by auto
  qed
  moreover have "(Inr (), c) = (Inr (), c\<lparr>lastAcked := lastAcked c, tx := tx c\<rparr>)" by simp
  ultimately show ?thesis
    unfolding checkAck_def Let_def by metis
qed

end
