(* ===== verification/Rtmp_Reassembly.thy ===== *)
theory Rtmp_Reassembly
  imports Rtmp_Conn
begin

text \<open>
  The chunk layer is correct: what \<open>writeRawMessage\<close> chunks, \<open>readMessage\<close> reassembles; the
  invariant of the connection rules out run-time panics; the segmentation of the network
  stream does not matter; and received bytes are acknowledged within the window.
\<close>

section \<open>Reassembly\<close>

text \<open>
  The state of a chunk stream on which the first \<open>off\<close> bytes of \<open>msg\<close> have arrived in the
  chunks that \<open>writeRawMessage\<close> produces.
\<close>

definition midState :: "rawMessage \<Rightarrow> nat \<Rightarrow> chunkReadState" where
  "midState msg off = \<lparr>timestamp = msgTimestamp msg, timestampDelta = 0,
     messageLength = of_nat (length (msgPayload msg)), messageTypeID = typeID msg,
     messageStreamID = streamID msg, hasExtended = (msgTimestamp msg \<ge> chunkTimestampMax),
     payload = take off (msgPayload msg), payloadCap = length (msgPayload msg),
     remaining = of_nat (length (msgPayload msg) - off)\<rparr>"

definition messageOk :: "rawMessage \<Rightarrow> bool" where
  "messageOk msg \<longleftrightarrow> length (msgPayload msg) < 2 ^ 24"

lemma messageOk_unat [simp]:
  "messageOk msg \<Longrightarrow> unat (of_nat (length (msgPayload msg) - off) :: u32) = length (msgPayload msg) - off"
  by (simp add: messageOk_def unat_of_nat take_bit_nat_eq_self)

lemma messageOk_len [simp]:
  "messageOk msg \<Longrightarrow> unat (of_nat (length (msgPayload msg)) :: u32) = length (msgPayload msg)"
  using messageOk_unat [of msg 0] by simp

lemma u24_bound: "unat (Uint24 a b c) < 2 ^ 24"
proof -
  have "Uint24 a b c = take_bit 24 (Uint24 a b c)"
    by (rule bit_word_eqI) (auto simp: Uint24_def bit_simps dest: bit_imp_le_length)
  then have "unat (Uint24 a b c) = take_bit 24 (unat (Uint24 a b c))"
    by (metis unsigned_take_bit_eq)
  then show ?thesis by (metis take_bit_nat_less_exp)
qed

lemma header0_read:
  assumes ok: "messageOk msg"
    and b: "bufioContents b = drop (length (chunkBasicHeader_encode \<lparr>fmt = 0, chunkStreamID = csid\<rparr>))
              (firstHeader csid msg (of_nat (length (msgPayload msg)))) @ r"
  shows "\<exists>b'. chunkHeader 0 st b = (Inr (), midState msg 0, b') \<and> bufioContents b' = r"
proof -
  let ?ts = "msgTimestamp msg"
  let ?len = "of_nat (length (msgPayload msg)) :: u32"
  let ?ext = "?ts \<ge> chunkTimestampMax"
  let ?t3 = "if ?ext then [0xFF, 0xFF, 0xFF] else PutUint24 ?ts"
  let ?hdr = "?t3 @ PutUint24 ?len @ [typeID msg] @ PutUint32LE (streamID msg)"
  have "bufioContents b = ?hdr @ (if ?ext then encodeExtendedTimestamp ?ts else []) @ r"
    using b by (simp add: firstHeader_def)
  moreover have "length ?hdr = 11" by simp
  ultimately obtain b1 where
    rd: "bufioReadFull 11 b = (Inr ?hdr, b1)"
    and b1: "bufioContents b1 = (if ?ext then encodeExtendedTimestamp ?ts else []) @ r"
    using bufio_rd.read_exact [of b ?hdr _ 11] by (metis append.assoc)
  have len: "Uint24 (?hdr ! 3) (?hdr ! 4) (?hdr ! 5) = ?len"
    using ok by (auto simp: PutUint24_def PutUint32LE_def Uint24_Put intro!: take_bit_24_id)
      (auto simp: messageOk_def unat_of_nat take_bit_nat_eq_self)
  have sid: "Uint32LE (?hdr ! 7) (?hdr ! 8) (?hdr ! 9) (?hdr ! 10) = streamID msg"
    by (simp add: PutUint24_def PutUint32LE_def)
  have ty: "?hdr ! 6 = typeID msg"
    by (simp add: PutUint24_def PutUint32LE_def)
  have big: "\<not> ?len > maxMessageSize"
    using ok by (simp add: messageOk_def maxMessageSize_def word_less_nat_alt unat_of_nat
        take_bit_nat_eq_self)
  show ?thesis
  proof (cases ?ext)
    case True
    then have ts: "Uint24 (?hdr ! 0) (?hdr ! 1) (?hdr ! 2) = chunkTimestampMax"
      by (simp add: Uint24_def chunkTimestampMax_def)
    from True b1 bufio_rd.extended_timestamp_decode_encode [of b1 ?ts r] obtain b2 where
      "decodeExtendedTimestamp bufioReadFull b1 = (Inr ?ts, b2)" "bufioContents b2 = r" by auto
    with True big show ?thesis
      unfolding chunkHeader_def chunkHeader0_def rd Let_def prod.case sum.case len sid ty ts
      using ok by (simp add: startSized_def startMessage_def midState_def)
  next
    case False
    then have "unat ?ts < 2 ^ 24"
      by (simp add: chunkTimestampMax_def word_le_nat_alt)
    then have ts: "Uint24 (?hdr ! 0) (?hdr ! 1) (?hdr ! 2) = ?ts"
      using False by (simp add: PutUint24_def Uint24_Put take_bit_24_id)
    with False b1 big show ?thesis
      unfolding chunkHeader_def chunkHeader0_def rd Let_def prod.case sum.case len sid ty ts
      using ok by (auto simp: startSized_def startMessage_def midState_def)
  qed
qed

lemma header3_read:
  assumes ok: "messageOk msg" and off: "off < length (msgPayload msg)"
    and b: "bufioContents b = drop (length (chunkBasicHeader_encode \<lparr>fmt = 3, chunkStreamID = csid\<rparr>))
              (nextHeader csid msg) @ r"
  shows "\<exists>b'. chunkHeader 3 (midState msg off) b = (Inr (), midState msg off, b')
    \<and> bufioContents b' = r"
proof -
  have "unat (remaining (midState msg off)) \<noteq> 0"
    using ok off by (simp add: midState_def del: of_nat_diff)
  then have "continueMessage (midState msg off) = midState msg off"
    by (auto simp: continueMessage_def)
  then show ?thesis
    using b bufio_rd.extended_timestamp_decode_encode [of b "msgTimestamp msg" r]
    by (auto simp: chunkHeader_def chunkHeader3_def nextHeader_def midState_def)
qed

lemma payload_read:
  fixes n :: u32
  assumes ok: "messageOk msg" and off: "off \<le> length (msgPayload msg)"
    and n: "m = min (unat n) (length (msgPayload msg) - off)"
    and b: "bufioContents b = take m (drop off (msgPayload msg)) @ r"
  shows "\<exists>b'. chunkPayload n (midState msg off) b = (Inr (), midState msg (off + m), b')
    \<and> bufioContents b' = r"
proof -
  let ?st = "midState msg off"
  let ?toRead = "min (remaining ?st) n"
  have rem: "unat (remaining ?st) = length (msgPayload msg) - off"
    using ok by (simp add: midState_def)
  have to: "unat ?toRead = m"
    using rem n by (auto simp: min_def word_le_nat_alt)
  have st: "?st\<lparr>payload := payload ?st @ take m (drop off (msgPayload msg)),
      remaining := remaining ?st - ?toRead\<rparr> = midState msg (off + m)"
  proof -
    have "unat (remaining ?st - ?toRead) = unat (of_nat (length (msgPayload msg) - (off + m)) :: u32)"
      using rem to n ok by (simp add: unat_sub word_le_nat_alt del: of_nat_diff)
    then have "remaining ?st - ?toRead = of_nat (length (msgPayload msg) - (off + m))"
      by (simp only: word_unat_eq_iff)
    then show ?thesis by (simp add: midState_def take_add del: of_nat_diff)
  qed
  show ?thesis
  proof (cases "m = 0")
    case True
    then have "\<not> ?toRead > 0" using to by (simp add: word_less_nat_alt)
    from True b show ?thesis
      unfolding chunkPayload_def Let_def if_not_P [OF \<open>\<not> ?toRead > 0\<close>] by simp
  next
    case False
    then have pos: "?toRead > 0" using to by (simp add: word_less_nat_alt)
    have fits: "\<not> length (payload ?st) + unat ?toRead > payloadCap ?st"
      using to n off by (simp add: midState_def)
    from bufio_rd.read_exact [OF b, of m] n off obtain b' where
      "bufioReadFull m b = (Inr (take m (drop off (msgPayload msg))), b')" "bufioContents b' = r"
      by auto
    with pos fits st to show ?thesis unfolding chunkPayload_def Let_def by simp
  qed
qed


text \<open>
  One chunk of \<open>msg\<close> on \<open>csid\<close>: the pass of the loop returns the message when the chunk
  completes it. Only the reader, this chunk stream's state and the acknowledgements change.
\<close>

definition streamState :: "conn \<Rightarrow> u32 \<Rightarrow> chunkReadState" where
  "streamState c csid = (case readStates c csid of None \<Rightarrow> newReadState | Some st \<Rightarrow> st)"

lemma readChunk_run:
  assumes room: "room c = None" and wcs: "writeChunkSize c \<noteq> 0"
    and bh: "chunkBasicHeader_decode bufioReadFull (br c) = (Inr \<lparr>fmt = f, chunkStreamID = csid\<rparr>, b1)"
    and hd: "chunkHeader f (streamState c csid) b1 = (Inr (), st2, b2)"
    and pl: "chunkPayload (readChunkSize c) st2 b2 = (Inr (), st3, b3)"
  shows "\<exists>c' l t. readChunk c =
      (Inr (if remaining st3 = 0
            then Some \<lparr>typeID = messageTypeID st3, streamID = messageStreamID st3,
                       msgTimestamp = timestamp st3, msgPayload = payload st3\<rparr> else None), c')
    \<and> c' = c\<lparr>br := b3, readStates := (readStates c)(csid \<mapsto>
              (if remaining st3 = 0 then st3\<lparr>payload := [], payloadCap := 0\<rparr> else st3)),
            lastAcked := l, tx := t\<rparr>"
proof -
  let ?c = "c\<lparr>br := b3, readStates := (readStates c)(csid \<mapsto> st3)\<rparr>"
  from checkAck_open [of ?c] room wcs obtain l t where
    "checkAck ?c = (Inr (), ?c\<lparr>lastAcked := l, tx := t\<rparr>)" by auto
  then have "readChunk c = (if remaining st3 = 0
      then (Inr (Some \<lparr>typeID = messageTypeID st3, streamID = messageStreamID st3,
               msgTimestamp = timestamp st3, msgPayload = payload st3\<rparr>),
            c\<lparr>br := b3, readStates := (readStates c)(csid \<mapsto> st3\<lparr>payload := [], payloadCap := 0\<rparr>),
              lastAcked := l, tx := t\<rparr>)
      else (Inr None, ?c\<lparr>lastAcked := l, tx := t\<rparr>))"
    using bh hd pl by (cases c) (simp add: readChunk_def streamState_def Let_def)
  then show ?thesis by (cases "remaining st3 = 0") auto
qed


text \<open>What reading leaves alone: the settings of the connection and the other chunk streams.\<close>

definition sameSettings :: "u32 \<Rightarrow> conn \<Rightarrow> conn \<Rightarrow> bool" where
  "sameSettings csid c c' \<longleftrightarrow> room c' = room c \<and> writeChunkSize c' = writeChunkSize c
     \<and> readChunkSize c' = readChunkSize c \<and> windowAckSize c' = windowAckSize c
     \<and> peerAckedBytes c' = peerAckedBytes c \<and> nextStreamID c' = nextStreamID c
     \<and> (\<forall>k. k \<noteq> csid \<longrightarrow> readStates c' k = readStates c k)"

lemma sameSettings_refl [simp]: "sameSettings csid c c"
  by (simp add: sameSettings_def)

lemma sameSettings_trans: "sameSettings csid a b \<Longrightarrow> sameSettings csid b c \<Longrightarrow> sameSettings csid a c"
  by (simp add: sameSettings_def)

definition csidOk :: "u32 \<Rightarrow> bool" where
  "csidOk csid \<longleftrightarrow> 2 \<le> unat csid \<and> unat csid \<le> 65599"

lemma firstHeader_split:
  "firstHeader csid msg n = chunkBasicHeader_encode \<lparr>fmt = 0, chunkStreamID = csid\<rparr>
     @ drop (length (chunkBasicHeader_encode \<lparr>fmt = 0, chunkStreamID = csid\<rparr>)) (firstHeader csid msg n)"
  by (simp add: firstHeader_def)

lemma nextHeader_split:
  "nextHeader csid msg = chunkBasicHeader_encode \<lparr>fmt = 3, chunkStreamID = csid\<rparr>
     @ drop (length (chunkBasicHeader_encode \<lparr>fmt = 3, chunkStreamID = csid\<rparr>)) (nextHeader csid msg)"
  by (simp add: nextHeader_def)

lemma chunk_header_read:
  assumes ok: "messageOk msg" and cs: "csidOk csid"
    and b: "bufioContents b = (if first then firstHeader csid msg (of_nat (length (msgPayload msg)))
               else nextHeader csid msg) @ r"
    and pos: "if first then off = 0 else off < length (msgPayload msg) \<and> st = midState msg off"
  shows "\<exists>f b1 b2. chunkBasicHeader_decode bufioReadFull b = (Inr \<lparr>fmt = f, chunkStreamID = csid\<rparr>, b1)
    \<and> chunkHeader f st b1 = (Inr (), midState msg off, b2) \<and> bufioContents b2 = r"
proof -
  let ?f = "if first then 0 else 3 :: byte"
  let ?h = "\<lparr>fmt = ?f, chunkStreamID = csid\<rparr>"
  let ?hd = "if first then firstHeader csid msg (of_nat (length (msgPayload msg)))
               else nextHeader csid msg"
  let ?r = "drop (length (chunkBasicHeader_encode ?h)) ?hd @ r"
  have "bufioContents b = chunkBasicHeader_encode ?h @ ?r"
    using b by (cases first)
      (simp_all add: firstHeader_def nextHeader_def)
  moreover have "basicHeaderOk ?h" using cs by (simp add: basicHeaderOk_def csidOk_def)
  ultimately obtain b1 where
    bh: "chunkBasicHeader_decode bufioReadFull b = (Inr ?h, b1)" and b1: "bufioContents b1 = ?r"
    using bufio_rd.basic_header_decode_encode by blast
  have "\<exists>b2. chunkHeader ?f st b1 = (Inr (), midState msg off, b2) \<and> bufioContents b2 = r"
  proof (cases first)
    case True
    with header0_read [OF ok, of b1 csid r st] b1 pos show ?thesis by simp
  next
    case False
    with header3_read [OF ok, of off b1 csid r] b1 pos show ?thesis by simp
  qed
  with bh show ?thesis by blast
qed

lemma readChunk_msg:
  assumes room: "room c = None" and wcs: "writeChunkSize c \<noteq> 0"
    and ok: "messageOk msg" and cs: "csidOk csid"
    and pos: "if first then off = 0
              else off < length (msgPayload msg) \<and> readStates c csid = Some (midState msg off)"
    and m: "m = min (unat (readChunkSize c)) (length (msgPayload msg) - off)"
    and b: "connContents c = (if first then firstHeader csid msg (of_nat (length (msgPayload msg)))
               else nextHeader csid msg) @ take m (drop off (msgPayload msg)) @ r"
  shows "\<exists>c'. readChunk c = (Inr (if off + m = length (msgPayload msg) then Some msg else None), c')
    \<and> connContents c' = r \<and> sameSettings csid c c'
    \<and> (off + m \<noteq> length (msgPayload msg) \<longrightarrow> readStates c' csid = Some (midState msg (off + m)))"
proof -
  have off: "off \<le> length (msgPayload msg)" using pos by (auto split: if_splits)
  from pos have pos': "if first then off = 0
      else off < length (msgPayload msg) \<and> streamState c csid = midState msg off"
    by (simp add: streamState_def split: if_splits)
  from chunk_header_read [OF ok cs b [unfolded connContents_def] pos'] obtain f b1 b2 where
    h: "chunkBasicHeader_decode bufioReadFull (br c) = (Inr \<lparr>fmt = f, chunkStreamID = csid\<rparr>, b1)"
      "chunkHeader f (streamState c csid) b1 = (Inr (), midState msg off, b2)"
    and b2: "bufioContents b2 = take m (drop off (msgPayload msg)) @ r" by blast
  from payload_read [OF ok off m b2] obtain b3 where
    p: "chunkPayload (readChunkSize c) (midState msg off) b2 = (Inr (), midState msg (off + m), b3)"
    and b3: "bufioContents b3 = r" by blast
  have "unat (remaining (midState msg (off + m))) = length (msgPayload msg) - (off + m)"
    using ok by (simp add: midState_def del: of_nat_diff)
  then have rem: "remaining (midState msg (off + m)) = 0 \<longleftrightarrow> off + m = length (msgPayload msg)"
    using m off by (auto simp: word_unat_eq_iff)
  have msg: "\<lparr>typeID = messageTypeID (midState msg k), streamID = messageStreamID (midState msg k),
      msgTimestamp = timestamp (midState msg k), msgPayload = payload (midState msg k)\<rparr> = msg"
    if "k = length (msgPayload msg)" for k
    using that by (simp add: midState_def)
  from readChunk_run [OF room wcs h p] show ?thesis
    unfolding rem using msg b3 by (fastforce simp: connContents_def sameSettings_def)
qed

text \<open>The chunks \<open>writeRawMessage\<close> makes of a message are read back as that message.\<close>

lemma readMessage_chunks:
  assumes "writeChunks csid msg len n off first = Inr bs"
    and "len = of_nat (length (msgPayload msg))" and "n = unat (readChunkSize c)"
    and "0 < n" and "room c = None" and "writeChunkSize c \<noteq> 0" and "messageOk msg" and "csidOk csid"
    and "if first then off = 0
         else off < length (msgPayload msg) \<and> readStates c csid = Some (midState msg off)"
    and "connContents c = bs @ r"
  shows "\<exists>c'. readMessage c = (Inr msg, c') \<and> connContents c' = r \<and> sameSettings csid c c'"
  using assms
proof (induction csid msg len n off first arbitrary: bs c rule: writeChunks.induct)
  case (1 csid msg len n off first)
  note a = "1.prems"
  define L where "L = length (msgPayload msg)"
  define m where "m = min n (L - off)"
  let ?hd = "if first then firstHeader csid msg len else nextHeader csid msg"
  let ?bs = "?hd @ take m (drop off (msgPayload msg))"
  have len: "unat len = L" using a(2,7) by (simp add: L_def)
  have off: "off \<le> L" using a(9) by (auto simp: L_def split: if_splits)
  have m': "m = min (unat (readChunkSize c)) (length (msgPayload msg) - off)"
    using a(3) by (simp add: m_def L_def)
  have w: "(if L \<le> off + m then Inr ?bs else if m = 0 then Inl Diverges
     else bindE (writeChunks csid msg len n (off + m) False) (\<lambda>r. Inr (?bs @ r))) = Inr bs"
    using a(1) unfolding writeChunks.simps [of csid msg len n off first] Let_def len m_def .
  note chunk = readChunk_msg [OF a(5,6,7,8,9) m', folded a(2), folded L_def]
  show ?case
  proof (cases "off + m = L")
    case True
    with w a(10) have "connContents c = ?bs @ r" by simp
    then show ?thesis
      using chunk [of r] True by (auto simp: readMessage.simps [of c])
  next
    case False
    then have lt: "off + m < L" and m0: "m \<noteq> 0"
      using off a(4) by (auto simp: m_def)
    then obtain bs' where bs': "writeChunks csid msg len n (off + m) False = Inr bs'"
      and bs: "bs = ?bs @ bs'" using w by (auto simp: bindE_Inr_iff)
    then have "connContents c = ?bs @ bs' @ r" using a(10) by simp
    then obtain c1 where c1: "readChunk c = (Inr None, c1)" "connContents c1 = bs' @ r"
      "sameSettings csid c c1" "readStates c1 csid = Some (midState msg (off + m))"
      using chunk [of "bs' @ r"] False by auto
    have set: "n = unat (readChunkSize c1)" "room c1 = None" "writeChunkSize c1 \<noteq> 0"
      using c1(3) a by (simp_all add: sameSettings_def)
    have "\<exists>c'. readMessage c1 = (Inr msg, c') \<and> connContents c' = r \<and> sameSettings csid c1 c'"
      by (rule "1.IH" [OF refl refl refl refl, folded len m_def,
            of _ _ ]) (use bs' c1 set a lt m0 in \<open>auto simp: L_def len m_def\<close>)
    then show ?thesis
      using c1 sameSettings_trans by (auto simp: readMessage.simps [of c])
  qed
qed


text \<open>Sending messages one after another, and receiving a number of them.\<close>

fun writeAll :: "(u32 \<times> rawMessage) list \<Rightarrow> conn \<Rightarrow> (rtmp_error + unit) \<times> conn" where
  "writeAll [] c = (Inr (), c)"
| "writeAll ((csid, msg) # ms) c = bindS (writeRawMessage csid msg c) (\<lambda>_ c. writeAll ms c)"

fun readAll :: "nat \<Rightarrow> conn \<Rightarrow> (rtmp_error + rawMessage list) \<times> conn" where
  "readAll 0 c = (Inr [], c)"
| "readAll (Suc k) c =
     bindS (readMessage c) (\<lambda>msg c. bindS (readAll k c) (\<lambda>ms c. (Inr (msg # ms), c)))"

definition sendable :: "u32 \<times> rawMessage \<Rightarrow> bool" where
  "sendable x \<longleftrightarrow> csidOk (fst x) \<and> messageOk (snd x)"

definition readerFor :: "conn \<Rightarrow> conn \<Rightarrow> bool" where
  "readerFor w c \<longleftrightarrow> room c = None \<and> writeChunkSize c \<noteq> 0 \<and> readChunkSize c = writeChunkSize w"

lemma readerFor_tx [simp]: "readerFor (w\<lparr>tx := t\<rparr>) c = readerFor w c"
  by (simp add: readerFor_def)

lemma writeAll_readAll:
  assumes "\<forall>x \<in> set ms. sendable x" and "room w = None" and "writeChunkSize w \<noteq> 0"
  shows "\<exists>bs. writeAll ms w = (Inr (), w\<lparr>tx := tx w @ bs\<rparr>)
     \<and> (\<forall>c r. readerFor w c \<longrightarrow> connContents c = bs @ r \<longrightarrow>
          (\<exists>c'. readAll (length ms) c = (Inr (map snd ms), c') \<and> connContents c' = r
             \<and> readerFor w c'))"
  using assms
proof (induction ms arbitrary: w)
  case Nil
  then show ?case by (intro exI [of _ "[]"]) auto
next
  case (Cons x ms)
  obtain csid msg where x: "x = (csid, msg)" by (cases x)
  from writeRawMessage_open [OF Cons.prems(2,3)] obtain bs1 where
    w1: "writeRawMessage csid msg w = (Inr (), w\<lparr>tx := tx w @ bs1\<rparr>)"
    and ch: "writeChunks csid msg (of_nat (length (msgPayload msg))) (unat (writeChunkSize w)) 0 True
       = Inr bs1" by blast
  from Cons.IH [of "w\<lparr>tx := tx w @ bs1\<rparr>"] Cons.prems obtain bs2 where
    w2: "writeAll ms (w\<lparr>tx := tx w @ bs1\<rparr>) = (Inr (), w\<lparr>tx := tx w @ bs1 @ bs2\<rparr>)"
    and rd: "\<And>c r. readerFor w c \<Longrightarrow> connContents c = bs2 @ r \<Longrightarrow>
          \<exists>c'. readAll (length ms) c = (Inr (map snd ms), c') \<and> connContents c' = r \<and> readerFor w c'"
    by auto
  have "\<exists>c'. readAll (length (x # ms)) c = (Inr (map snd (x # ms)), c') \<and> connContents c' = r
      \<and> readerFor w c'"
    if c: "readerFor w c" "connContents c = (bs1 @ bs2) @ r" for c r
  proof -
    have "unat (writeChunkSize w) \<noteq> 0" using Cons.prems(3) by (simp add: unat_eq_zero)
    then have "\<exists>c1. readMessage c = (Inr msg, c1) \<and> connContents c1 = bs2 @ r \<and> sameSettings csid c c1"
      using Cons.prems c by (intro readMessage_chunks [OF ch refl])
        (auto simp: readerFor_def sendable_def x)
    then obtain c1 where c1: "readMessage c = (Inr msg, c1)" "connContents c1 = bs2 @ r"
      and "readerFor w c1" using c(1) by (auto simp: readerFor_def sameSettings_def)
    with rd [of c1 r] show ?thesis by (auto simp: x)
  qed
  then show ?case using w1 w2 by (intro exI [of _ "bs1 @ bs2"]) (simp add: x)
qed

section \<open>Invariant\<close>

text \<open>
  A chunk stream in the middle of a message has room for the rest of it, and no message is
  longer than three bytes of length can say.
\<close>

definition stateOk :: "chunkReadState \<Rightarrow> bool" where
  "stateOk st \<longleftrightarrow> unat (messageLength st) < 2 ^ 24
     \<and> (remaining st \<noteq> 0 \<longrightarrow> length (payload st) + unat (remaining st) \<le> payloadCap st)"

definition connOk :: "conn \<Rightarrow> bool" where
  "connOk c \<longleftrightarrow> readChunkSize c \<noteq> 0 \<and> writeChunkSize c \<noteq> 0
     \<and> (\<forall>csid st. readStates c csid = Some st \<longrightarrow> stateOk st)"

text \<open>Errors that a peer or the network can cause; the others are the code's own faults.\<close>

definition peerErr :: "rtmp_error \<Rightarrow> bool" where
  "peerErr e \<longleftrightarrow> (case e of IOErr _ \<Rightarrow> True | ErrInvalidChunkSize _ \<Rightarrow> True | _ \<Rightarrow> False)"

definition benign :: "rtmp_error + 'a \<Rightarrow> bool" where
  "benign r \<longleftrightarrow> (case r of Inr _ \<Rightarrow> True | Inl e \<Rightarrow> peerErr e)"

lemma benign_simps [simp]:
  "benign (Inr a)" "benign (Inl e) = peerErr e"
  "peerErr (IOErr x)" "peerErr (ErrInvalidChunkSize n)"
  "\<not> peerErr SliceBounds" "\<not> peerErr Diverges" "\<not> peerErr (ErrMessageTooLarge n)"
  by (simp_all add: benign_def peerErr_def)

lemma stateOk_start [intro]: "unat (messageLength st) < 2 ^ 24 \<Longrightarrow> stateOk (startMessage st)"
  by (simp add: stateOk_def startMessage_def)

lemma startSized_ok:
  assumes "unat (messageLength st) < 2 ^ 24"
  shows "startSized st b = (Inr (), startMessage st, b)"
  using assms by (simp add: startSized_def maxMessageSize_def word_less_nat_alt)

definition headerResultOk :: "(rtmp_error + unit) \<times> chunkReadState \<times> bufio \<Rightarrow> bool" where
  "headerResultOk x \<longleftrightarrow> benign (fst x) \<and> stateOk (fst (snd x))"

lemma headerResultOk_pair [simp]: "headerResultOk (r, st, b) \<longleftrightarrow> benign r \<and> stateOk st"
  by (simp add: headerResultOk_def)

lemma chunkHeader_ok:
  assumes st: "stateOk st"
  shows "headerResultOk (chunkHeader f st b)"
proof -
  have upd: "stateOk (st\<lparr>messageLength := Uint24 x y z, messageTypeID := t\<rparr>)"
      "stateOk (st\<lparr>messageLength := Uint24 x y z, messageTypeID := t, messageStreamID := s\<rparr>)"
    for x y z t s using st u24_bound [of x y z] by (simp_all add: stateOk_def)
  have "headerResultOk (chunkHeader0 st b)"
    using st upd u24_bound by (auto simp: chunkHeader0_def Let_def startSized_ok stateOk_start
        split: prod.split sum.split)
  moreover have "headerResultOk (chunkHeader1 st b)"
    using st upd u24_bound by (auto simp: chunkHeader1_def Let_def startSized_ok stateOk_start
        split: prod.split sum.split)
  moreover have "headerResultOk (chunkHeader2 st b)" "headerResultOk (chunkHeader3 st b)"
    using st by (auto simp: chunkHeader2_def chunkHeader3_def continueMessage_def Let_def stateOk_def
        startMessage_def split: prod.split sum.split)
  ultimately show ?thesis using st by (simp add: chunkHeader_def)
qed

lemma chunkPayload_ok:
  assumes st: "stateOk st"
  shows "benign (fst (chunkPayload n st b))"
    and "chunkPayload n st b = (Inr (), st', b') \<Longrightarrow> stateOk st'"
proof -
  define k where "k = min (remaining st) n"
  have kr: "unat k \<le> unat (remaining st)" by (simp add: k_def flip: word_le_nat_alt)
  have fits: "length (payload st) + unat k \<le> payloadCap st" if "0 < k"
  proof -
    have "remaining st \<noteq> 0" using that by (auto simp: k_def)
    with st kr show ?thesis by (simp add: stateOk_def)
  qed
  then show "benign (fst (chunkPayload n st b))"
    by (cases "0 < k")
      (auto simp: chunkPayload_def Let_def not_less simp flip: k_def split: prod.split sum.split)
  assume run: "chunkPayload n st b = (Inr (), st', b')"
  show "stateOk st'"
  proof (cases "0 < k")
    case True
    with fits run obtain p where p: "bufioReadFull (unat k) b = (Inr p, b')"
      and st': "st' = st\<lparr>payload := payload st @ p, remaining := remaining st - k\<rparr>"
      by (auto simp: chunkPayload_def Let_def simp flip: k_def split: prod.splits sum.splits)
    have "unat (remaining st - k) = unat (remaining st) - unat k"
      using kr by (simp add: unat_sub word_le_nat_alt)
    moreover have "remaining st \<noteq> 0" using True by (auto simp: k_def)
    ultimately show ?thesis
      using st kr bufio_rd.read_Inr [OF p] by (simp add: stateOk_def st')
  next
    case False
    with run st show ?thesis by (simp add: chunkPayload_def Let_def flip: k_def)
  qed
qed

lemma writeRawMessage_benign:
  assumes "writeChunkSize c \<noteq> 0"
  shows "benign (fst (writeRawMessage csid msg c))"
proof -
  have "0 < unat (writeChunkSize c)" using assms by (simp add: unat_gt_0)
  from writeChunks_total [OF this] obtain bs where
    "writeChunks csid msg (of_nat (length (msgPayload msg))) (unat (writeChunkSize c)) 0 True = Inr bs"
    by blast
  then show ?thesis by (simp add: writeRawMessage_def netWrite_def split: option.split)
qed

lemma netWrite_frame [simp]:
  "readChunkSize (snd (netWrite bs c)) = readChunkSize c"
  "writeChunkSize (snd (netWrite bs c)) = writeChunkSize c"
  "readStates (snd (netWrite bs c)) = readStates c"
  "lastAcked (snd (netWrite bs c)) = lastAcked c"
  "windowAckSize (snd (netWrite bs c)) = windowAckSize c"
  by (simp_all add: netWrite_def split: option.split)

lemma writeRawMessage_frame [simp]:
  "readChunkSize (snd (writeRawMessage csid msg c)) = readChunkSize c"
  "writeChunkSize (snd (writeRawMessage csid msg c)) = writeChunkSize c"
  "readStates (snd (writeRawMessage csid msg c)) = readStates c"
  "lastAcked (snd (writeRawMessage csid msg c)) = lastAcked c"
  "windowAckSize (snd (writeRawMessage csid msg c)) = windowAckSize c"
  by (simp_all add: writeRawMessage_def split: sum.split)

lemma checkAck_frame [simp]:
  "readChunkSize (snd (checkAck c)) = readChunkSize c"
  "writeChunkSize (snd (checkAck c)) = writeChunkSize c"
  "readStates (snd (checkAck c)) = readStates c"
  "windowAckSize (snd (checkAck c)) = windowAckSize c"
  by (simp_all add: checkAck_def sendAck_def Let_def)

lemma checkAck_benign: "writeChunkSize c \<noteq> 0 \<Longrightarrow> benign (fst (checkAck c))"
  by (simp add: checkAck_def sendAck_def Let_def writeRawMessage_benign)

text \<open>After the check less than a window of received bytes is unacknowledged.\<close>

definition withinWindow :: "conn \<Rightarrow> bool" where
  "withinWindow c \<longleftrightarrow>
     (windowAckSize c \<noteq> 0 \<longrightarrow> count (br c) - lastAcked c < ucast (windowAckSize c))"

lemma unat_u32_u64 [simp]: "unat (ucast (w :: u32) :: u64) = unat w"
proof -
  have "unat w < 2 ^ LENGTH(32)" by (rule unsigned_less)
  then have "unat w < 2 ^ 64" by simp
  then show ?thesis by (simp add: unsigned_ucast_eq take_bit_nat_eq_self)
qed

lemma checkAck_within: "withinWindow (snd (checkAck c))"
  by (auto simp: withinWindow_def checkAck_def sendAck_def Let_def not_le word_less_nat_alt unat_gt_0)

text \<open>One pass, as what the header, the payload and the acknowledgement return.\<close>

lemma readChunk_cases:
  obtains (basic) e b where "readChunk c = (Inl (IOErr e), c\<lparr>br := b\<rparr>)"
      "b = snd (chunkBasicHeader_decode bufioReadFull (br c))"
  | (header) csid f b e st b' where
      "chunkHeader f (streamState c csid) b = (Inl e, st, b')"
      "readChunk c = (Inl e, c\<lparr>br := b', readStates := (readStates c)(csid \<mapsto> st)\<rparr>)"
      "b = snd (chunkBasicHeader_decode bufioReadFull (br c))"
  | (body) csid f b st b1 e st' b2 where
      "chunkHeader f (streamState c csid) b = (Inr (), st, b1)"
      "chunkPayload (readChunkSize c) st b1 = (Inl e, st', b2)"
      "readChunk c = (Inl e, c\<lparr>br := b2, readStates := (readStates c)(csid \<mapsto> st')\<rparr>)"
      "b = snd (chunkBasicHeader_decode bufioReadFull (br c))"
  | (ack) csid f b st b1 st' b2 e c' where
      "chunkHeader f (streamState c csid) b = (Inr (), st, b1)"
      "chunkPayload (readChunkSize c) st b1 = (Inr (), st', b2)"
      "checkAck (c\<lparr>br := b2, readStates := (readStates c)(csid \<mapsto> st')\<rparr>) = (Inl e, c')"
      "readChunk c = (Inl e, c')"
      "b = snd (chunkBasicHeader_decode bufioReadFull (br c))"
  | (complete) csid f b st b1 st' b2 c' msg where
      "chunkHeader f (streamState c csid) b = (Inr (), st, b1)"
      "chunkPayload (readChunkSize c) st b1 = (Inr (), st', b2)"
      "checkAck (c\<lparr>br := b2, readStates := (readStates c)(csid \<mapsto> st')\<rparr>) = (Inr (), c')"
      "readChunk c = (Inr msg, c'\<lparr>readStates := (readStates c')(csid \<mapsto>
          (if remaining st' = 0 then st'\<lparr>payload := [], payloadCap := 0\<rparr> else st'))\<rparr>)"
      "b = snd (chunkBasicHeader_decode bufioReadFull (br c))"
proof -
  obtain rb b where bh: "chunkBasicHeader_decode bufioReadFull (br c) = (rb, b)"
    by (cases "chunkBasicHeader_decode bufioReadFull (br c)")
  show thesis
  proof (cases rb)
    case (Inl e)
    with bh show thesis by (intro basic) (simp_all add: readChunk_def)
  next
    case (Inr h)
    let ?csid = "chunkStreamID h"
    let ?c = "\<lambda>b st. c\<lparr>br := b, readStates := (readStates c)(?csid \<mapsto> st)\<rparr>"
    obtain r1 st1 b1 where hd: "chunkHeader (fmt h) (streamState c ?csid) b = (r1, st1, b1)"
      by (metis prod_cases3)
    obtain r2 st2 b2 where pl: "chunkPayload (readChunkSize c) st1 b1 = (r2, st2, b2)"
      by (metis prod_cases3)
    obtain r3 c' where ca: "checkAck (?c b2 st2) = (r3, c')" by (cases "checkAck (?c b2 st2)")
    have "readStates c' = readStates (?c b2 st2)"
      using checkAck_frame(3) [of "?c b2 st2"] by (simp add: ca)
    then have st2: "c'\<lparr>readStates := (readStates c')(?csid \<mapsto> st2)\<rparr> = c'" by simp
    note run = readChunk_def bh Inr Let_def hd [unfolded streamState_def] pl ca
    show thesis
    proof (cases r1)
      case (Inl e)
      with run hd show thesis by (intro header) auto
    next
      case Inr1: (Inr u)
      show thesis
      proof (cases r2)
        case (Inl e)
        with run hd pl Inr1 show thesis by (intro body) auto
      next
        case Inr2: (Inr u)
        show thesis
        proof (cases r3)
          case (Inl e)
          with run hd pl ca Inr1 Inr2 show thesis by (intro ack) auto
        next
          case (Inr u)
          with run hd pl ca Inr1 Inr2 st2 show thesis
            by (cases "remaining st2 = 0") (intro complete, auto)+
        qed
      qed
    qed
  qed
qed


lemma streamState_ok: "connOk c \<Longrightarrow> stateOk (streamState c csid)"
  by (simp add: connOk_def streamState_def newReadState_def stateOk_def split: option.split)

lemma readChunk_ok:
  assumes c: "connOk c"
  shows "benign (fst (readChunk c))"
    and "readChunk c = (Inr m, c') \<Longrightarrow> connOk c' \<and> withinWindow c'"
proof -
  have "benign (fst (readChunk c))
    \<and> (\<forall>m c'. readChunk c = (Inr m, c') \<longrightarrow> connOk c' \<and> withinWindow c')"
  proof (cases rule: readChunk_cases [of c])
    case (basic e b)
    then show ?thesis by simp
  next
    case (header csid f b e st b')
    then show ?thesis
      using chunkHeader_ok [OF streamState_ok [OF c], of f csid b] by simp
  next
    case (body csid f b st b1 e st' b2)
    then show ?thesis
      using chunkHeader_ok [OF streamState_ok [OF c], of f csid b]
        chunkPayload_ok(1) [of st "readChunkSize c" b1] by simp
  next
    case (ack csid f b st b1 st' b2 e c')
    then show ?thesis
      using checkAck_benign [of "c\<lparr>br := b2, readStates := (readStates c)(csid \<mapsto> st')\<rparr>"] c
      by (simp add: connOk_def)
  next
    case (complete csid f b st b1 st' b2 c1 msg)
    let ?c = "c\<lparr>br := b2, readStates := (readStates c)(csid \<mapsto> st')\<rparr>"
    have "stateOk st"
      using chunkHeader_ok [OF streamState_ok [OF c], of f csid b] complete(1) by simp
    from chunkPayload_ok(2) [OF this complete(2)] have "stateOk st'" .
    then have "stateOk (if remaining st' = 0 then st'\<lparr>payload := [], payloadCap := 0\<rparr> else st')"
      by (simp add: stateOk_def)
    moreover have "readStates c1 = (readStates c)(csid \<mapsto> st')" "readChunkSize c1 = readChunkSize c"
      "writeChunkSize c1 = writeChunkSize c" "withinWindow c1"
      using checkAck_frame [of ?c] checkAck_within [of ?c] by (simp_all add: complete(3))
    ultimately show ?thesis
      using c complete(4) by (auto simp: connOk_def withinWindow_def split: if_splits)
  qed
  then show "benign (fst (readChunk c))"
    and "readChunk c = (Inr m, c') \<Longrightarrow> connOk c' \<and> withinWindow c'" by auto
qed

lemma readMessage_ok:
  assumes "connOk c"
  shows "benign (fst (readMessage c))
    \<and> (\<forall>m c'. readMessage c = (Inr m, c') \<longrightarrow> connOk c' \<and> withinWindow c')"
  using assms
proof (induction c rule: readMessage.induct)
  case (1 c)
  obtain r c1 where ch: "readChunk c = (r, c1)" by (cases "readChunk c")
  note ok = readChunk_ok [OF "1.prems", unfolded ch]
  show ?case
  proof (cases r)
    case (Inl e)
    with ok(1) ch show ?thesis by (simp add: readMessage.simps [of c])
  next
    case (Inr m)
    show ?thesis
    proof (cases m)
      case None
      with ch Inr have "readMessage c = readMessage c1" by (simp add: readMessage.simps [of c])
      then show ?thesis
        using "1.IH" [OF ch [symmetric] Inr None] ok(2) [of m c1] Inr by simp
    next
      case (Some msg)
      with ch Inr have "readMessage c = (Inr msg, c1)" by (simp add: readMessage.simps [of c])
      then show ?thesis using ok(2) [of m c1] Inr by simp
    qed
  qed
qed

lemma handleControlMessage_ok:
  assumes c: "connOk c"
  shows "benign (fst (handleControlMessage msg c)) \<and> connOk (snd (handleControlMessage msg c))"
proof -
  have "writeChunkSize c \<noteq> 0" using c by (simp add: connOk_def)
  note ping = writeRawMessage_benign [OF this]
  have "connOk (snd (writeRawMessage csid m c))" for csid m
    using c by (simp add: connOk_def)
  with c ping show ?thesis
    by (auto simp: handleControlMessage_def sendUserControl_def Let_def connOk_def stateOk_def
        word_less_nat_alt split: sum.split option.split)
qed


section \<open>Independence from the segmentation of the input\<close>

text \<open>Two readers with the same bytes to come, however the network cuts them.\<close>

definition bufSim :: "bufio \<Rightarrow> bufio \<Rightarrow> bool" where
  "bufSim a b \<longleftrightarrow> bufioContents a = bufioContents b \<and> bufioEnding a = bufioEnding b"

lemma bufioReadFull_sim:
  assumes "bufSim a b"
  shows "\<exists>r a' b'. bufioReadFull n a = (r, a') \<and> bufioReadFull n b = (r, b') \<and> bufSim a' b'"
proof (cases "n \<le> length (bufioContents a)")
  case True
  then show ?thesis
    using assms bufio_rd.read_enough [of n a] bufio_rd.read_enough [of n b]
    by (auto simp: bufSim_def)
next
  case False
  then show ?thesis
    using assms bufio_rd.read_short [of a n] bufio_rd.read_short [of b n]
    by (auto simp: bufSim_def)
qed

lemma basicHeader_sim:
  assumes "bufSim a b"
  shows "\<exists>r a' b'. chunkBasicHeader_decode bufioReadFull a = (r, a')
    \<and> chunkBasicHeader_decode bufioReadFull b = (r, b') \<and> bufSim a' b'"
proof -
  from bufioReadFull_sim [OF assms, of 1] obtain r a1 b1 where
    1: "bufioReadFull 1 a = (r, a1)" "bufioReadFull 1 b = (r, b1)" and s1: "bufSim a1 b1" by blast
  from bufioReadFull_sim [OF s1, of 1] obtain r2 a2 b2 where
    2: "bufioReadFull 1 a1 = (r2, a2)" "bufioReadFull 1 b1 = (r2, b2)" "bufSim a2 b2" by blast
  from bufioReadFull_sim [OF s1, of 2] obtain r3 a3 b3 where
    3: "bufioReadFull 2 a1 = (r3, a3)" "bufioReadFull 2 b1 = (r3, b3)" "bufSim a3 b3" by blast
  show ?thesis
    using 1 2 3 s1 by (cases r; cases r2; cases r3) (simp_all add: chunkBasicHeader_decode_def Let_def)
qed

lemma extendedTimestamp_sim:
  assumes "bufSim a b"
  shows "\<exists>r a' b'. decodeExtendedTimestamp bufioReadFull a = (r, a')
    \<and> decodeExtendedTimestamp bufioReadFull b = (r, b') \<and> bufSim a' b'"
proof -
  from bufioReadFull_sim [OF assms, of 4] obtain r a1 b1 where
    "bufioReadFull 4 a = (r, a1)" "bufioReadFull 4 b = (r, b1)" "bufSim a1 b1" by blast
  then show ?thesis by (cases r) (simp_all add: decodeExtendedTimestamp_def)
qed

definition chunkSim :: "(rtmp_error + unit) \<times> chunkReadState \<times> bufio
    \<Rightarrow> (rtmp_error + unit) \<times> chunkReadState \<times> bufio \<Rightarrow> bool" where
  "chunkSim x y \<longleftrightarrow> fst x = fst y \<and> fst (snd x) = fst (snd y) \<and> bufSim (snd (snd x)) (snd (snd y))"

lemma chunkSim_simps [simp]:
  "chunkSim (r, st, a) (r, st, b) \<longleftrightarrow> bufSim a b"
  "chunkSim (startSized st a) (startSized st b) \<longleftrightarrow> bufSim a b"
  by (simp_all add: chunkSim_def startSized_def)

lemma chunkHeaders_sim:
  assumes "bufSim a b"
  shows "chunkSim (chunkHeader0 st a) (chunkHeader0 st b)"
    and "chunkSim (chunkHeader1 st a) (chunkHeader1 st b)"
    and "chunkSim (chunkHeader2 st a) (chunkHeader2 st b)"
    and "chunkSim (chunkHeader3 st a) (chunkHeader3 st b)"
proof -
  have two: "\<exists>r a' b'. bufioReadFull n a = (r, a') \<and> bufioReadFull n b = (r, b') \<and> bufSim a' b'
    \<and> (\<exists>r2 a2 b2. decodeExtendedTimestamp bufioReadFull a' = (r2, a2)
         \<and> decodeExtendedTimestamp bufioReadFull b' = (r2, b2) \<and> bufSim a2 b2)" for n
    using bufioReadFull_sim [OF assms, of n] extendedTimestamp_sim by meson
  from two [of 11] show "chunkSim (chunkHeader0 st a) (chunkHeader0 st b)"
    by (auto simp: chunkHeader0_def Let_def split: sum.split)
  from two [of 7] show "chunkSim (chunkHeader1 st a) (chunkHeader1 st b)"
    by (auto simp: chunkHeader1_def Let_def split: sum.split)
  from two [of 3] show "chunkSim (chunkHeader2 st a) (chunkHeader2 st b)"
    by (auto simp: chunkHeader2_def Let_def split: sum.split)
  from extendedTimestamp_sim [OF assms] assms show "chunkSim (chunkHeader3 st a) (chunkHeader3 st b)"
    by (auto simp: chunkHeader3_def split: sum.split)
qed

lemma chunkHeader_sim: "bufSim a b \<Longrightarrow> chunkSim (chunkHeader f st a) (chunkHeader f st b)"
  by (simp add: chunkHeader_def chunkHeaders_sim)

lemma chunkPayload_sim:
  assumes "bufSim a b"
  shows "chunkSim (chunkPayload n st a) (chunkPayload n st b)"
  using bufioReadFull_sim [OF assms, of "unat (min (remaining st) n)"] assms
  by (auto simp: chunkPayload_def Let_def bufSim_def split: sum.split)

definition connSim :: "conn \<Rightarrow> conn \<Rightarrow> bool" where
  "connSim c d \<longleftrightarrow> bufSim (br c) (br d) \<and> readChunkSize c = readChunkSize d
     \<and> readStates c = readStates d \<and> room c = None \<and> room d = None
     \<and> writeChunkSize c \<noteq> 0 \<and> writeChunkSize d \<noteq> 0"

lemma readChunk_sim:
  assumes sim: "connSim c d"
  shows "\<exists>r c' d'. readChunk c = (r, c') \<and> readChunk d = (r, d') \<and> connSim c' d'"
proof -
  from sim obtain rb a b where bh: "chunkBasicHeader_decode bufioReadFull (br c) = (rb, a)"
    "chunkBasicHeader_decode bufioReadFull (br d) = (rb, b)" and s0: "bufSim a b"
    using basicHeader_sim by (meson connSim_def)
  show ?thesis
  proof (cases rb)
    case (Inl e)
    with bh s0 sim show ?thesis by (simp add: readChunk_def connSim_def)
  next
    case (Inr h)
    let ?csid = "chunkStreamID h"
    have st: "streamState d ?csid = streamState c ?csid"
      using sim by (simp add: streamState_def connSim_def)
    obtain r1 st1 a1 b1 where
      hd: "chunkHeader (fmt h) (streamState c ?csid) a = (r1, st1, a1)"
        "chunkHeader (fmt h) (streamState d ?csid) b = (r1, st1, b1)" and s1: "bufSim a1 b1"
      using chunkHeader_sim [OF s0, of "fmt h" "streamState c ?csid"] unfolding st chunkSim_def
      by (metis prod.collapse)
    obtain r2 st2 a2 b2 where
      pl: "chunkPayload (readChunkSize c) st1 a1 = (r2, st2, a2)"
        "chunkPayload (readChunkSize d) st1 b1 = (r2, st2, b2)" and s2: "bufSim a2 b2"
      using chunkPayload_sim [OF s1, of "readChunkSize c" st1] sim unfolding connSim_def chunkSim_def
      by (metis prod.collapse)
    let ?c = "c\<lparr>br := a2, readStates := (readStates c)(?csid \<mapsto> st2)\<rparr>"
    let ?d = "d\<lparr>br := b2, readStates := (readStates d)(?csid \<mapsto> st2)\<rparr>"
    have "room ?c = None" "writeChunkSize ?c \<noteq> 0" "room ?d = None" "writeChunkSize ?d \<noteq> 0"
      using sim by (simp_all add: connSim_def)
    then obtain l t l' t' where
      ca: "checkAck ?c = (Inr (), ?c\<lparr>lastAcked := l, tx := t\<rparr>)"
        "checkAck ?d = (Inr (), ?d\<lparr>lastAcked := l', tx := t'\<rparr>)"
      using checkAck_open by meson
    note run = readChunk_def Let_def bh Inr hd [unfolded streamState_def] pl ca
    show ?thesis
      by (cases r1; cases r2; cases "remaining st2 = 0"; simp add: run;
          use sim s1 s2 in \<open>simp add: connSim_def\<close>)
  qed
qed

lemma readMessage_sim:
  "connSim c d \<Longrightarrow> \<exists>r c' d'. readMessage c = (r, c') \<and> readMessage d = (r, d') \<and> connSim c' d'"
proof (induction c arbitrary: d rule: readMessage.induct)
  case (1 c)
  from readChunk_sim [OF "1.prems"] obtain r c' d' where
    ch: "readChunk c = (r, c')" "readChunk d = (r, d')" and s: "connSim c' d'" by blast
  note run = readMessage.simps [of c] readMessage.simps [of d] ch
  show ?case
  proof (cases r)
    case (Inl e)
    with s show ?thesis by (simp add: run)
  next
    case (Inr m)
    show ?thesis
    proof (cases m)
      case None
      from "1.IH" [OF ch(1) [symmetric] Inr None s] show ?thesis by (simp add: run Inr None)
    next
      case (Some msg)
      with s Inr show ?thesis by (simp add: run)
    qed
  qed
qed


section \<open>The byte counter\<close>

lemma bufioReadFull_total': "bufioReadFull n b = (r, b') \<Longrightarrow> bufTotal b' = bufTotal b"
  using bufioReadFull_total [of n b] by simp

lemma extendedTimestamp_total:
  "decodeExtendedTimestamp bufioReadFull b = (r, b') \<Longrightarrow> bufTotal b' = bufTotal b"
  by (cases "bufioReadFull 4 b"; cases "fst (bufioReadFull 4 b)")
    (auto simp: decodeExtendedTimestamp_def dest: bufioReadFull_total')

lemmas total_dests = bufioReadFull_total' extendedTimestamp_total

lemma chunkHeader_total: "bufTotal (snd (snd (chunkHeader f st b))) = bufTotal b"
proof -
  have "bufTotal (snd (snd (chunkHeader0 st b))) = bufTotal b"
    by (auto simp: chunkHeader0_def Let_def dest!: total_dests split: prod.split sum.split)
  moreover have "bufTotal (snd (snd (chunkHeader1 st b))) = bufTotal b"
    by (auto simp: chunkHeader1_def Let_def dest!: total_dests split: prod.split sum.split)
  moreover have "bufTotal (snd (snd (chunkHeader2 st b))) = bufTotal b"
    by (auto simp: chunkHeader2_def Let_def dest!: total_dests split: prod.split sum.split)
  moreover have "bufTotal (snd (snd (chunkHeader3 st b))) = bufTotal b"
    by (auto simp: chunkHeader3_def dest!: total_dests split: prod.split sum.split)
  ultimately show ?thesis by (simp add: chunkHeader_def)
qed

lemma chunkPayload_total: "bufTotal (snd (snd (chunkPayload n st b))) = bufTotal b"
  by (auto simp: chunkPayload_def Let_def dest!: total_dests split: prod.split sum.split)

lemma basicHeader_total:
  "bufTotal (snd (chunkBasicHeader_decode bufioReadFull b)) = bufTotal b"
  by (auto simp: chunkBasicHeader_decode_def Let_def bindS_def dest!: total_dests
      split: prod.split sum.split)


lemma checkAck_total: "checkAck c = (r, c') \<Longrightarrow> br c' = br c"
  using checkAck_br [of c] by simp

lemma readChunk_total: "bufTotal (br (snd (readChunk c))) = bufTotal (br c)"
proof (cases rule: readChunk_cases [of c])
  case (basic e b)
  then show ?thesis using basicHeader_total [of "br c"] by simp
next
  case (header csid f b e st b')
  then show ?thesis
    using chunkHeader_total [of f "streamState c csid" b] basicHeader_total [of "br c"] by simp
next
  case (body csid f b st b1 e st' b2)
  then show ?thesis
    using chunkHeader_total [of f "streamState c csid" b] basicHeader_total [of "br c"]
      chunkPayload_total [of "readChunkSize c" st b1] by simp
next
  case (ack csid f b st b1 st' b2 e c')
  then show ?thesis
    using chunkHeader_total [of f "streamState c csid" b] basicHeader_total [of "br c"]
      chunkPayload_total [of "readChunkSize c" st b1] by (auto dest!: checkAck_total)
next
  case (complete csid f b st b1 st' b2 c' msg)
  then show ?thesis
    using chunkHeader_total [of f "streamState c csid" b] basicHeader_total [of "br c"]
      chunkPayload_total [of "readChunkSize c" st b1] by (auto dest!: checkAck_total)
qed

lemma readMessage_total: "bufTotal (br (snd (readMessage c))) = bufTotal (br c)"
proof (induction c rule: readMessage.induct)
  case (1 c)
  obtain r c1 where ch: "readChunk c = (r, c1)" by (cases "readChunk c")
  have t: "bufTotal (br c1) = bufTotal (br c)" using readChunk_total [of c] by (simp add: ch)
  show ?case
  proof (cases "r = Inr None")
    case True
    with "1.IH" [OF ch [symmetric]] t ch show ?thesis by (simp add: readMessage.simps [of c])
  next
    case False
    with t ch show ?thesis
      by (cases r; cases "projr r") (simp_all add: readMessage.simps [of c])
  qed
qed

lemma writeChunks_length:
  "writeChunks csid msg len n off first = Inr bs \<Longrightarrow> unat len \<le> length (msgPayload msg) \<Longrightarrow>
     length (if first then firstHeader csid msg len else nextHeader csid msg) + (unat len - off)
       \<le> length bs"
proof (induction csid msg len n off first arbitrary: bs rule: writeChunks.induct)
  case (1 csid msg len n off first)
  define m where "m = min n (unat len - off)"
  let ?hd = "if first then firstHeader csid msg len else nextHeader csid msg"
  let ?bs = "?hd @ take m (drop off (msgPayload msg))"
  have w: "(if unat len \<le> off + m then Inr ?bs else if m = 0 then Inl Diverges
     else bindE (writeChunks csid msg len n (off + m) False) (\<lambda>r. Inr (?bs @ r))) = Inr bs"
    using "1.prems"(1) unfolding writeChunks.simps [of csid msg len n off first] Let_def m_def .
  have mlen: "length (take m (drop off (msgPayload msg))) = m"
    using "1.prems"(2) by (simp add: m_def)
  show ?case
  proof (cases "unat len \<le> off + m")
    case True
    with w mlen show ?thesis by auto
  next
    case False
    with w obtain bs' where bs': "writeChunks csid msg len n (off + m) False = Inr bs'"
      and bs: "bs = ?bs @ bs'" and m0: "m \<noteq> 0" by (auto simp: bindE_Inr_iff split: if_splits)
    have "unat len - (off + m) \<le> length bs'"
      using "1.IH" [OF refl refl refl refl, folded m_def] bs' False m0 "1.prems"(2) by fastforce
    with bs mlen show ?thesis by auto
  qed
qed

section \<open>Properties\<close>

text \<open>
  C2: Messages survive chunking. Any sequence of messages of less than 16 MiB, each on a valid
  chunk stream, is written without error, and a reader whose chunk size agrees with the
  writer's gets exactly these messages back, in order, and nothing of what follows them,
  whatever the reader's earlier chunk streams hold.
\<close>

theorem messages_roundtrip:
  assumes "\<forall>x \<in> set ms. sendable x" and "room w = None" and "writeChunkSize w \<noteq> 0"
  shows "\<exists>bs. writeAll ms w = (Inr (), w\<lparr>tx := tx w @ bs\<rparr>)
     \<and> (\<forall>c r. readerFor w c \<longrightarrow> connContents c = bs @ r \<longrightarrow>
          (\<exists>c'. readAll (length ms) c = (Inr (map snd ms), c') \<and> connContents c' = r))"
  using writeAll_readAll [OF assms] by blast

definition sampleMessage :: rawMessage where
  "sampleMessage = \<lparr>typeID = messageTypeVideo, streamID = 1, msgTimestamp = 0x1000000,
     msgPayload = replicate 300 7\<rparr>"

definition sampleConn :: "bytes list \<Rightarrow> conn" where
  "sampleConn ss = newConn \<lparr>segs = ss, rerr = EOF\<rparr> \<lparr>tx = [], room = None\<rparr>"

lemma sampleConn_simps [simp]:
  "room (sampleConn ss) = None" "writeChunkSize (sampleConn ss) = 128"
  "readChunkSize (sampleConn ss) = 128" "tx (sampleConn ss) = []"
  "readStates (sampleConn ss) = Map.empty" "windowAckSize (sampleConn ss) = 2500000"
  "connContents (sampleConn ss) = concat ss"
  "bufSim (br (sampleConn ss)) (br (sampleConn ss')) \<longleftrightarrow> concat ss = concat ss'"
  by (simp_all add: sampleConn_def newConn_def connContents_def bufioContents_def
      transportContents_def bufSim_def bufioEnding_def)

lemma sampleConn_ok [simp]: "connOk (sampleConn ss)"
  by (simp add: connOk_def)

theorem messages_roundtrip_witness:
  "\<exists>bs. writeAll [(7, sampleMessage)] (sampleConn []) = (Inr (), (sampleConn [])\<lparr>tx := bs\<rparr>)
     \<and> (\<exists>c'. readAll 1 (sampleConn [bs, [1, 2]]) = (Inr [sampleMessage], c')
          \<and> connContents c' = [1, 2])"
proof -
  have "\<forall>x \<in> set [(7, sampleMessage)]. sendable x"
    by (simp add: sendable_def csidOk_def messageOk_def sampleMessage_def)
  from messages_roundtrip [OF this, of "sampleConn []"] obtain bs where
    bs: "writeAll [(7, sampleMessage)] (sampleConn []) = (Inr (), (sampleConn [])\<lparr>tx := bs\<rparr>)"
    and rd: "\<And>c r. readerFor (sampleConn []) c \<Longrightarrow> connContents c = bs @ r \<Longrightarrow>
          \<exists>c'. readAll 1 c = (Inr [sampleMessage], c') \<and> connContents c' = r"
    by auto
  have "readerFor (sampleConn []) (sampleConn [bs, [1, 2]])" by (simp add: readerFor_def)
  from rd [OF this, of "[1, 2]"] bs show ?thesis by auto
qed

text \<open>
  C3: Reading never fails by a fault of the code: on a connection whose chunk states are well
  formed, a message is read or the error is one of the transport's; the payload slice is never
  grown past its capacity, the size check for oversized messages never fires (three bytes
  cannot say more than its limit), and the state is well formed again after every message.
\<close>

theorem readMessage_safe:
  assumes "connOk c"
  shows "benign (fst (readMessage c))
    \<and> (\<forall>m c'. readMessage c = (Inr m, c') \<longrightarrow> connOk c')"
  using readMessage_ok [OF assms] by blast

theorem readMessage_safe_witness:
  "connOk (sampleConn [[2, 0, 0], [0, 0, 0, 1, 8, 0, 0], [0, 0, 42]])
   \<and> benign (fst (readMessage (sampleConn [[2, 0, 0], [0, 0, 0, 1, 8, 0, 0], [0, 0, 42]])))"
  using readMessage_safe [of "sampleConn [[2, 0, 0], [0, 0, 0, 1, 8, 0, 0], [0, 0, 42]]"] by simp

text \<open>
  Control messages keep the connection well formed: whatever a peer sends, the read chunk
  size stays positive (a zero size is refused), an aborted chunk stream is left reusable and
  every failure is an error value.
\<close>

theorem handleControlMessage_safe:
  assumes "connOk c"
  shows "benign (fst (handleControlMessage msg c)) \<and> connOk (snd (handleControlMessage msg c))"
  using handleControlMessage_ok [OF assms] .

text \<open>
  C32: How the network cuts the stream into segments does not matter: two connections with the
  same bytes to come and the same chunk states read the same message or fail with the same
  error, and go on from there alike. (Acknowledgements may go out at different moments, since
  they follow the bytes read ahead.)
\<close>

theorem readMessage_segmentation:
  assumes "connSim c d"
  shows "\<exists>r c' d'. readMessage c = (r, c') \<and> readMessage d = (r, d') \<and> connSim c' d'"
  using readMessage_sim [OF assms] .

theorem readMessage_segmentation_witness:
  "fst (readMessage (sampleConn [[2, 0, 0], [0, 0, 0, 1, 8, 0, 0], [0, 0, 42]]))
   = fst (readMessage (sampleConn [[2], [0, 0, 0, 0, 0, 1, 8, 0, 0, 0, 0], [42]]))"
proof -
  have "connSim (sampleConn [[2, 0, 0], [0, 0, 0, 1, 8, 0, 0], [0, 0, 42]])
     (sampleConn [[2], [0, 0, 0, 0, 0, 1, 8, 0, 0, 0, 0], [42]])"
    by (simp add: connSim_def)
  from readMessage_segmentation [OF this] show ?thesis by auto
qed

text \<open>
  Received bytes are acknowledged in time: the counter is the number of bytes taken from
  the network, and after every message less than a window of them is unacknowledged.
\<close>

theorem readMessage_acknowledges:
  assumes "connOk c" and "readMessage c = (Inr m, c')"
  shows "bufTotal (br c') = bufTotal (br c)
    \<and> (windowAckSize c' \<noteq> 0 \<longrightarrow> count (br c') - lastAcked c' < ucast (windowAckSize c'))"
  using readMessage_ok [OF assms(1)] assms(2) readMessage_total [of c]
  by (simp add: withinWindow_def)

definition ackSample :: conn where
  "ackSample = (sampleConn [[2, 0, 0], [0, 0, 0, 1, 8, 0, 0], [0, 0, 42]])\<lparr>windowAckSize := 10\<rparr>"

lemma ackSample_reads:
  "fst (readMessage ackSample)
     = Inr \<lparr>typeID = 8, streamID = 0, msgTimestamp = 0, msgPayload = [42]\<rparr>"
  by code_simp

text \<open>
  A chunk size change takes both sides along: after the writer announces a new chunk size
  (below two gigabytes, not zero) and adopts it, and the peer reads the announcement and
  handles it, the peer reads every later message of the writer, chunked in the new size.
\<close>

theorem setChunkSize_negotiated:
  assumes w: "room w = None" "writeChunkSize w \<noteq> 0" and n: "n \<noteq> 0" "unat n < 2 ^ 31"
    and ms: "\<forall>x \<in> set ms. sendable x"
  shows "\<exists>w1 bs. sendSetChunkSize n w = (Inr (), w1)
    \<and> writeAll ms (w1\<lparr>writeChunkSize := n\<rparr>) = (Inr (), w1\<lparr>writeChunkSize := n, tx := tx w @ bs\<rparr>)
    \<and> (\<forall>c r. readerFor w c \<longrightarrow> connContents c = bs @ r \<longrightarrow>
         (\<exists>m c1 c2 c3. readMessage c = (Inr m, c1) \<and> isControlMessage (typeID m)
            \<and> handleControlMessage m c1 = (Inr (), c2) \<and> readChunkSize c2 = n
            \<and> readAll (length ms) c2 = (Inr (map snd ms), c3) \<and> connContents c3 = r))"
proof -
  let ?m = "\<lparr>typeID = messageTypeSetChunkSize, streamID = 0, msgTimestamp = 0,
      msgPayload = messageSetChunkSize_encode \<lparr>ChunkSize = n\<rparr>\<rparr>"
  have "sendable (csidControl, ?m)" by (simp add: sendable_def csidOk_def messageOk_def)
  then obtain bs1 where
    w1: "sendSetChunkSize n w = (Inr (), w\<lparr>tx := tx w @ bs1\<rparr>)"
    and rd1: "\<And>c r. readerFor w c \<Longrightarrow> connContents c = bs1 @ r \<Longrightarrow>
      \<exists>c'. readMessage c = (Inr ?m, c') \<and> connContents c' = r \<and> readerFor w c'"
    using writeAll_readAll [of "[(csidControl, ?m)]" w] w
    by (fastforce simp: sendSetChunkSize_def bindS_Inr_iff)
  let ?w = "w\<lparr>tx := tx w @ bs1, writeChunkSize := n\<rparr>"
  have "room ?w = None" "writeChunkSize ?w \<noteq> 0" using w n by simp_all
  from writeAll_readAll [OF ms this] obtain bs2 where
    w2: "writeAll ms ?w = (Inr (), ?w\<lparr>tx := tx ?w @ bs2\<rparr>)"
    and rd2: "\<And>c r. readerFor ?w c \<Longrightarrow> connContents c = bs2 @ r \<Longrightarrow>
      \<exists>c'. readAll (length ms) c = (Inr (map snd ms), c') \<and> connContents c' = r"
    by blast
  have "take_bit 31 n = n"
    using n(2) by (intro word_unat_eq_iff [THEN iffD2])
      (simp only: unsigned_take_bit_eq take_bit_nat_eq_self)
  moreover have "(0x7FFFFFFF :: u32) = mask 31" by (simp add: mask_eq_exp_minus_1)
  ultimately have n31: "n AND 0x7FFFFFFF = n" by (simp add: take_bit_eq_mask)
  have hc: "handleControlMessage ?m c1 = (Inr (), c1\<lparr>readChunkSize := n\<rparr>)" for c1
    using n bytes_rd.control_decode_encode(1) [of "messageSetChunkSize_encode \<lparr>ChunkSize = n\<rparr>"
        "\<lparr>ChunkSize = n\<rparr>" "[]"]
    by (auto simp: handleControlMessage_def n31 word_less_nat_alt unat_eq_zero)
  have "\<exists>m c1 c2 c3. readMessage c = (Inr m, c1) \<and> isControlMessage (typeID m)
      \<and> handleControlMessage m c1 = (Inr (), c2) \<and> readChunkSize c2 = n
      \<and> readAll (length ms) c2 = (Inr (map snd ms), c3) \<and> connContents c3 = r"
    if c: "readerFor w c" "connContents c = (bs1 @ bs2) @ r" for c r
  proof -
    from rd1 [of c "bs2 @ r"] c obtain c1 where c1: "readMessage c = (Inr ?m, c1)"
      "connContents c1 = bs2 @ r" "readerFor w c1" by auto
    let ?c2 = "c1\<lparr>readChunkSize := n\<rparr>"
    have "readerFor ?w ?c2" "connContents ?c2 = bs2 @ r"
      using c1 by (simp_all add: readerFor_def connContents_def)
    from rd2 [OF this] c1 hc show ?thesis by (fastforce simp: isControlMessage_def)
  qed
  with w1 w2 show ?thesis
    by (intro exI [of _ "w\<lparr>tx := tx w @ bs1\<rparr>"] exI [of _ "bs1 @ bs2"]) auto
qed

text \<open>
  A message of exactly 16 MiB is not refused when it is written, and its length does not
  fit the three bytes of the header: the reader takes it for an empty message and goes on
  reading in the middle of its payload.
\<close>

theorem oversized_message_desynchronises:
  assumes len: "length (msgPayload msg) = 2 ^ 24" and w: "room w = None" "writeChunkSize w \<noteq> 0"
    and cs: "csidOk csid"
  shows "\<exists>bs. writeRawMessage csid msg w = (Inr (), w\<lparr>tx := tx w @ bs\<rparr>)
    \<and> (\<forall>c r. readerFor w c \<longrightarrow> connContents c = bs @ r \<longrightarrow>
         (\<exists>c'. readMessage c = (Inr (msg\<lparr>msgPayload := []\<rparr>), c')
            \<and> 2 ^ 24 \<le> length (connContents c')))"
proof -
  let ?n = "unat (writeChunkSize w)"
  let ?e = "msg\<lparr>msgPayload := []\<rparr>"
  let ?len = "of_nat (length (msgPayload msg)) :: u32"
  from writeRawMessage_open [OF w] obtain bs where
    w1: "writeRawMessage csid msg w = (Inr (), w\<lparr>tx := tx w @ bs\<rparr>)"
    and ch: "writeChunks csid msg ?len ?n 0 True = Inr bs" by blast
  have hd: "firstHeader csid msg ?len = firstHeader csid ?e 0"
    using len by (simp add: firstHeader_def PutUint24_def)
  from ch obtain rest where bs: "bs = firstHeader csid ?e 0 @ rest"
    by (subst (asm) writeChunks.simps) (auto simp: Let_def hd bindE_Inr_iff split: if_splits)
  have e: "writeChunks csid ?e (of_nat (length (msgPayload ?e))) ?n 0 True = Inr (firstHeader csid ?e 0)"
    by (simp add: writeChunks.simps [of csid ?e] Let_def)
  have "length (firstHeader csid msg ?len) + 2 ^ 24 \<le> length bs"
    using writeChunks_length [OF ch] len by simp
  then have big: "2 ^ 24 \<le> length rest" using bs hd by simp
  have "\<exists>c'. readMessage c = (Inr ?e, c') \<and> 2 ^ 24 \<le> length (connContents c')"
    if c: "readerFor w c" "connContents c = bs @ r" for c r
  proof -
    have "\<exists>c'. readMessage c = (Inr ?e, c') \<and> connContents c' = rest @ r \<and> sameSettings csid c c'"
      using w c cs bs by (intro readMessage_chunks [OF e refl])
        (auto simp: readerFor_def messageOk_def unat_gt_0)
    with big show ?thesis by auto
  qed
  with w1 show ?thesis by blast
qed

end
