(* ===== verification/Float64.thy ===== *)
theory Float64
  imports Prelude
begin

text \<open>
  The IEEE 754 double precision numbers of Go's \<open>float64\<close>, as the 64 bits
  \<^verbatim>\<open>math.Float64bits\<close> reads. The sources convert integers to \<open>float64\<close> (RTMP carries every
  number as one), convert back by truncation, and compare for equality; these are the
  conversions of the Go language specification.
\<close>

type_synonym f64 = "64 word"

section \<open>Integers to float64\<close>

fun ilog2 :: "nat \<Rightarrow> nat" where
  "ilog2 n = (if n < 2 then 0 else Suc (ilog2 (n div 2)))"

declare ilog2.simps [simp del]

lemma ilog2_bounds: "0 < n \<Longrightarrow> 2 ^ ilog2 n \<le> n \<and> n < 2 * 2 ^ ilog2 n"
proof (induction n rule: ilog2.induct)
  case (1 n)
  show ?case
  proof (cases "n < 2")
    case True
    with "1.prems" show ?thesis by (simp add: ilog2.simps [of n])
  next
    case False
    with "1.IH" have "2 ^ ilog2 (n div 2) \<le> n div 2 \<and> n div 2 < 2 * 2 ^ ilog2 (n div 2)"
      by simp
    with False show ?thesis by (simp add: ilog2.simps [of n]) linarith
  qed
qed

lemma ilog2_less:
  assumes "0 < n" and "n < 2 ^ k"
  shows "ilog2 n < k"
proof -
  from ilog2_bounds [OF assms(1)] assms(2) have "(2::nat) ^ ilog2 n < 2 ^ k"
    by (blast intro: le_less_trans)
  then show ?thesis by simp
qed

text \<open>Division by a power of two, rounded to nearest with ties to even.\<close>

definition round_shift :: "nat \<Rightarrow> nat \<Rightarrow> nat" where
  "round_shift m k =
     (let q = m div 2 ^ k; r = m mod 2 ^ k
      in if 2 * r > 2 ^ k \<or> (2 * r = 2 ^ k \<and> odd q) then q + 1 else q)"

text \<open>
  The bits of the nearest \<open>float64\<close>: the exponent field is \<open>e + 1023\<close> and the mantissa,
  with its leading one, \<open>m\<close> scaled to 53 bits. A mantissa rounded up to \<open>2 ^ 53\<close> carries into
  the exponent by itself.
\<close>

definition f64_of_nat :: "nat \<Rightarrow> nat" where
  "f64_of_nat m =
     (if m = 0 then 0
      else let e = ilog2 m;
               mant = (if e \<le> 52 then m * 2 ^ (52 - e) else round_shift m (e - 52))
           in (e + 1023) * 2 ^ 52 + (mant - 2 ^ 52))"

definition f64_of_int :: "int \<Rightarrow> f64" where
  "f64_of_int x = of_nat ((if x < 0 then 2 ^ 63 else 0) + f64_of_nat (nat \<bar>x\<bar>))"

text \<open>
  \<open>float64\<close> numbers as scaled naturals: \<open>fround n\<close> is \<open>n\<close> rounded to 53 significant bits, which is
  the value of \<^verbatim>\<open>float64(n)\<close> and, up to a power of two, of any product.
\<close>

definition fround :: "nat \<Rightarrow> nat" where
  "fround n = (if ilog2 n \<le> 52 then n else round_shift n (ilog2 n - 52) * 2 ^ (ilog2 n - 52))"

section \<open>Reading a float64\<close>

definition f64_sign :: "f64 \<Rightarrow> bool" where
  "f64_sign f \<longleftrightarrow> 2 ^ 63 \<le> unat f"

definition f64_exp :: "f64 \<Rightarrow> nat" where
  "f64_exp f = unat f div 2 ^ 52 mod 2048"

definition f64_frac :: "f64 \<Rightarrow> nat" where
  "f64_frac f = unat f mod 2 ^ 52"

definition f64_isNaN :: "f64 \<Rightarrow> bool" where
  "f64_isNaN f \<longleftrightarrow> f64_exp f = 2047 \<and> f64_frac f \<noteq> 0"

definition f64_isInf :: "f64 \<Rightarrow> bool" where
  "f64_isInf f \<longleftrightarrow> f64_exp f = 2047 \<and> f64_frac f = 0"

text \<open>The value truncated towards zero, \<open>None\<close> for an infinity or a NaN.\<close>

definition f64_trunc :: "f64 \<Rightarrow> int option" where
  "f64_trunc f =
     (if f64_exp f = 2047 then None
      else let m = (if f64_exp f = 0 then f64_frac f else 2 ^ 52 + f64_frac f);
               t = (if f64_exp f \<ge> 1075 then m * 2 ^ (f64_exp f - 1075)
                    else m div 2 ^ (1075 - max 1 (f64_exp f)))
           in Some (if f64_sign f then - int t else int t))"

text \<open>Go's \<open>==\<close> on \<open>float64\<close>: a NaN equals nothing, and the two zeros are equal.\<close>

definition f64_eq :: "f64 \<Rightarrow> f64 \<Rightarrow> bool" where
  "f64_eq a b \<longleftrightarrow> \<not> f64_isNaN a \<and> \<not> f64_isNaN b \<and>
     (a = b \<or> (unat a mod 2 ^ 63 = 0 \<and> unat b mod 2 ^ 63 = 0))"

text \<open>
  A conversion to an integer type of \<open>w\<close> bits. Where the truncated value does not fit, the
  language leaves the result to the implementation: it is the parameter \<open>impl\<close>.
\<close>

definition f64_to_int64 :: "(f64 \<Rightarrow> int) \<Rightarrow> f64 \<Rightarrow> int" where
  "f64_to_int64 impl f =
     (case f64_trunc f of
        None \<Rightarrow> impl f
      | Some i \<Rightarrow> if - (2 ^ 63) \<le> i \<and> i < 2 ^ 63 then i else impl f)"

definition f64_to_uint32 :: "(f64 \<Rightarrow> u32) \<Rightarrow> f64 \<Rightarrow> u32" where
  "f64_to_uint32 impl f =
     (case f64_trunc f of
        None \<Rightarrow> impl f
      | Some i \<Rightarrow> if 0 \<le> i \<and> i < 2 ^ 32 then of_int i else impl f)"

section \<open>Exact integers\<close>

lemma f64_of_nat_parts:
  assumes "0 < m" and "m < 2 ^ 53"
  shows "f64_of_nat m = (ilog2 m + 1023) * 2 ^ 52 + (m * 2 ^ (52 - ilog2 m) - 2 ^ 52)"
    and "2 ^ 52 \<le> m * 2 ^ (52 - ilog2 m)" and "m * 2 ^ (52 - ilog2 m) < 2 ^ 53"
    and "ilog2 m \<le> 52"
proof -
  from assms have e: "ilog2 m \<le> 52"
    using ilog2_less [of m 53] by simp
  then have split: "(2::nat) ^ ilog2 m * 2 ^ (52 - ilog2 m) = 2 ^ 52"
    by (simp flip: power_add)
  from ilog2_bounds [OF \<open>0 < m\<close>] have lo: "2 ^ ilog2 m \<le> m" and hi: "m < 2 * 2 ^ ilog2 m"
    by auto
  from lo have "2 ^ ilog2 m * 2 ^ (52 - ilog2 m) \<le> m * 2 ^ (52 - ilog2 m)"
    by (rule mult_le_mono1)
  then show "2 ^ 52 \<le> m * 2 ^ (52 - ilog2 m)" by (simp only: split)
  from hi have "m * 2 ^ (52 - ilog2 m) < 2 * 2 ^ ilog2 m * 2 ^ (52 - ilog2 m)"
    by (rule mult_less_mono1) simp
  then show "m * 2 ^ (52 - ilog2 m) < 2 ^ 53"
    by (simp add: split mult.assoc)
  show "ilog2 m \<le> 52" by (rule e)
  show "f64_of_nat m = (ilog2 m + 1023) * 2 ^ 52 + (m * 2 ^ (52 - ilog2 m) - 2 ^ 52)"
    using assms(1) e by (simp add: f64_of_nat_def Let_def)
qed

lemma f64_of_nat_small:
  assumes "m < 2 ^ 53"
  shows "\<exists>e fr. f64_of_nat m = e * 2 ^ 52 + fr \<and> fr < 2 ^ 52 \<and> e \<le> 1075 \<and>
           (if m = 0 then e = 0 \<and> fr = 0
            else 1023 \<le> e \<and> (2 ^ 52 + fr) = m * 2 ^ (1075 - e))"
proof (cases "m = 0")
  case True
  then show ?thesis by (simp add: f64_of_nat_def)
next
  case False
  note parts = f64_of_nat_parts [of m, OF _ assms]
  from False parts have "f64_of_nat m = (ilog2 m + 1023) * 2 ^ 52 + (m * 2 ^ (52 - ilog2 m) - 2 ^ 52)"
    "m * 2 ^ (52 - ilog2 m) - 2 ^ 52 < 2 ^ 52" "ilog2 m + 1023 \<le> 1075"
    "2 ^ 52 + (m * 2 ^ (52 - ilog2 m) - 2 ^ 52) = m * 2 ^ (1075 - (ilog2 m + 1023))"
    by auto
  with False show ?thesis
    by (intro exI [of _ "ilog2 m + 1023"] exI [of _ "m * 2 ^ (52 - ilog2 m) - 2 ^ 52"]) auto
qed

lemma f64_fields:
  assumes "unat f = (if s then 2 ^ 63 else 0) + (e * 2 ^ 52 + fr)" and "fr < 2 ^ 52" and "e \<le> 1075"
  shows "f64_sign f = s" and "f64_exp f = e" and "f64_frac f = fr"
proof -
  define q where "q = (if s then 2048 else 0) + e"
  have u: "unat f = q * 2 ^ 52 + fr"
    using assms(1) by (simp add: q_def)
  show "f64_frac f = fr"
    using assms(2) by (simp add: f64_frac_def u)
  have "unat f div 2 ^ 52 = q"
    using assms(2) by (simp add: u)
  then show "f64_exp f = e"
    using assms(3) by (simp add: f64_exp_def q_def)
  show "f64_sign f = s"
    using assms(2,3) unfolding f64_sign_def u by (cases s) (simp_all add: q_def)
qed

lemma f64_of_int_fields:
  assumes "\<bar>x\<bar> < 2 ^ 53"
  obtains e fr where "f64_sign (f64_of_int x) = (x < 0)" "f64_exp (f64_of_int x) = e"
    "f64_frac (f64_of_int x) = fr" "e \<le> 1075"
    "if x = 0 then e = 0 \<and> fr = 0 else 1023 \<le> e \<and> 2 ^ 52 + fr = nat \<bar>x\<bar> * 2 ^ (1075 - e)"
proof -
  let ?m = "nat \<bar>x\<bar>"
  from assms have "?m < 2 ^ 53" by (simp add: nat_less_iff)
  from f64_of_nat_small [OF this] obtain e fr where
    nat: "f64_of_nat ?m = e * 2 ^ 52 + fr" and fr: "fr < 2 ^ 52" and e: "e \<le> 1075"
    and val: "if ?m = 0 then e = 0 \<and> fr = 0 else 1023 \<le> e \<and> (2 ^ 52 + fr) = ?m * 2 ^ (1075 - e)"
    by blast
  have u: "unat (f64_of_int x) = (if x < 0 then 2 ^ 63 else 0) + (e * 2 ^ 52 + fr)"
    using fr e unfolding f64_of_int_def nat unat_of_nat by (intro mod_less) simp
  have "if x = 0 then e = 0 \<and> fr = 0 else 1023 \<le> e \<and> 2 ^ 52 + fr = ?m * 2 ^ (1075 - e)"
    using val by auto
  with that f64_fields [OF u fr e] e show ?thesis by blast
qed

text \<open>
  Every integer below \<open>2 ^ 53\<close> in absolute value is converted exactly and read back: the
  round trip of an RTMP number.
\<close>

lemma f64_trunc_of_int:
  assumes "\<bar>x\<bar> < 2 ^ 53"
  shows "f64_trunc (f64_of_int x) = Some x"
proof -
  obtain e fr where fields: "f64_sign (f64_of_int x) = (x < 0)" "f64_exp (f64_of_int x) = e"
    "f64_frac (f64_of_int x) = fr" and e: "e \<le> 1075"
    and val: "if x = 0 then e = 0 \<and> fr = 0 else 1023 \<le> e \<and> 2 ^ 52 + fr = nat \<bar>x\<bar> * 2 ^ (1075 - e)"
    by (rule f64_of_int_fields [OF assms])
  show ?thesis
  proof (cases "x = 0")
    case True
    with val show ?thesis unfolding f64_trunc_def fields by (simp add: Let_def)
  next
    case False
    let ?m = "nat \<bar>x\<bar>"
    from False val have lo: "1023 \<le> e" and mant: "2 ^ 52 + fr = ?m * 2 ^ (1075 - e)" by auto
    have t: "(if e \<ge> 1075 then (2 ^ 52 + fr) * 2 ^ (e - 1075)
              else (2 ^ 52 + fr) div 2 ^ (1075 - max 1 e)) = ?m"
      using lo e unfolding mant by (simp add: max_def)
    from lo e have ne: "(e = 2047) = False" "(e = 0) = False" by auto
    have "f64_trunc (f64_of_int x) = Some (if x < 0 then - int ?m else int ?m)"
      by (simp only: f64_trunc_def fields Let_def ne if_False t)
    with False show ?thesis by auto
  qed
qed

lemma f64_of_int_finite: "\<bar>x\<bar> < 2 ^ 53 \<Longrightarrow> \<not> f64_isNaN (f64_of_int x) \<and> \<not> f64_isInf (f64_of_int x)"
  using f64_trunc_of_int [of x]
  by (auto simp: f64_trunc_def f64_isNaN_def f64_isInf_def split: if_splits)

lemma f64_to_uint32_of_int [simp]:
  "f64_to_uint32 impl (f64_of_int (uint (w :: u32))) = w"
proof -
  have lt: "uint w < 2 ^ 32" using unsigned_less [of w] by simp
  then have "\<bar>uint w\<bar> < 2 ^ 53" by simp
  from f64_trunc_of_int [OF this] lt show ?thesis
    by (simp add: f64_to_uint32_def)
qed

lemma f64_to_int64_of_int: "\<bar>x\<bar> < 2 ^ 53 \<Longrightarrow> f64_to_int64 impl (f64_of_int x) = x"
  using f64_trunc_of_int [of x] by (simp add: f64_to_int64_def abs_less_iff)

section \<open>Rounding error\<close>

lemma round_shift_err: "2 * (round_shift n k * 2 ^ k) \<le> 2 * n + 2 ^ k \<and> 2 * n \<le> 2 * (round_shift n k * 2 ^ k) + 2 ^ k"
proof -
  define q r where "q = n div 2 ^ k" and "r = n mod 2 ^ k"
  have n: "n = q * 2 ^ k + r" unfolding q_def r_def by (rule div_mult_mod_eq [symmetric])
  have r: "r < 2 ^ k" by (simp add: r_def)
  have e: "round_shift n k = (if 2 * r > 2 ^ k \<or> (2 * r = 2 ^ k \<and> odd q) then q + 1 else q)"
    by (simp add: round_shift_def q_def r_def Let_def)
  show ?thesis unfolding e using n r by (auto simp: algebra_simps)
qed

lemma fround_err: "2 ^ 53 * fround n \<le> (2 ^ 53 + 1) * n \<and> (2 ^ 53 - 1) * n \<le> 2 ^ 53 * fround n"
proof (cases "ilog2 n \<le> 52")
  case True
  then show ?thesis by (simp add: fround_def algebra_simps)
next
  case False
  define k where "k = ilog2 n - 52"
  have "0 < n" using False by (cases n) (auto simp: ilog2.simps)
  moreover have "ilog2 n = 52 + k" using False by (simp add: k_def)
  ultimately have "2 ^ 52 * 2 ^ k \<le> n" using ilog2_bounds [of n] by (simp add: power_add)
  then have "2 ^ 53 * 2 ^ k \<le> 2 * n" by simp
  moreover have "fround n = round_shift n k * 2 ^ k" using False by (simp add: fround_def k_def)
  ultimately show ?thesis using round_shift_err [of n k] by simp
qed

end
