(* ===== verification/Amf0.thy ===== *)
theory Amf0
  imports Byte_Reader Float64 "HOL-Library.Sublist"
begin

text \<open>
  The AMF0 codec of \<^verbatim>\<open>src/internal/rtmp/amf0/amf0.go\<close>: RTMP commands and metadata are
  sequences of AMF0 values. The encoder takes any value its type switch accepts, the decoder
  returns a value and the rest of the input, refuses nesting beyond \<open>maxDecodeDepth\<close>, and
  reports every malformed input as an error.
\<close>

section \<open>Values\<close>

text \<open>
  The dynamic types the encoder's switch names. The ten integer types are one constructor:
  each is converted to \<open>float64\<close> first. \<open>Date\<close> holds the instant in nanoseconds since the
  Unix epoch. A map is its entries in key order. \<open>Other\<close> is any other Go value.
\<close>

datatype amf =
    Nil
  | Undefined
  | Bool bool
  | F64 f64
  | F32 u32
  | Integer int
  | Str bytes
  | Object "(bytes \<times> amf) list"
  | ECMAArray "(bytes \<times> amf) list"
  | StrictArray "amf list"
  | Date int
  | Other

datatype amf_error =
    IO io_error
  | ErrUnsupportedType
  | ErrInvalidMarker byte
  | ErrTooDeep
  | KeyTooLong nat
  | TerminatorExpected byte
  | OutOfFuel

abbreviation (input) "markerNumber \<equiv> 0x00 :: byte"
abbreviation (input) "markerBoolean \<equiv> 0x01 :: byte"
abbreviation (input) "markerString \<equiv> 0x02 :: byte"
abbreviation (input) "markerObject \<equiv> 0x03 :: byte"
abbreviation (input) "markerNull \<equiv> 0x05 :: byte"
abbreviation (input) "markerUndefined \<equiv> 0x06 :: byte"
abbreviation (input) "markerECMAArray \<equiv> 0x08 :: byte"
abbreviation (input) "markerObjectEnd \<equiv> 0x09 :: byte"
abbreviation (input) "markerStrictArray \<equiv> 0x0A :: byte"
abbreviation (input) "markerDate \<equiv> 0x0B :: byte"
abbreviation (input) "markerLongString \<equiv> 0x0C :: byte"

definition maxDecodeDepth :: nat where
  "maxDecodeDepth = 256"

text \<open>
  \<open>float64(x)\<close> of a \<open>float32\<close>: the value is exact; a NaN keeps its payload and becomes quiet.
\<close>

definition f64_of_f32 :: "u32 \<Rightarrow> f64" where
  "f64_of_f32 x =
     (let s = unat x div 2 ^ 31; e = unat x div 2 ^ 23 mod 256; fr = unat x mod 2 ^ 23
      in of_nat (s * 2 ^ 63 +
           (if e = 255 then 2047 * 2 ^ 52 + (if fr = 0 then 0 else (fr * 2 ^ 29) mod 2 ^ 51 + 2 ^ 51)
            else if e = 0 then (if fr = 0 then 0 else f64_of_nat fr - 149 * 2 ^ 52)
            else (e + 896) * 2 ^ 52 + fr * 2 ^ 29)))"

section \<open>Encoder\<close>

text \<open>The writer is a \<^verbatim>\<open>bytes.Buffer\<close> in every use, which accepts every write.\<close>

definition writeU16 :: "u16 \<Rightarrow> bytes" where
  "writeU16 v = PutUint16 v"

definition writeU32 :: "u32 \<Rightarrow> bytes" where
  "writeU32 v = PutUint32 v"

definition writeUTF8 :: "bytes \<Rightarrow> amf_error + bytes" where
  "writeUTF8 s =
     (if length s > 65535 then Inl (KeyTooLong (length s))
      else Inr (writeU16 (of_nat (length s)) @ s))"

definition encodeString :: "bytes \<Rightarrow> bytes" where
  "encodeString s =
     (if length s \<le> 65535 then markerString # writeU16 (of_nat (length s)) @ s
      else markerLongString # writeU32 (of_nat (length s)) @ s)"

definition writeObjectEnd :: bytes where
  "writeObjectEnd = writeU16 0 @ [markerObjectEnd]"

definition sortedKeys :: "(bytes \<times> 'v) list \<Rightarrow> bytes list" where
  "sortedKeys m = sort (map fst m)"

text \<open>The loop over the sorted keys: each key, then the value the map holds for it.\<close>

fun encodeEntries :: "(bytes \<rightharpoonup> amf_error + bytes) \<Rightarrow> bytes list \<Rightarrow> amf_error + bytes" where
  "encodeEntries x [] = Inr []"
| "encodeEntries x (k # keys) =
     bindE (writeUTF8 k) (\<lambda>kb.
     bindE (the (x k)) (\<lambda>vb.
     bindE (encodeEntries x keys) (\<lambda>rb. Inr (kb @ vb @ rb))))"

fun encodeItems :: "(amf_error + bytes) list \<Rightarrow> amf_error + bytes" where
  "encodeItems [] = Inr []"
| "encodeItems (x # xs) = bindE x (\<lambda>b. bindE (encodeItems xs) (\<lambda>r. Inr (b @ r)))"

fun encodeValue :: "amf \<Rightarrow> amf_error + bytes" where
  "encodeValue Nil = Inr [markerNull]"
| "encodeValue Undefined = Inr [markerUndefined]"
| "encodeValue (Bool x) = Inr [markerBoolean, if x then 1 else 0]"
| "encodeValue (F64 x) = Inr (markerNumber # PutUint64 x)"
| "encodeValue (F32 x) = Inr (markerNumber # PutUint64 (f64_of_f32 x))"
| "encodeValue (Integer x) = Inr (markerNumber # PutUint64 (f64_of_int x))"
| "encodeValue (Str s) = Inr (encodeString s)"
| "encodeValue (Object m) =
     bindE (encodeEntries (map_of (map (\<lambda>(k, v). (k, encodeValue v)) m)) (sortedKeys m))
       (\<lambda>b. Inr (markerObject # b @ writeObjectEnd))"
| "encodeValue (ECMAArray m) =
     bindE (encodeEntries (map_of (map (\<lambda>(k, v). (k, encodeValue v)) m)) (sortedKeys m))
       (\<lambda>b. Inr (markerECMAArray # writeU32 (of_nat (length m)) @ b @ writeObjectEnd))"
| "encodeValue (StrictArray xs) =
     bindE (encodeItems (map encodeValue xs))
       (\<lambda>b. Inr (markerStrictArray # writeU32 (of_nat (length xs)) @ b))"
| "encodeValue (Date t) =
     Inr (markerDate # PutUint64 (f64_of_int (t div 1000000)) @ writeU16 0)"
| "encodeValue Other = Inl ErrUnsupportedType"

definition Marshal :: "amf \<Rightarrow> amf_error + bytes" where
  "Marshal v = encodeValue v"

section \<open>Decoder\<close>

definition readN :: "nat \<Rightarrow> bytes \<Rightarrow> amf_error + bytes \<times> bytes" where
  "readN n bs =
     (case bytesReadFull n bs of (Inl e, _) \<Rightarrow> Inl (IO e) | (Inr b, r) \<Rightarrow> Inr (b, r))"

definition readByte :: "bytes \<Rightarrow> amf_error + byte \<times> bytes" where
  "readByte bs = (case bs of [] \<Rightarrow> Inl (IO EOF) | b # r \<Rightarrow> Inr (b, r))"

definition readU16 :: "bytes \<Rightarrow> amf_error + u16 \<times> bytes" where
  "readU16 bs = bindE (readN 2 bs) (\<lambda>(b, r). Inr (Uint16 b, r))"

definition readU32 :: "bytes \<Rightarrow> amf_error + u32 \<times> bytes" where
  "readU32 bs = bindE (readN 4 bs) (\<lambda>(b, r). Inr (Uint32 b, r))"

definition readF64 :: "bytes \<Rightarrow> amf_error + f64 \<times> bytes" where
  "readF64 bs = bindE (readN 8 bs) (\<lambda>(b, r). Inr (Uint64 b, r))"

definition readUTF8 :: "bytes \<Rightarrow> amf_error + bytes \<times> bytes" where
  "readUTF8 bs = bindE (readU16 bs) (\<lambda>(ln, r).
     if ln = 0 then Inr ([], r) else readN (unat ln) r)"

definition readLongUTF8 :: "bytes \<Rightarrow> amf_error + bytes \<times> bytes" where
  "readLongUTF8 bs = bindE (readU32 bs) (\<lambda>(ln, r).
     if ln = 0 then Inr ([], r) else readN (unat ln) r)"

text \<open>
  The switch of \<open>decodeValue\<close>, with its calls of \<open>decodeObject\<close> and of the strict array loop as
  arguments. \<open>impl\<close> is the implementation's out-of-range float conversion, for the date.
\<close>

definition decodeMarker ::
  "(f64 \<Rightarrow> int) \<Rightarrow> (nat \<Rightarrow> (bytes \<times> amf) list \<Rightarrow> bytes \<Rightarrow> amf_error + (bytes \<times> amf) list \<times> bytes)
    \<Rightarrow> (nat \<Rightarrow> nat \<Rightarrow> amf list \<Rightarrow> bytes \<Rightarrow> amf_error + amf list \<times> bytes)
    \<Rightarrow> nat \<Rightarrow> bytes \<Rightarrow> amf_error + amf \<times> bytes" where
  "decodeMarker impl object items depth bs =
     (if depth > maxDecodeDepth then Inl ErrTooDeep
      else bindE (readByte bs) (\<lambda>(m, r).
        if m = markerNumber then bindE (readF64 r) (\<lambda>(n, r'). Inr (F64 n, r'))
        else if m = markerBoolean then bindE (readByte r) (\<lambda>(b, r'). Inr (Bool (b \<noteq> 0), r'))
        else if m = markerString then bindE (readUTF8 r) (\<lambda>(s, r'). Inr (Str s, r'))
        else if m = markerLongString then bindE (readLongUTF8 r) (\<lambda>(s, r'). Inr (Str s, r'))
        else if m = markerObject then
          bindE (object (depth + 1) [] r) (\<lambda>(obj, r'). Inr (Object obj, r'))
        else if m = markerNull then Inr (Nil, r)
        else if m = markerUndefined then Inr (Undefined, r)
        else if m = markerECMAArray then
          bindE (readU32 r) (\<lambda>(_, r').
          bindE (object (depth + 1) [] r') (\<lambda>(obj, r''). Inr (ECMAArray obj, r'')))
        else if m = markerStrictArray then
          bindE (readU32 r) (\<lambda>(ln, r').
          bindE (items depth (unat ln) [] r') (\<lambda>(arr, r''). Inr (StrictArray arr, r'')))
        else if m = markerDate then
          bindE (readF64 r) (\<lambda>(ms, r').
          bindE (readU16 r') (\<lambda>(_, r'').
            if f64_isNaN ms \<or> f64_isInf ms then Inr (Date 0, r'')
            else Inr (Date (f64_to_int64 impl ms * 1000000), r'')))
        else Inl (ErrInvalidMarker m)))"

text \<open>
  The recursion spends one unit of fuel per call; \<open>Decode\<close> gives more than the input can need
  (\<open>decodeValue_fuel\<close> below), so \<open>OutOfFuel\<close> is never returned.
\<close>

fun decodeValue :: "(f64 \<Rightarrow> int) \<Rightarrow> nat \<Rightarrow> nat \<Rightarrow> bytes \<Rightarrow> amf_error + amf \<times> bytes"
and decodeObject :: "(f64 \<Rightarrow> int) \<Rightarrow> nat \<Rightarrow> nat \<Rightarrow> (bytes \<times> amf) list \<Rightarrow> bytes
      \<Rightarrow> amf_error + (bytes \<times> amf) list \<times> bytes"
and decodeItems :: "(f64 \<Rightarrow> int) \<Rightarrow> nat \<Rightarrow> nat \<Rightarrow> nat \<Rightarrow> amf list \<Rightarrow> bytes
      \<Rightarrow> amf_error + amf list \<times> bytes" where
  "decodeValue impl 0 depth bs = Inl OutOfFuel"
| "decodeValue impl (Suc f) depth bs =
     decodeMarker impl (\<lambda>d obj r. decodeObject impl f d obj r)
       (\<lambda>d n arr r. decodeItems impl f d n arr r) depth bs"
| "decodeObject impl 0 depth obj bs = Inl OutOfFuel"
| "decodeObject impl (Suc f) depth obj bs =
     bindE (readUTF8 bs) (\<lambda>(key, r).
       if key = [] then
         bindE (readByte r) (\<lambda>(m, r').
           if m \<noteq> markerObjectEnd then Inl (TerminatorExpected m) else Inr (obj, r'))
       else bindE (decodeValue impl f (depth + 1) r) (\<lambda>(v, r').
         decodeObject impl f depth (mapPut key v obj) r'))"
| "decodeItems impl 0 depth n arr bs = Inl OutOfFuel"
| "decodeItems impl (Suc f) depth n arr bs =
     (if n = 0 then Inr (arr, bs)
      else bindE (decodeValue impl f (depth + 1) bs) (\<lambda>(v, r).
        decodeItems impl f depth (n - 1) (arr @ [v]) r))"

definition Decode :: "(f64 \<Rightarrow> int) \<Rightarrow> bytes \<Rightarrow> amf_error + amf \<times> bytes" where
  "Decode impl bs = decodeValue impl (2 * length bs + 1) 0 bs"

definition Unmarshal :: "(f64 \<Rightarrow> int) \<Rightarrow> bytes \<Rightarrow> amf_error + amf" where
  "Unmarshal impl bs = bindE (Decode impl bs) (\<lambda>(v, _). Inr v)"

section \<open>Reading what was written\<close>

lemma readN_append [simp, codec_simps]: "n = length b \<Longrightarrow> readN n (b @ r) = Inr (b, r)"
  by (simp add: readN_def bytesReadFull_def)

lemma readN_Inr: "readN n bs = Inr (b, r) \<longleftrightarrow> bs = b @ r \<and> length b = n"
  by (auto simp: readN_def bytesReadFull_def split: if_splits)

lemma readByte_Inr: "readByte bs = Inr (b, r) \<longleftrightarrow> bs = b # r"
  by (auto simp: readByte_def split: list.splits)

lemma readByte_Cons [simp, codec_simps]: "readByte (b # r) = Inr (b, r)"
  by (simp add: readByte_def)

lemma readU16_write [simp, codec_simps]: "readU16 (writeU16 v @ r) = Inr (v, r)"
  by (simp add: readU16_def writeU16_def)

lemma readU32_write [simp, codec_simps]: "readU32 (writeU32 v @ r) = Inr (v, r)"
  by (simp add: readU32_def writeU32_def)

lemma readF64_write [simp, codec_simps]: "readF64 (PutUint64 v @ r) = Inr (v, r)"
  by (simp add: readF64_def)

lemma length_write [simp, codec_len]:
  "length (writeU16 v) = 2" "length (writeU32 w) = 4" "length writeObjectEnd = 3"
  by (simp_all add: writeU16_def writeU32_def writeObjectEnd_def)

lemma readUTF8_write [simp, codec_simps]:
  assumes "length s \<le> 65535"
  shows "readUTF8 (writeU16 (of_nat (length s)) @ s @ r) = Inr (s, r)"
proof -
  have "unat (of_nat (length s) :: u16) = length s"
    using assms by (simp add: unat_of_nat)
  moreover from this have "(of_nat (length s) :: u16) = 0 \<longleftrightarrow> s = []"
    by (metis length_0_conv unat_0 unat_eq_zero)
  ultimately show ?thesis
    using readN_append [of "length s" s r] by (auto simp: readUTF8_def)
qed

lemma readLongUTF8_write [simp, codec_simps]:
  assumes "length s < 2 ^ 32"
  shows "readLongUTF8 (writeU32 (of_nat (length s)) @ s @ r) = Inr (s, r)"
proof -
  have "unat (of_nat (length s) :: u32) = length s"
    using assms by (simp add: unat_of_nat)
  moreover from this have "(of_nat (length s) :: u32) = 0 \<longleftrightarrow> s = []"
    by (metis length_0_conv unat_0 unat_eq_zero)
  ultimately show ?thesis
    using readN_append [of "length s" s r] by (auto simp: readLongUTF8_def)
qed

lemma read_consumes [consume_rules]:
  "readU16 bs = Inr (w, r) \<Longrightarrow> length bs = length r + 2"
  "readU32 bs = Inr (w', r) \<Longrightarrow> length bs = length r + 4"
  "readF64 bs = Inr (x, r) \<Longrightarrow> length bs = length r + 8"
  "readByte bs = Inr (b, r) \<Longrightarrow> length bs = length r + 1"
  "readUTF8 bs = Inr (s, r) \<Longrightarrow> length bs = length r + 2 + length s"
  "readLongUTF8 bs = Inr (s, r) \<Longrightarrow> length bs = length r + 4 + length s"
  by (auto simp: readU16_def readU32_def readF64_def readUTF8_def readLongUTF8_def
      bindE_Inr_iff readN_Inr readByte_Inr split: if_splits)

lemma readN_no_fuel: "readN n bs \<noteq> Inl OutOfFuel"
  by (simp add: readN_def bytesReadFull_def)

lemma read_no_fuel [simp]:
  "readU16 bs \<noteq> Inl OutOfFuel" "readU32 bs \<noteq> Inl OutOfFuel" "readF64 bs \<noteq> Inl OutOfFuel"
  "readByte bs \<noteq> Inl OutOfFuel" "readUTF8 bs \<noteq> Inl OutOfFuel" "readLongUTF8 bs \<noteq> Inl OutOfFuel"
  by (auto simp: readU16_def readU32_def readF64_def readUTF8_def readLongUTF8_def readN_no_fuel
      readByte_def bindE_Inl_iff split: if_splits list.splits)

section \<open>The decoder consumes its input and never runs out of fuel\<close>

lemma decode_consumes:
  shows decodeValue_consumes: "decodeValue impl f d bs = Inr (v, r) \<Longrightarrow> length r < length bs"
    and decodeObject_consumes:
      "decodeObject impl f d obj bs = Inr (obj', r) \<Longrightarrow> length r < length bs"
    and decodeItems_consumes:
      "decodeItems impl f d n arr bs = Inr (arr', r) \<Longrightarrow> length r \<le> length bs"
proof (induction f arbitrary: d bs v r obj obj' n arr arr')
  case 0
  {
    case 1
    then show ?case by simp
  next
    case 2
    then show ?case by simp
  next
    case 3
    then show ?case by simp
  }
next
  case (Suc f)
  {
    case 1
    then show ?case
      by (auto simp: decodeMarker_def bindE_Inr_iff split: if_splits prod.splits
          dest!: read_consumes Suc.IH(2,3))
  next
    case 2
    then show ?case
      by (auto simp: bindE_Inr_iff split: if_splits prod.splits
          dest!: read_consumes Suc.IH(1,2))
  next
    case 3
    then show ?case
      by (auto simp: bindE_Inr_iff split: if_splits prod.splits
          dest!: Suc.IH(1,3))
  }
qed

lemma decode_fuel:
  shows decodeValue_fuel: "2 * length bs < f \<Longrightarrow> decodeValue impl f d bs \<noteq> Inl OutOfFuel"
    and decodeObject_fuel: "2 * length bs < f \<Longrightarrow> decodeObject impl f d obj bs \<noteq> Inl OutOfFuel"
    and decodeItems_fuel:
      "2 * length bs + 1 < f \<Longrightarrow> decodeItems impl f d n arr bs \<noteq> Inl OutOfFuel"
proof (induction f arbitrary: d bs obj n arr)
  case 0
  {
    case 1
    then show ?case by simp
  next
    case 2
    then show ?case by simp
  next
    case 3
    then show ?case by simp
  }
next
  case (Suc f)
  {
    case 1
    then show ?case
      by (auto simp: decodeMarker_def bindE_Inl_iff Suc.IH(2,3) split: if_splits prod.splits
          dest!: read_consumes)
  next
    case 2
    then show ?case
      by (auto simp: bindE_Inl_iff Suc.IH(1,2) split: if_splits prod.splits
          dest!: read_consumes decodeValue_consumes)
  next
    case 3
    then show ?case
      by (auto simp: bindE_Inl_iff Suc.IH(1,3) split: if_splits prod.splits
          dest!: decodeValue_consumes)
  }
qed

section \<open>Round trip\<close>

text \<open>
  What can go through the codec: strings and arrays whose length the 32-bit count holds, maps
  in key order whose keys are non-empty (an empty key is the terminator) and fit 16 bits, and
  dates within \<open>2 ^ 53\<close> milliseconds of the epoch.
\<close>

fun amfOk :: "amf \<Rightarrow> bool" where
  "amfOk (Str s) \<longleftrightarrow> length s < 2 ^ 32"
| "amfOk (Object m) \<longleftrightarrow> keysOk m \<and>
     (\<forall>e \<in> set m. fst e \<noteq> [] \<and> length (fst e) \<le> 65535 \<and> amfOk (snd e))"
| "amfOk (ECMAArray m) \<longleftrightarrow> keysOk m \<and>
     (\<forall>e \<in> set m. fst e \<noteq> [] \<and> length (fst e) \<le> 65535 \<and> amfOk (snd e))"
| "amfOk (StrictArray xs) \<longleftrightarrow> length xs < 2 ^ 32 \<and> (\<forall>x \<in> set xs. amfOk x)"
| "amfOk (Date t) \<longleftrightarrow> \<bar>t div 1000000\<bar> < 2 ^ 53"
| "amfOk Other \<longleftrightarrow> False"
| "amfOk _ \<longleftrightarrow> True"

text \<open>
  How deep the decoder recurses: two levels for the value of an object's key (one in
  \<open>decodeValue\<close>, one in \<open>decodeObject\<close>), one for an array's item.
\<close>

fun amfDepth :: "amf \<Rightarrow> nat" where
  "amfDepth (Object m) = foldr max (map (\<lambda>e. amfDepth (snd e) + 2) m) 0"
| "amfDepth (ECMAArray m) = foldr max (map (\<lambda>e. amfDepth (snd e) + 2) m) 0"
| "amfDepth (StrictArray xs) = foldr max (map (\<lambda>x. amfDepth x + 1) xs) 0"
| "amfDepth _ = 0"

text \<open>The value the decoder returns: every number a \<open>float64\<close>, a date in whole milliseconds.\<close>

fun amfNorm :: "amf \<Rightarrow> amf" where
  "amfNorm (F32 x) = F64 (f64_of_f32 x)"
| "amfNorm (Integer x) = F64 (f64_of_int x)"
| "amfNorm (Object m) = Object (map (\<lambda>e. (fst e, amfNorm (snd e))) m)"
| "amfNorm (ECMAArray m) = ECMAArray (map (\<lambda>e. (fst e, amfNorm (snd e))) m)"
| "amfNorm (StrictArray xs) = StrictArray (map amfNorm xs)"
| "amfNorm (Date t) = Date (t div 1000000 * 1000000)"
| "amfNorm v = v"

lemma foldr_max_le: "foldr max (map f xs) (0::nat) \<le> k \<longleftrightarrow> (\<forall>x \<in> set xs. f x \<le> k)"
  by (induction xs) auto

text \<open>\<open>rtOk v bs\<close>: any decoder with enough fuel reads \<open>bs\<close> as \<open>v\<close>, whatever follows.\<close>

definition rtOk :: "amf \<Rightarrow> bytes \<Rightarrow> bool" where
  "rtOk v bs \<longleftrightarrow> (\<forall>impl f d r. d + amfDepth v \<le> maxDecodeDepth \<longrightarrow> 2 * length (bs @ r) < f \<longrightarrow>
     decodeValue impl f d (bs @ r) = Inr (amfNorm v, r))"

lemma rtOkI:
  assumes "\<And>impl f d r. d + amfDepth v \<le> maxDecodeDepth \<Longrightarrow> 2 * length (bs @ r) < Suc f \<Longrightarrow>
     decodeValue impl (Suc f) d (bs @ r) = Inr (amfNorm v, r)"
  shows "rtOk v bs"
  unfolding rtOk_def
proof (intro allI impI)
  fix impl f d r
  assume "d + amfDepth v \<le> maxDecodeDepth" "2 * length (bs @ r) < f"
  then show "decodeValue impl f d (bs @ r) = Inr (amfNorm v, r)"
    using assms [of d r "f - 1" impl] by (cases f) auto
qed

lemma decode_entries:
  assumes "\<forall>e \<in> set es. x (fst e) = Some (encodeValue (snd e)) \<and> fst e \<noteq> []
             \<and> length (fst e) \<le> 65535 \<and> (\<exists>bs. encodeValue (snd e) = Inr bs \<and> rtOk (snd e) bs)"
    and "keysOk es"
  shows "\<exists>bs. encodeEntries x (map fst es) = Inr bs \<and>
     (\<forall>impl f d obj r. (\<forall>e \<in> set es. d + 1 + amfDepth (snd e) \<le> maxDecodeDepth) \<longrightarrow>
        (\<forall>a \<in> set (map fst obj). \<forall>b \<in> set (map fst es). a < b) \<longrightarrow>
        2 * length (bs @ writeObjectEnd @ r) < f \<longrightarrow>
        decodeObject impl f d obj (bs @ writeObjectEnd @ r)
          = Inr (obj @ map (\<lambda>e. (fst e, amfNorm (snd e))) es, r))"
  using assms
proof (induction es)
  case Nil
  have "decodeObject impl f d obj (writeObjectEnd @ r) = Inr (obj, r)"
    if "6 + 2 * length r < f" for impl f d obj r
  proof -
    from that obtain g where "f = Suc g" by (cases f) auto
    moreover have "readUTF8 (writeObjectEnd @ r) = Inr ([], markerObjectEnd # r)"
      using readUTF8_write [of "[]" "markerObjectEnd # r"] by (simp add: writeObjectEnd_def)
    ultimately show ?thesis by simp
  qed
  then show ?case by simp
next
  case (Cons e es)
  obtain k v where e: "e = (k, v)" by (cases e)
  from Cons obtain bs where enc: "encodeEntries x (map fst es) = Inr bs"
    and dec: "\<And>impl f d obj r. (\<forall>e \<in> set es. d + 1 + amfDepth (snd e) \<le> maxDecodeDepth) \<Longrightarrow>
        (\<forall>a \<in> set (map fst obj). \<forall>b \<in> set (map fst es). a < b) \<Longrightarrow>
        2 * length (bs @ writeObjectEnd @ r) < f \<Longrightarrow>
        decodeObject impl f d obj (bs @ writeObjectEnd @ r)
          = Inr (obj @ map (\<lambda>e. (fst e, amfNorm (snd e))) es, r)"
    by (auto simp: e)
  from Cons.prems(1) obtain vb where v: "x k = Some (Inr vb)" and k: "k \<noteq> []" "length k \<le> 65535"
    and rt: "rtOk v vb"
    by (auto simp: e)
  let ?kb = "writeU16 (of_nat (length k)) @ k"
  have "encodeEntries x (map fst (e # es)) = Inr (?kb @ vb @ bs)"
    using v k enc by (simp add: e writeUTF8_def)
  moreover have "decodeObject impl f d obj ((?kb @ vb @ bs) @ writeObjectEnd @ r)
      = Inr (obj @ map (\<lambda>e. (fst e, amfNorm (snd e))) (e # es), r)"
    if depth: "\<forall>e \<in> set (e # es). d + 1 + amfDepth (snd e) \<le> maxDecodeDepth"
      and keys: "\<forall>a \<in> set (map fst obj). \<forall>b \<in> set (map fst (e # es)). a < b"
      and fuel: "2 * length ((?kb @ vb @ bs) @ writeObjectEnd @ r) < f"
    for impl f d obj r
  proof -
    from fuel obtain g where f: "f = Suc g" by (cases f) auto
    have "decodeValue impl g (d + 1) (vb @ bs @ writeObjectEnd @ r)
        = Inr (amfNorm v, bs @ writeObjectEnd @ r)"
      using rt [unfolded rtOk_def] depth fuel by (simp add: e f)
    moreover have "mapPut k (amfNorm v) obj = obj @ [(k, amfNorm v)]"
      using keys by (intro mapPut_last) (auto simp: e)
    moreover have "decodeObject impl g d (obj @ [(k, amfNorm v)]) (bs @ writeObjectEnd @ r)
        = Inr ((obj @ [(k, amfNorm v)]) @ map (\<lambda>e. (fst e, amfNorm (snd e))) es, r)"
      using depth keys fuel Cons.prems(2) by (intro dec) (auto simp: e f)
    ultimately show ?thesis
      using k by (simp add: f e)
  qed
  ultimately show ?case by blast
qed

lemma decode_items:
  assumes "\<forall>v \<in> set xs. \<exists>bs. encodeValue v = Inr bs \<and> rtOk v bs"
  shows "\<exists>bs. encodeItems (map encodeValue xs) = Inr bs \<and>
     (\<forall>impl f d arr r. (\<forall>v \<in> set xs. d + 1 + amfDepth v \<le> maxDecodeDepth) \<longrightarrow>
        2 * length (bs @ r) + 1 < f \<longrightarrow>
        decodeItems impl f d (length xs) arr (bs @ r) = Inr (arr @ map amfNorm xs, r))"
  using assms
proof (induction xs)
  case Nil
  have "decodeItems impl f d 0 arr r = Inr (arr, r)" if "2 * length r + 1 < f" for impl f d arr r
    using that by (cases f) auto
  then show ?case by simp
next
  case (Cons v xs)
  from Cons obtain bs where enc: "encodeItems (map encodeValue xs) = Inr bs"
    and dec: "\<And>impl f d arr r. (\<forall>v \<in> set xs. d + 1 + amfDepth v \<le> maxDecodeDepth) \<Longrightarrow>
        2 * length (bs @ r) + 1 < f \<Longrightarrow>
        decodeItems impl f d (length xs) arr (bs @ r) = Inr (arr @ map amfNorm xs, r)"
    by auto
  from Cons.prems obtain vb where v: "encodeValue v = Inr vb" and rt: "rtOk v vb" by auto
  have vb: "vb \<noteq> []" using v by (cases v) (auto simp: bindE_Inr_iff encodeString_def split: if_splits)
  have "decodeItems impl f d (length (v # xs)) arr ((vb @ bs) @ r)
      = Inr (arr @ map amfNorm (v # xs), r)"
    if depth: "\<forall>v \<in> set (v # xs). d + 1 + amfDepth v \<le> maxDecodeDepth"
      and fuel: "2 * length ((vb @ bs) @ r) + 1 < f" for impl f d arr r
  proof -
    from fuel obtain g where f: "f = Suc g" by (cases f) auto
    have "decodeValue impl g (d + 1) (vb @ bs @ r) = Inr (amfNorm v, bs @ r)"
      using rt [unfolded rtOk_def] depth fuel by (simp add: f)
    moreover have "decodeItems impl g d (length xs) (arr @ [amfNorm v]) (bs @ r)
        = Inr ((arr @ [amfNorm v]) @ map amfNorm xs, r)"
      using depth fuel vb by (intro dec) (auto simp: f neq_Nil_conv)
    ultimately show ?thesis by (simp add: f)
  qed
  with v enc show ?case by auto
qed

lemma map_of_map_entry:
  assumes "keysOk m" and "e \<in> set m"
  shows "map_of (map (\<lambda>(k, v). (k, g v)) m) (fst e) = Some (g (snd e))"
proof -
  have "distinct (map fst (map (\<lambda>(k, v). (k, g v)) m))"
    using keysOk_distinct [OF assms(1)] by (simp add: case_prod_unfold comp_def)
  moreover have "(fst e, g (snd e)) \<in> set (map (\<lambda>(k, v). (k, g v)) m)"
    using assms(2) by (force simp: case_prod_unfold)
  ultimately show ?thesis by simp
qed

lemma depth_below:
  fixes g :: "'a \<Rightarrow> nat"
  assumes "d + foldr max (map (\<lambda>e. g e + k) m) 0 \<le> n"
  shows "\<forall>e \<in> set m. d + k + g e \<le> n"
proof -
  from assms have "foldr max (map (\<lambda>e. g e + k) m) 0 \<le> n - d" by simp
  then have "\<forall>e \<in> set m. g e + k \<le> n - d" by (simp only: foldr_max_le)
  with assms show ?thesis by fastforce
qed

text \<open>The entries of an object and of an ECMA array, between their headers and the end marker.\<close>

lemma encode_object:
  assumes ok: "keysOk m" "\<forall>e \<in> set m. fst e \<noteq> [] \<and> length (fst e) \<le> 65535"
    and vals: "\<forall>e \<in> set m. \<exists>bs. encodeValue (snd e) = Inr bs \<and> rtOk (snd e) bs"
  shows "\<exists>bs. encodeEntries (map_of (map (\<lambda>(k, v). (k, encodeValue v)) m)) (sortedKeys m) = Inr bs
    \<and> (\<forall>impl f d r. d + foldr max (map (\<lambda>e. amfDepth (snd e) + 2) m) 0 \<le> maxDecodeDepth \<longrightarrow>
        2 * length (bs @ writeObjectEnd @ r) < f \<longrightarrow>
        decodeObject impl f (d + 1) [] (bs @ writeObjectEnd @ r)
          = Inr (map (\<lambda>e. (fst e, amfNorm (snd e))) m, r))"
proof -
  let ?x = "map_of (map (\<lambda>(k, v). (k, encodeValue v)) m)"
  have "\<forall>e \<in> set m. ?x (fst e) = Some (encodeValue (snd e)) \<and> fst e \<noteq> []
          \<and> length (fst e) \<le> 65535 \<and> (\<exists>bs. encodeValue (snd e) = Inr bs \<and> rtOk (snd e) bs)"
    using ok vals map_of_map_entry [OF ok(1)] by blast
  from decode_entries [OF this ok(1)] obtain bs where
    enc: "encodeEntries ?x (map fst m) = Inr bs"
    and dec: "\<And>impl f d obj r. (\<forall>e \<in> set m. d + 1 + amfDepth (snd e) \<le> maxDecodeDepth) \<Longrightarrow>
        (\<forall>a \<in> set (map fst obj). \<forall>b \<in> set (map fst m). a < b) \<Longrightarrow>
        2 * length (bs @ writeObjectEnd @ r) < f \<Longrightarrow>
        decodeObject impl f d obj (bs @ writeObjectEnd @ r)
          = Inr (obj @ map (\<lambda>e. (fst e, amfNorm (snd e))) m, r)"
    by blast
  show ?thesis
  proof (intro exI conjI allI impI)
    show "encodeEntries ?x (sortedKeys m) = Inr bs"
      using enc by (simp add: sortedKeys_def keysOk_sort [OF ok(1)])
  next
    fix impl f d r
    assume depth: "d + foldr max (map (\<lambda>e. amfDepth (snd e) + 2) m) 0 \<le> maxDecodeDepth"
      and fuel: "2 * length (bs @ writeObjectEnd @ r) < f"
    from depth_below [OF depth]
    have "\<forall>e \<in> set m. (d + 1) + 1 + amfDepth (snd e) \<le> maxDecodeDepth" by simp
    from dec [OF this _ fuel, of "[]"]
    show "decodeObject impl f (d + 1) [] (bs @ writeObjectEnd @ r)
        = Inr (map (\<lambda>e. (fst e, amfNorm (snd e))) m, r)" by simp
  qed
qed

lemma object_rtOk:
  assumes ok: "keysOk m" "\<forall>e \<in> set m. fst e \<noteq> [] \<and> length (fst e) \<le> 65535"
    and vals: "\<forall>e \<in> set m. \<exists>bs. encodeValue (snd e) = Inr bs \<and> rtOk (snd e) bs"
  shows "\<exists>bs. encodeValue (Object m) = Inr bs \<and> rtOk (Object m) bs"
    and "\<exists>bs. encodeValue (ECMAArray m) = Inr bs \<and> rtOk (ECMAArray m) bs"
proof -
  from encode_object [OF assms] obtain bs where
    enc: "encodeEntries (map_of (map (\<lambda>(k, v). (k, encodeValue v)) m)) (sortedKeys m) = Inr bs"
    and dec: "\<And>impl f d r. d + foldr max (map (\<lambda>e. amfDepth (snd e) + 2) m) 0 \<le> maxDecodeDepth \<Longrightarrow>
        2 * length (bs @ writeObjectEnd @ r) < f \<Longrightarrow>
        decodeObject impl f (d + 1) [] (bs @ writeObjectEnd @ r)
          = Inr (map (\<lambda>e. (fst e, amfNorm (snd e))) m, r)"
    by blast
  have "rtOk (Object m) (markerObject # bs @ writeObjectEnd)"
    by (intro rtOkI) (use dec in \<open>simp add: decodeMarker_def\<close>)
  with enc show "\<exists>bs. encodeValue (Object m) = Inr bs \<and> rtOk (Object m) bs" by simp
  have "rtOk (ECMAArray m) (markerECMAArray # writeU32 (of_nat (length m)) @ bs @ writeObjectEnd)"
    by (intro rtOkI) (use dec in \<open>simp add: decodeMarker_def\<close>)
  with enc show "\<exists>bs. encodeValue (ECMAArray m) = Inr bs \<and> rtOk (ECMAArray m) bs" by simp
qed

lemma array_rtOk:
  assumes len: "length xs < 2 ^ 32"
    and vals: "\<forall>v \<in> set xs. \<exists>bs. encodeValue v = Inr bs \<and> rtOk v bs"
  shows "\<exists>bs. encodeValue (StrictArray xs) = Inr bs \<and> rtOk (StrictArray xs) bs"
proof -
  from decode_items [OF vals] obtain bs where enc: "encodeItems (map encodeValue xs) = Inr bs"
    and dec: "\<And>impl f d arr r. (\<forall>v \<in> set xs. d + 1 + amfDepth v \<le> maxDecodeDepth) \<Longrightarrow>
        2 * length (bs @ r) + 1 < f \<Longrightarrow>
        decodeItems impl f d (length xs) arr (bs @ r) = Inr (arr @ map amfNorm xs, r)"
    by blast
  have count: "unat (of_nat (length xs) :: u32) = length xs"
    using len by (simp add: unat_of_nat)
  have "rtOk (StrictArray xs) (markerStrictArray # writeU32 (of_nat (length xs)) @ bs)"
  proof (rule rtOkI)
    fix impl f d r
    assume depth: "d + amfDepth (StrictArray xs) \<le> maxDecodeDepth"
      and fuel: "2 * length ((markerStrictArray # writeU32 (of_nat (length xs)) @ bs) @ r) < Suc f"
    from depth have "\<forall>v \<in> set xs. d + 1 + amfDepth v \<le> maxDecodeDepth"
      using depth_below [of d amfDepth 1 xs maxDecodeDepth] by simp
    from dec [OF this, of r f impl "[]"] fuel
    have "decodeItems impl f d (length xs) [] (bs @ r) = Inr (map amfNorm xs, r)" by simp
    with depth count show "decodeValue impl (Suc f) d
          ((markerStrictArray # writeU32 (of_nat (length xs)) @ bs) @ r)
        = Inr (amfNorm (StrictArray xs), r)"
      by (simp add: decodeMarker_def)
  qed
  with enc show ?thesis by simp
qed

lemma encode_rtOk: "amfOk v \<Longrightarrow> \<exists>bs. encodeValue v = Inr bs \<and> rtOk v bs"
proof (induction v rule: encodeValue.induct)
  case (7 s)
  then have "rtOk (Str s) (encodeString s)"
    by (intro rtOkI) (simp add: encodeString_def decodeMarker_def)
  then show ?case by simp
next
  case (8 m)
  then show ?case by (intro object_rtOk) (fastforce simp: case_prod_unfold)+
next
  case (9 m)
  then show ?case by (intro object_rtOk) (fastforce simp: case_prod_unfold)+
next
  case (10 xs)
  then show ?case by (intro array_rtOk) auto
next
  case (11 t)
  then show ?case
    by (auto intro!: rtOkI simp: decodeMarker_def f64_of_int_finite f64_to_int64_of_int)
qed (auto intro!: rtOkI simp: decodeMarker_def)


section \<open>What the decoder returns\<close>

lemma read_suffix:
  "readU16 bs = Inr (w, r) \<Longrightarrow> suffix r bs"
  "readU32 bs = Inr (w', r) \<Longrightarrow> suffix r bs"
  "readF64 bs = Inr (x, r) \<Longrightarrow> suffix r bs"
  "readByte bs = Inr (b, r) \<Longrightarrow> suffix r bs"
  "readUTF8 bs = Inr (s, r) \<Longrightarrow> suffix r bs"
  "readLongUTF8 bs = Inr (s, r) \<Longrightarrow> suffix r bs"
  by (auto simp: suffix_def readU16_def readU32_def readF64_def readUTF8_def readLongUTF8_def
      bindE_Inr_iff readN_Inr readByte_Inr split: if_splits)

lemma decode_suffix:
  shows decodeValue_suffix: "decodeValue impl f d bs = Inr (v, r) \<Longrightarrow> suffix r bs"
    and decodeObject_suffix: "decodeObject impl f d obj bs = Inr (obj', r) \<Longrightarrow> suffix r bs"
    and decodeItems_suffix: "decodeItems impl f d n arr bs = Inr (arr', r) \<Longrightarrow> suffix r bs"
proof (induction f arbitrary: d bs v r obj obj' n arr arr')
  case 0
  {
    case 1
    then show ?case by simp
  next
    case 2
    then show ?case by simp
  next
    case 3
    then show ?case by simp
  }
next
  case (Suc f)
  note dests = read_suffix Suc.IH
  {
    case 1
    then show ?case
      by (auto simp: decodeMarker_def bindE_Inr_iff split: if_splits prod.splits
          dest!: dests elim: suffix_order.trans intro: suffix_ConsI)
  next
    case 2
    then show ?case
      by (auto simp: bindE_Inr_iff split: if_splits prod.splits
          dest!: dests elim: suffix_order.trans)
  next
    case 3
    then show ?case
      by (auto simp: bindE_Inr_iff split: if_splits prod.splits
          dest!: dests elim: suffix_order.trans)
  }
qed

text \<open>Every date within the range the round trip needs.\<close>

fun datesOk :: "amf \<Rightarrow> bool" where
  "datesOk (Date t) \<longleftrightarrow> \<bar>t div 1000000\<bar> < 2 ^ 53"
| "datesOk (Object m) \<longleftrightarrow> (\<forall>e \<in> set m. datesOk (snd e))"
| "datesOk (ECMAArray m) \<longleftrightarrow> (\<forall>e \<in> set m. datesOk (snd e))"
| "datesOk (StrictArray xs) \<longleftrightarrow> (\<forall>x \<in> set xs. datesOk x)"
| "datesOk _ \<longleftrightarrow> True"

text \<open>A decoded value at depth \<open>d\<close>: canonical, within the depth limit, and encodable again.\<close>

definition decodedOk :: "nat \<Rightarrow> amf \<Rightarrow> bool" where
  "decodedOk d v \<longleftrightarrow> d + amfDepth v \<le> maxDecodeDepth \<and> amfNorm v = v \<and> (datesOk v \<longrightarrow> amfOk v)"

definition entriesOk :: "nat \<Rightarrow> (bytes \<times> amf) list \<Rightarrow> bool" where
  "entriesOk d m \<longleftrightarrow> keysOk m \<and>
     (\<forall>e \<in> set m. fst e \<noteq> [] \<and> length (fst e) \<le> 65535 \<and> decodedOk (d + 1) (snd e))"

lemma entriesOk_put:
  assumes "entriesOk d m" and "k \<noteq> []" "length k \<le> 65535" "decodedOk (Suc d) v"
  shows "entriesOk d (mapPut k v m)"
  using assms by (auto simp: entriesOk_def mapPut_keysOk dest!: mapPut_entries)

lemma decodedOk_object:
  assumes "entriesOk (Suc d) m" and "d \<le> maxDecodeDepth"
  shows "decodedOk d (Object m)" and "decodedOk d (ECMAArray m)"
proof -
  have "\<forall>e \<in> set m. amfDepth (snd e) + 2 \<le> maxDecodeDepth - d"
    using assms(1) by (auto simp: entriesOk_def decodedOk_def)
  then have "foldr max (map (\<lambda>e. amfDepth (snd e) + 2) m) 0 \<le> maxDecodeDepth - d"
    by (simp only: foldr_max_le)
  moreover have "map (\<lambda>e. (fst e, amfNorm (snd e))) m = m"
    using assms(1) by (intro map_idI) (auto simp: entriesOk_def decodedOk_def)
  ultimately show "decodedOk d (Object m)" "decodedOk d (ECMAArray m)"
    using assms by (auto simp: decodedOk_def entriesOk_def)
qed

lemma decodedOk_array:
  assumes "\<forall>x \<in> set xs. decodedOk (d + 1) x" and "length xs < 2 ^ 32" and "d \<le> maxDecodeDepth"
  shows "decodedOk d (StrictArray xs)"
proof -
  have "\<forall>x \<in> set xs. amfDepth x + 1 \<le> maxDecodeDepth - d"
    using assms(1) by (auto simp: decodedOk_def)
  then have "foldr max (map (\<lambda>x. amfDepth x + 1) xs) 0 \<le> maxDecodeDepth - d"
    by (simp only: foldr_max_le)
  moreover have "map amfNorm xs = xs"
    using assms(1) by (intro map_idI) (auto simp: decodedOk_def)
  ultimately show ?thesis
    using assms by (auto simp: decodedOk_def)
qed

lemma readUTF8_bound: "readUTF8 bs = Inr (s, r) \<Longrightarrow> length s \<le> 65535"
  "readLongUTF8 bs = Inr (s, r) \<Longrightarrow> length s < 2 ^ 32"
proof -
  show "readUTF8 bs = Inr (s, r) \<Longrightarrow> length s \<le> 65535"
    using unat_u16_less by (auto simp: readUTF8_def bindE_Inr_iff readN_Inr less_Suc_eq_le [symmetric]
        split: if_splits)
  show "readLongUTF8 bs = Inr (s, r) \<Longrightarrow> length s < 2 ^ 32"
    using unat_u32_less by (auto simp: readLongUTF8_def bindE_Inr_iff readN_Inr split: if_splits)
qed

lemma decodedOk_leaf:
  "d \<le> maxDecodeDepth \<Longrightarrow> decodedOk d Nil" "d \<le> maxDecodeDepth \<Longrightarrow> decodedOk d Undefined"
  "d \<le> maxDecodeDepth \<Longrightarrow> decodedOk d (Bool b)" "d \<le> maxDecodeDepth \<Longrightarrow> decodedOk d (F64 x)"
  "d \<le> maxDecodeDepth \<Longrightarrow> length s < 2 ^ 32 \<Longrightarrow> decodedOk d (Str s)"
  "d \<le> maxDecodeDepth \<Longrightarrow> decodedOk d (Date (t * 1000000))"
  by (simp_all add: decodedOk_def)

lemma decodeMarker_ok:
  assumes run: "decodeMarker impl object items d bs = Inr (v, r)"
    and obj: "\<And>b m q. object (d + 1) [] b = Inr (m, q) \<Longrightarrow> entriesOk (d + 1) m"
    and items: "\<And>k b xs q. items d k [] b = Inr (xs, q) \<Longrightarrow>
        (\<forall>x \<in> set xs. decodedOk (d + 1) x) \<and> length xs = k"
  shows "decodedOk d v"
proof -
  have d: "d \<le> maxDecodeDepth" using run by (auto simp: decodeMarker_def split: if_splits)
  have arr: "decodedOk d (StrictArray xs)" if "items d (unat (n :: u32)) [] b = Inr (xs, q)" for n b xs q
    using items [OF that] unat_u32_less [of n] d by (intro decodedOk_array) auto
  have date0: "decodedOk d (Date 0)" using decodedOk_leaf(6) [OF d, of 0] by simp
  have short: "decodedOk d (Str s)" if "readUTF8 b = Inr (s, q)" for b s q
    using readUTF8_bound(1) [OF that] by (intro decodedOk_leaf d) simp
  have long: "decodedOk d (Str s)" if "readLongUTF8 b = Inr (s, q)" for b s q
    using readUTF8_bound(2) [OF that] by (intro decodedOk_leaf d)
  from run show ?thesis
    by (auto simp: decodeMarker_def bindE_Inr_iff split: if_splits prod.splits
        intro: decodedOk_leaf(1-4,6) d date0 short long arr decodedOk_object obj [simplified])
qed

lemma decode_ok:
  shows decodeValue_ok: "decodeValue impl f d bs = Inr (v, r) \<Longrightarrow> decodedOk d v"
    and decodeObject_ok:
      "decodeObject impl f d obj bs = Inr (obj', r) \<Longrightarrow> entriesOk d obj \<Longrightarrow> entriesOk d obj'"
    and decodeItems_ok:
      "decodeItems impl f d n arr bs = Inr (arr', r) \<Longrightarrow> \<forall>x \<in> set arr. decodedOk (d + 1) x \<Longrightarrow>
         (\<forall>x \<in> set arr'. decodedOk (d + 1) x) \<and> length arr' = length arr + n"
proof (induction f arbitrary: d bs v r obj obj' n arr arr')
  case 0
  {
    case 1
    then show ?case by simp
  next
    case 2
    then show ?case by simp
  next
    case 3
    then show ?case by simp
  }
next
  case (Suc f)
  {
    case 1
    have obj: "decodeObject impl f (d + 1) [] b = Inr (m, q) \<Longrightarrow> entriesOk (d + 1) m" for b m q
      by (rule Suc.IH(2)) (auto simp: entriesOk_def)
    have arr: "decodeItems impl f d k [] b = Inr (xs, q) \<Longrightarrow>
        (\<forall>x \<in> set xs. decodedOk (d + 1) x) \<and> length xs = k" for k b xs q
      using Suc.IH(3) [of d k "[]" b xs q] by simp
    from decodeMarker_ok [OF 1 [simplified] obj arr] show ?case .
  next
    case 2
    from 2(1) obtain key q where key: "readUTF8 bs = Inr (key, q)" by (auto simp: bindE_Inr_iff)
    show ?case
    proof (cases "key = []")
      case True
      with 2 key show ?thesis by (auto simp: bindE_Inr_iff split: if_splits)
    next
      case False
      with 2(1) key obtain v q' where v: "decodeValue impl f (d + 1) q = Inr (v, q')"
        and rest: "decodeObject impl f d (mapPut key v obj) q' = Inr (obj', r)"
        by (auto simp: bindE_Inr_iff)
      have "entriesOk d (mapPut key v obj)"
        using 2(2) False readUTF8_bound(1) [OF key] Suc.IH(1) [OF v] by (intro entriesOk_put) auto
      with Suc.IH(2) [OF rest] show ?thesis .
    qed
  next
    case 3
    show ?case
    proof (cases "n = 0")
      case True
      with 3 show ?thesis by simp
    next
      case False
      with 3(1) obtain v q where v: "decodeValue impl f (d + 1) bs = Inr (v, q)"
        and rest: "decodeItems impl f d (n - 1) (arr @ [v]) q = Inr (arr', r)"
        by (auto simp: bindE_Inr_iff)
      have "\<forall>x \<in> set (arr @ [v]). decodedOk (d + 1) x" using 3(2) Suc.IH(1) [OF v] by auto
      from Suc.IH(3) [OF rest this] False show ?thesis by simp
    qed
  }
qed


lemma Decode_rt:
  "rtOk v bs \<Longrightarrow> amfDepth v \<le> maxDecodeDepth \<Longrightarrow> Decode impl (bs @ r) = Inr (amfNorm v, r)"
  unfolding Decode_def rtOk_def by (simp del: decodeValue.simps)

lemma Decode_Inr:
  assumes "Decode impl bs = Inr (v, r)"
  shows "suffix r bs" and "length r < length bs" and "decodedOk 0 v"
  using assms decodeValue_suffix decodeValue_consumes decodeValue_ok unfolding Decode_def by blast+

section \<open>Properties\<close>

text \<open>
  C24: Every value the codec can carry (string and array lengths within 32 bits, maps with
  non-empty keys that fit 16 bits, dates within 2^53 ms, nesting within the decoder's limit) is
  encoded, and decoding the bytes followed by anything returns the value with its numbers as
  float64, and exactly what followed.
\<close>

theorem amf0_roundtrip:
  assumes "amfOk v" and "amfDepth v \<le> maxDecodeDepth"
  shows "\<exists>bs. Marshal v = Inr bs \<and> (\<forall>r. Decode impl (bs @ r) = Inr (amfNorm v, r))"
  using encode_rtOk [OF assms(1)] Decode_rt assms(2) unfolding Marshal_def by blast

definition sampleCommand :: amf where
  "sampleCommand = Object [(str ''app'', Str (str ''live'')),
     (str ''caps'', StrictArray [Bool True, Nil, Integer 15]), (str ''when'', Date 1500000000)]"

theorem amf0_roundtrip_witness:
  "\<exists>bs. Marshal sampleCommand = Inr bs
     \<and> Decode (\<lambda>_. 0) (bs @ [9]) = Inr (amfNorm sampleCommand, [9])"
proof -
  have "amfOk sampleCommand"
    by (simp add: sampleCommand_def str_def of_char_def)
  moreover have "amfDepth sampleCommand \<le> maxDecodeDepth"
    by (simp add: sampleCommand_def maxDecodeDepth_def)
  ultimately show ?thesis using amf0_roundtrip [of sampleCommand] by blast
qed



text \<open>
  Decoded values are canonical: re-encoding a decoded value (whose dates are within 2^53
  ms) succeeds and decodes to the same value again, so relaying a command or metadata does
  not change it.
\<close>

theorem amf0_decode_encode_stable:
  assumes "Decode impl bs = Inr (v, r)" and "datesOk v"
  shows "\<exists>bs'. Marshal v = Inr bs' \<and> (\<forall>r'. Decode impl (bs' @ r') = Inr (v, r'))"
proof -
  from Decode_Inr(3) [OF assms(1)] assms(2) have v: "amfOk v" "amfDepth v \<le> maxDecodeDepth" "amfNorm v = v"
    by (auto simp: decodedOk_def)
  from encode_rtOk [OF v(1)] Decode_rt [OF _ v(2)] v(3) show ?thesis
    unfolding Marshal_def by fastforce
qed

lemma encodeValue_marker: "encodeValue v = Inr bs \<Longrightarrow> \<exists>m r. bs = m # r \<and> m \<noteq> markerObjectEnd"
  by (cases v) (auto simp: bindE_Inr_iff encodeString_def split: if_splits)

text \<open>
  An object with an empty key is encoded without error into bytes the decoder refuses:
  the empty key reads as the end of the object, and the marker of its value is not the
  terminator.
\<close>

theorem amf0_empty_key_refused:
  assumes "keysOk (([], v) # m)" and "Marshal (Object (([], v) # m)) = Inr bs"
  shows "\<exists>k. Decode impl (bs @ r) = Inl (TerminatorExpected k)"
proof -
  let ?m = "([], v) # m"
  have keys: "sortedKeys ?m = [] # map fst m"
    using keysOk_sort [OF assms(1)] by (simp add: sortedKeys_def)
  from assms(2) obtain vb rb where v: "encodeValue v = Inr vb"
    and bs: "bs = markerObject # (writeU16 0 @ vb @ rb) @ writeObjectEnd"
    by (auto simp: Marshal_def keys writeUTF8_def bindE_Inr_iff)
  from encodeValue_marker [OF v] obtain k q where vb: "vb = k # q" "k \<noteq> markerObjectEnd" by blast
  have "readUTF8 (writeU16 0 @ x) = Inr ([], x)" for x
    using readUTF8_write [of "[]" x] by simp
  then have "decodeValue impl (Suc (Suc f)) 0 (bs @ r) = Inl (TerminatorExpected k)" for f
    using vb by (simp add: bs decodeMarker_def)
  moreover have "2 * length (bs @ r) + 1 = Suc (Suc (2 * length (bs @ r) - 1))"
    by (simp add: bs)
  ultimately have "Decode impl (bs @ r) = Inl (TerminatorExpected k)"
    unfolding Decode_def by metis
  then show ?thesis by blast
qed

end
