(* ===== verification/Rtmp_Session.thy ===== *)
theory Rtmp_Session
  imports Rtmp_Reassembly Amf0
begin

text \<open>
  The command layer of an RTMP connection: the publish negotiation of the server
  (\<open>AcceptStreamFunc\<close>) and of the client (\<open>OpenStream\<close>), and the exchange of audio, video and
  metadata frames afterwards (\<^verbatim>\<open>src/internal/rtmp/conn.go\<close> from \<open>sendCommand\<close> on,
  \<^verbatim>\<open>command.go\<close>, \<^verbatim>\<open>frame.go\<close>, \<^verbatim>\<open>error.go\<close>). Every loop reads a message in each pass, so it ends
  when the input ends.
\<close>

section \<open>Commands\<close>

text \<open>
  \<open>IndexOutOfRange\<close> is not a Go error but the run-time panic of an index past the end of a
  slice. The reason of a denied publish is what the caller's check returned.
\<close>

datatype sess_error =
    ConnErr rtmp_error
  | EncodeErr amf_error
  | ReadName amf_error
  | ReadTx amf_error
  | ErrServerRejected f64
  | ErrCreateStreamRejected
  | ErrUnsupportedFrameType byte
  | ErrPublishDenied bytes
  | IndexOutOfRange

definition commandMessageNameConnect :: bytes where
  "commandMessageNameConnect = str ''connect''"

definition commandMessageNameCreateStream :: bytes where
  "commandMessageNameCreateStream = str ''createStream''"

definition commandMessageNamePublish :: bytes where
  "commandMessageNamePublish = str ''publish''"

definition commandMessageNameReleaseStream :: bytes where
  "commandMessageNameReleaseStream = str ''releaseStream''"

definition commandMessageNameFCPublish :: bytes where
  "commandMessageNameFCPublish = str ''FCPublish''"

definition commandMessageNameFCUnpublish :: bytes where
  "commandMessageNameFCUnpublish = str ''FCUnpublish''"

definition commandMessageNameDeleteStream :: bytes where
  "commandMessageNameDeleteStream = str ''deleteStream''"

definition commandMessageNameResult :: bytes where
  "commandMessageNameResult = str ''_result''"

definition commandMessageNameError :: bytes where
  "commandMessageNameError = str ''_error''"

definition commandMessageNameOnStatus :: bytes where
  "commandMessageNameOnStatus = str ''onStatus''"

lemmas command_names = commandMessageNameConnect_def commandMessageNameCreateStream_def
  commandMessageNamePublish_def commandMessageNameReleaseStream_def commandMessageNameFCPublish_def
  commandMessageNameFCUnpublish_def commandMessageNameDeleteStream_def commandMessageNameResult_def
  commandMessageNameError_def commandMessageNameOnStatus_def

definition audioCodecFlagMP3 :: int where
  "audioCodecFlagMP3 = 0x0004"

definition audioCodecFlagAAC :: int where
  "audioCodecFlagAAC = 0x0400"

definition videoCodecFlagH264 :: int where
  "videoCodecFlagH264 = 0x0080"

definition commandMessage :: "u32 \<Rightarrow> bytes \<Rightarrow> f64 \<Rightarrow> amf list \<Rightarrow> amf_error + rawMessage" where
  "commandMessage sid name txID args =
     bindE (encodeItems (map encodeValue (Str name # F64 txID # args)))
       (\<lambda>p. Inr \<lparr>typeID = messageTypeAMF0Command, streamID = sid, msgTimestamp = 0, msgPayload = p\<rparr>)"

definition sendCommand :: "u32 \<Rightarrow> bytes \<Rightarrow> f64 \<Rightarrow> amf list \<Rightarrow> conn \<Rightarrow> (sess_error + unit) \<times> conn" where
  "sendCommand sid name txID args c =
     (case commandMessage sid name txID args of
        Inl e \<Rightarrow> (Inl (EncodeErr e), c)
      | Inr msg \<Rightarrow> mapErrS ConnErr (writeRawMessage csidCommand msg c))"

record command =
  cmdName :: bytes
  cmdTx :: f64
  cmdArgs :: "amf list"

text \<open>The arguments are decoded until the input ends or does not decode any more.\<close>

function readArgs :: "(f64 \<Rightarrow> int) \<Rightarrow> bytes \<Rightarrow> amf list" where
  "readArgs impl bs =
     (case Decode impl bs of Inl _ \<Rightarrow> [] | Inr (v, r) \<Rightarrow> v # readArgs impl r)"
  by pat_completeness auto
termination
  by (relation "measure (\<lambda>(impl, bs). length bs)") (auto dest: Decode_Inr(2))

declare readArgs.simps [simp del]

definition asString :: "amf \<Rightarrow> bytes" where
  "asString v = (case v of Str s \<Rightarrow> s | _ \<Rightarrow> [])"

definition asFloat :: "amf \<Rightarrow> f64" where
  "asFloat v = (case v of F64 x \<Rightarrow> x | _ \<Rightarrow> 0)"

definition isFloat :: "amf \<Rightarrow> bool" where
  "isFloat v = (case v of F64 _ \<Rightarrow> True | _ \<Rightarrow> False)"

definition readCommand :: "(f64 \<Rightarrow> int) \<Rightarrow> rawMessage \<Rightarrow> sess_error + command" where
  "readCommand impl msg =
     (let bs = (if typeID msg = messageTypeAMF3Command then drop 1 (msgPayload msg) else msgPayload msg)
      in bindE (mapErr ReadName (Decode impl bs)) (\<lambda>(nameVal, r).
         bindE (mapErr ReadTx (Decode impl r)) (\<lambda>(txVal, r').
           Inr \<lparr>cmdName = asString nameVal, cmdTx = asFloat txVal, cmdArgs = readArgs impl r'\<rparr>)))"

definition isCommand :: "rawMessage \<Rightarrow> bool" where
  "isCommand msg \<longleftrightarrow> typeID msg = messageTypeAMF0Command \<or> typeID msg = messageTypeAMF3Command"

lemma readMessage_progress':
  "(Inr msg, c') = readMessage c \<Longrightarrow> length (connContents c') < length (connContents c)"
  by (rule readMessage_progress [OF sym])

lemma handleControlMessage_contents:
  "(r, c') = handleControlMessage msg c \<Longrightarrow> connContents c' = connContents c"
  unfolding connContents_def by (metis handleControlMessage_br snd_conv)

function readNextCommand :: "(f64 \<Rightarrow> int) \<Rightarrow> conn \<Rightarrow> (sess_error + command) \<times> conn" where
  "readNextCommand impl c =
     (case readMessage c of
        (Inl e, c1) \<Rightarrow> (Inl (ConnErr e), c1)
      | (Inr msg, c1) \<Rightarrow>
          if isControlMessage (typeID msg) then
            (case handleControlMessage msg c1 of
               (Inl e, c2) \<Rightarrow> (Inl (ConnErr e), c2)
             | (Inr _, c2) \<Rightarrow> readNextCommand impl c2)
          else if isCommand msg then (readCommand impl msg, c1)
          else readNextCommand impl c1)"
  by pat_completeness auto
termination
  by (relation "measure (\<lambda>(impl, c). length (connContents c))")
    (auto dest!: readMessage_progress' dest: handleControlMessage_contents)

declare readNextCommand.simps [simp del]

section \<open>The server's negotiation\<close>

definition connectProps :: amf where
  "connectProps = Object [(str ''capabilities'', F64 (f64_of_int 31)),
     (str ''fmsVer'', Str (str ''FMS/3,0,1,123''))]"

definition connectInfo :: amf where
  "connectInfo = Object [(str ''code'', Str (str ''NetConnection.Connect.Success'')),
     (str ''description'', Str (str ''Connection succeeded.'')),
     (str ''level'', Str (str ''status'')),
     (str ''objectEncoding'', F64 (f64_of_int 0))]"

definition handleConnect :: "f64 \<Rightarrow> conn \<Rightarrow> (sess_error + unit) \<times> conn" where
  "handleConnect txID c =
     bindS (mapErrS ConnErr (sendWindowAckSize defaultWindowAckSize c)) (\<lambda>_ c.
     bindS (mapErrS ConnErr (sendSetPeerBandwidth defaultWindowAckSize 2 c)) (\<lambda>_ c.
     bindS (mapErrS ConnErr (sendSetChunkSize serverChunkSize c)) (\<lambda>_ c.
     let c = c\<lparr>writeChunkSize := serverChunkSize\<rparr>
     in bindS (mapErrS ConnErr (sendStreamBegin 0 c)) (\<lambda>_ c.
        sendCommand 0 commandMessageNameResult txID [connectProps, connectInfo] c))))"

definition statusDenied :: amf where
  "statusDenied = Object [(str ''code'', Str (str ''NetStream.Publish.Denied'')),
     (str ''description'', Str (str ''publishing was refused'')), (str ''level'', Str (str ''error''))]"

definition statusStart :: "bytes \<Rightarrow> amf" where
  "statusStart pubName = Object [(str ''code'', Str (str ''NetStream.Publish.Start'')),
     (str ''description'', Str (pubName @ str '' is now published.'')),
     (str ''level'', Str (str ''status''))]"

text \<open>The negotiated stream; the connection it reads from or writes to is passed beside it.\<close>

record messageStream =
  sStreamID :: u32
  sApp :: bytes
  sStreamKey :: bytes

text \<open>The local variables of the negotiation loop.\<close>

record acceptState =
  activeStreamID :: u32
  app :: bytes

datatype accept_result = Continue acceptState | Accepted messageStream

definition connectApp :: "amf \<Rightarrow> bytes \<Rightarrow> bytes" where
  "connectApp v a =
     (case v of
        Object m \<Rightarrow> (case map_of m (str ''app'') of Some x \<Rightarrow> asString x | None \<Rightarrow> [])
      | _ \<Rightarrow> a)"

definition acceptPublish :: "(bytes \<Rightarrow> bytes \<Rightarrow> bytes option) option \<Rightarrow> rawMessage \<Rightarrow> command
    \<Rightarrow> acceptState \<Rightarrow> conn \<Rightarrow> (sess_error + accept_result) \<times> conn" where
  "acceptPublish allow msg cmd st c =
     (let pubName = (if length (cmdArgs cmd) \<ge> 2 then asString (cmdArgs cmd ! 1) else []);
          sid = (if streamID msg = 0 then activeStreamID st else streamID msg);
          denied = (case allow of None \<Rightarrow> None | Some f \<Rightarrow> f (app st) pubName)
      in case denied of
           Some why \<Rightarrow>
             bindS (sendCommand sid commandMessageNameOnStatus 0 [Nil, statusDenied] c) (\<lambda>_ c.
               (Inl (ErrPublishDenied why), c))
         | None \<Rightarrow>
             bindS (mapErrS ConnErr (sendStreamBegin sid c)) (\<lambda>_ c.
             bindS (sendCommand sid commandMessageNameOnStatus 0 [Nil, statusStart pubName] c) (\<lambda>_ c.
               (Inr (Accepted \<lparr>sStreamID = sid, sApp = app st, sStreamKey = pubName\<rparr>), c))))"

definition acceptCommand :: "(bytes \<Rightarrow> bytes \<Rightarrow> bytes option) option \<Rightarrow> rawMessage \<Rightarrow> command
    \<Rightarrow> acceptState \<Rightarrow> conn \<Rightarrow> (sess_error + accept_result) \<times> conn" where
  "acceptCommand allow msg cmd st c =
     (let name = cmdName cmd in
      if name = commandMessageNameConnect then
        (case cmdArgs cmd of
           [] \<Rightarrow> (Inl IndexOutOfRange, c)
         | v # _ \<Rightarrow> bindS (handleConnect (cmdTx cmd) c) (\<lambda>_ c.
             (Inr (Continue (st\<lparr>app := connectApp v (app st)\<rparr>)), c)))
      else if name = commandMessageNameReleaseStream \<or> name = commandMessageNameFCPublish then
        bindS (sendCommand 0 commandMessageNameResult (cmdTx cmd) [Nil] c) (\<lambda>_ c.
          (Inr (Continue st), c))
      else if name = commandMessageNameCreateStream then
        (let sid = nextStreamID c
         in bindS (sendCommand 0 commandMessageNameResult (cmdTx cmd) [Nil, F64 (f64_of_int (uint sid))]
                     (c\<lparr>nextStreamID := sid + 1\<rparr>)) (\<lambda>_ c.
              (Inr (Continue (st\<lparr>activeStreamID := sid\<rparr>)), c)))
      else if name = commandMessageNamePublish then acceptPublish allow msg cmd st c
      else (Inr (Continue st), c))"

text \<open>What one pass of the loop does with the message it read.\<close>

definition acceptMessage :: "(f64 \<Rightarrow> int) \<Rightarrow> (bytes \<Rightarrow> bytes \<Rightarrow> bytes option) option \<Rightarrow> rawMessage
    \<Rightarrow> acceptState \<Rightarrow> conn \<Rightarrow> (sess_error + accept_result) \<times> conn" where
  "acceptMessage impl allow msg st c =
     (if isControlMessage (typeID msg) then
        bindS (mapErrS ConnErr (handleControlMessage msg c)) (\<lambda>_ c. (Inr (Continue st), c))
      else if \<not> isCommand msg then (Inr (Continue st), c)
      else case readCommand impl msg of
             Inl e \<Rightarrow> (Inl e, c)
           | Inr cmd \<Rightarrow> acceptCommand allow msg cmd st c)"

subsection \<open>Negotiating does not touch the input\<close>

lemma snd_bindS_br:
  assumes "\<And>a c. br (snd (f a c)) = br c"
  shows "br (snd (bindS m f)) = br (snd m)"
  using assms by (cases m; cases "fst m") auto

lemma sendCommand_br [simp]: "br (snd (sendCommand sid name t args c)) = br c"
  by (simp add: sendCommand_def split: sum.split)

lemma send_br [simp]:
  "br (snd (sendWindowAckSize n c)) = br c" "br (snd (sendSetPeerBandwidth n l c)) = br c"
  "br (snd (sendSetChunkSize n c)) = br c" "br (snd (sendStreamBegin sid c)) = br c"
  "br (snd (sendStreamEOF sid c)) = br c"
  by (simp_all add: sendWindowAckSize_def sendSetPeerBandwidth_def sendSetChunkSize_def
      sendStreamBegin_def sendStreamEOF_def sendUserControl_def)

lemma handleConnect_br [simp]: "br (snd (handleConnect t c)) = br c"
  by (simp add: handleConnect_def Let_def snd_bindS_br)

lemma acceptPublish_br [simp]: "br (snd (acceptPublish allow msg cmd st c)) = br c"
  by (simp add: acceptPublish_def Let_def snd_bindS_br split: option.split)

lemma acceptCommand_br [simp]: "br (snd (acceptCommand allow msg cmd st c)) = br c"
  by (simp add: acceptCommand_def Let_def snd_bindS_br split: list.split)

lemma acceptMessage_br [simp]: "br (snd (acceptMessage impl allow msg st c)) = br c"
  by (simp add: acceptMessage_def snd_bindS_br split: sum.split)

lemma acceptMessage_contents:
  "(r, c') = acceptMessage impl allow msg st c \<Longrightarrow> connContents c' = connContents c"
  unfolding connContents_def by (metis acceptMessage_br snd_conv)

function acceptLoop :: "(f64 \<Rightarrow> int) \<Rightarrow> (bytes \<Rightarrow> bytes \<Rightarrow> bytes option) option \<Rightarrow> acceptState
    \<Rightarrow> conn \<Rightarrow> (sess_error + messageStream) \<times> conn" where
  "acceptLoop impl allow st c =
     (case readMessage c of
        (Inl e, c1) \<Rightarrow> (Inl (ConnErr e), c1)
      | (Inr msg, c1) \<Rightarrow>
          (case acceptMessage impl allow msg st c1 of
             (Inl e, c2) \<Rightarrow> (Inl e, c2)
           | (Inr (Accepted s), c2) \<Rightarrow> (Inr s, c2)
           | (Inr (Continue st'), c2) \<Rightarrow> acceptLoop impl allow st' c2))"
  by pat_completeness auto
termination
  by (relation "measure (\<lambda>(impl, allow, st, c). length (connContents c))")
    (auto dest!: readMessage_progress' dest: acceptMessage_contents)

declare acceptLoop.simps [simp del]

definition AcceptStreamFunc :: "(f64 \<Rightarrow> int) \<Rightarrow> (bytes \<Rightarrow> bytes \<Rightarrow> bytes option) option
    \<Rightarrow> conn \<Rightarrow> (sess_error + messageStream) \<times> conn" where
  "AcceptStreamFunc impl allow c = acceptLoop impl allow \<lparr>activeStreamID = 0, app = []\<rparr> c"

definition AcceptStream :: "(f64 \<Rightarrow> int) \<Rightarrow> conn \<Rightarrow> (sess_error + messageStream) \<times> conn" where
  "AcceptStream impl c = AcceptStreamFunc impl None c"


section \<open>The client's negotiation\<close>

definition connectObj :: "bytes \<Rightarrow> amf" where
  "connectObj a = Object [(str ''app'', Str a),
     (str ''audioCodecs'', F64 (f64_of_int (audioCodecFlagAAC OR audioCodecFlagMP3))),
     (str ''capabilities'', F64 (f64_of_int 239)),
     (str ''flashVer'', Str (str ''FMLE/3.0'')),
     (str ''fpad'', Bool False),
     (str ''objectEncoding'', F64 (f64_of_int 0)),
     (str ''tcUrl'', Str (str ''rtmp://localhost/'' @ a)),
     (str ''type'', Str (str ''nonprivate'')),
     (str ''videoCodecs'', F64 (f64_of_int videoCodecFlagH264)),
     (str ''videoFunction'', F64 (f64_of_int 1))]"

text \<open>
  The three wait loops have one shape: commands are read until one of them decides. \<open>decide\<close>
  gives the loop's verdict on a command, \<open>None\<close> to go on.
\<close>

lemma readNextCommand_progress:
  "readNextCommand impl c = (Inr cmd, c') \<Longrightarrow> length (connContents c') < length (connContents c)"
proof (induction impl c rule: readNextCommand.induct)
  case (1 impl c)
  obtain r c1 where rm: "readMessage c = (r, c1)" by (cases "readMessage c")
  show ?case
  proof (cases r)
    case (Inl e)
    with "1.prems" rm show ?thesis by (simp add: readNextCommand.simps [of impl c])
  next
    case (Inr msg)
    with rm have lt: "length (connContents c1) < length (connContents c)"
      by (simp add: readMessage_progress)
    obtain hr c2 where hc: "handleControlMessage msg c1 = (hr, c2)"
      by (cases "handleControlMessage msg c1")
    then have same: "connContents c2 = connContents c1"
      using handleControlMessage_contents by metis
    note run = readNextCommand.simps [of impl c] rm Inr hc
    show ?thesis
    proof (cases "isControlMessage (typeID msg)")
      case True
      with "1.prems" obtain u where hr: "hr = Inr u" by (cases hr) (simp_all add: run)
      with True "1.prems" have "readNextCommand impl c2 = (Inr cmd, c')" by (simp add: run)
      with "1.IH"(1) [OF rm [symmetric] Inr True hc [symmetric] hr] lt same show ?thesis by simp
    next
      case False
      then show ?thesis
        using "1.prems" "1.IH"(2) [OF rm [symmetric] Inr False] lt
        by (cases "isCommand msg") (auto simp: run)
    qed
  qed
qed

function waitLoop :: "(f64 \<Rightarrow> int) \<Rightarrow> (command \<Rightarrow> (sess_error + 'a) option) \<Rightarrow> conn
    \<Rightarrow> (sess_error + 'a) \<times> conn" where
  "waitLoop impl decide c =
     (case readNextCommand impl c of
        (Inl e, c1) \<Rightarrow> (Inl e, c1)
      | (Inr cmd, c1) \<Rightarrow> (case decide cmd of None \<Rightarrow> waitLoop impl decide c1 | Some r \<Rightarrow> (r, c1)))"
  by pat_completeness auto
termination
  by (relation "measure (\<lambda>(impl, decide, c). length (connContents c))")
    (auto dest: readNextCommand_progress [OF sym])

declare waitLoop.simps [simp del]

definition waitForResult :: "(f64 \<Rightarrow> int) \<Rightarrow> f64 \<Rightarrow> conn \<Rightarrow> (sess_error + unit) \<times> conn" where
  "waitForResult impl txID c = waitLoop impl (\<lambda>cmd.
     if cmdName cmd = commandMessageNameResult \<and> f64_eq (cmdTx cmd) txID then Some (Inr ())
     else if cmdName cmd = commandMessageNameError \<and> f64_eq (cmdTx cmd) txID
     then Some (Inl (ErrServerRejected txID))
     else None) c"

definition waitForStreamID :: "(f64 \<Rightarrow> int) \<Rightarrow> (f64 \<Rightarrow> u32) \<Rightarrow> f64 \<Rightarrow> conn \<Rightarrow> (sess_error + u32) \<times> conn" where
  "waitForStreamID impl impl32 txID c = waitLoop impl (\<lambda>cmd.
     if cmdName cmd = commandMessageNameResult \<and> f64_eq (cmdTx cmd) txID
        \<and> length (cmdArgs cmd) \<ge> 2 \<and> isFloat (cmdArgs cmd ! 1)
     then Some (Inr (f64_to_uint32 impl32 (asFloat (cmdArgs cmd ! 1))))
     else if cmdName cmd = commandMessageNameError \<and> f64_eq (cmdTx cmd) txID
     then Some (Inl ErrCreateStreamRejected)
     else None) c"

definition waitForOnStatus :: "(f64 \<Rightarrow> int) \<Rightarrow> conn \<Rightarrow> (sess_error + unit) \<times> conn" where
  "waitForOnStatus impl c = waitLoop impl (\<lambda>cmd.
     if cmdName cmd = commandMessageNameOnStatus then Some (Inr ()) else None) c"

definition OpenStream :: "(f64 \<Rightarrow> int) \<Rightarrow> (f64 \<Rightarrow> u32) \<Rightarrow> bytes \<Rightarrow> bytes \<Rightarrow> conn
    \<Rightarrow> (sess_error + messageStream) \<times> conn" where
  "OpenStream impl impl32 a streamKey c =
     bindS (sendCommand 0 commandMessageNameConnect (f64_of_int 1) [connectObj a] c) (\<lambda>_ c.
     bindS (waitForResult impl (f64_of_int 1) c) (\<lambda>_ c.
     bindS (sendCommand 0 commandMessageNameCreateStream (f64_of_int 2) [Nil] c) (\<lambda>_ c.
     bindS (waitForStreamID impl impl32 (f64_of_int 2) c) (\<lambda>sid c.
     bindS (sendCommand sid commandMessageNamePublish 0 [Nil, Str streamKey, Str (str ''live'')] c) (\<lambda>_ c.
     bindS (waitForOnStatus impl c) (\<lambda>_ c.
       (Inr \<lparr>sStreamID = sid, sApp = a, sStreamKey = streamKey\<rparr>, c)))))))"

section \<open>Frames\<close>

record frame =
  fType :: byte
  fTimestamp :: u32
  fData :: bytes

abbreviation (input) "FrameTypeAudio \<equiv> messageTypeAudio"
abbreviation (input) "FrameTypeVideo \<equiv> messageTypeVideo"
abbreviation (input) "FrameTypeMetadata \<equiv> messageTypeAMF0Data"

text \<open>The frame of a media message; other messages are skipped.\<close>

definition frameOf :: "rawMessage \<Rightarrow> frame option" where
  "frameOf msg =
     (if typeID msg = messageTypeAudio then
        Some \<lparr>fType = FrameTypeAudio, fTimestamp = msgTimestamp msg, fData = msgPayload msg\<rparr>
      else if typeID msg = messageTypeVideo then
        Some \<lparr>fType = FrameTypeVideo, fTimestamp = msgTimestamp msg, fData = msgPayload msg\<rparr>
      else if typeID msg = messageTypeAMF0Data \<or> typeID msg = messageTypeAMF3Data then
        Some \<lparr>fType = FrameTypeMetadata, fTimestamp = msgTimestamp msg, fData = msgPayload msg\<rparr>
      else None)"

function ReadFrame :: "messageStream \<Rightarrow> conn \<Rightarrow> (rtmp_error + frame) \<times> conn" where
  "ReadFrame s c =
     (case readMessage c of
        (Inl e, c1) \<Rightarrow> (Inl e, c1)
      | (Inr msg, c1) \<Rightarrow>
          if isControlMessage (typeID msg) then
            (case handleControlMessage msg c1 of
               (Inl e, c2) \<Rightarrow> (Inl e, c2)
             | (Inr _, c2) \<Rightarrow> ReadFrame s c2)
          else if streamID msg \<noteq> sStreamID s then ReadFrame s c1
          else (case frameOf msg of None \<Rightarrow> ReadFrame s c1 | Some f \<Rightarrow> (Inr f, c1)))"
  by pat_completeness auto
termination
  by (relation "measure (\<lambda>(s, c). length (connContents c))")
    (auto dest!: readMessage_progress' dest: handleControlMessage_contents)

declare ReadFrame.simps [simp del]

definition WriteFrame :: "messageStream \<Rightarrow> frame \<Rightarrow> conn \<Rightarrow> (sess_error + unit) \<times> conn" where
  "WriteFrame s f c =
     (if fType f = FrameTypeAudio then
        mapErrS ConnErr (writeRawMessage csidAudio
          \<lparr>typeID = messageTypeAudio, streamID = sStreamID s, msgTimestamp = fTimestamp f, msgPayload = fData f\<rparr> c)
      else if fType f = FrameTypeVideo then
        mapErrS ConnErr (writeRawMessage csidVideo
          \<lparr>typeID = messageTypeVideo, streamID = sStreamID s, msgTimestamp = fTimestamp f, msgPayload = fData f\<rparr> c)
      else if fType f = FrameTypeMetadata then
        mapErrS ConnErr (writeRawMessage csidCommand
          \<lparr>typeID = messageTypeAMF0Data, streamID = sStreamID s, msgTimestamp = fTimestamp f, msgPayload = fData f\<rparr> c)
      else (Inl (ErrUnsupportedFrameType (fType f)), c))"

text \<open>Closing the transport: every later write fails, and so does every later read from it.\<close>

definition closeConn :: "conn \<Rightarrow> conn" where
  "closeConn c = c\<lparr>room := Some 0, br := (br c)\<lparr>rd := \<lparr>segs = [], rerr = TransportError\<rparr>\<rparr>\<rparr>"

definition readerClose :: "messageStream \<Rightarrow> conn \<Rightarrow> conn" where
  "readerClose s c = closeConn (snd (sendStreamEOF (sStreamID s) c))"

definition writerClose :: "messageStream \<Rightarrow> conn \<Rightarrow> conn" where
  "writerClose s c = closeConn (snd (sendCommand 0 commandMessageNameDeleteStream 0
     [Nil, F64 (f64_of_int (uint (sStreamID s)))] c))"


section \<open>Commands survive the wire\<close>

definition carried :: "amf \<Rightarrow> bool" where
  "carried v \<longleftrightarrow> amfOk v \<and> amfDepth v \<le> maxDecodeDepth"

lemma Decode_nil: "Decode impl [] = Inl (IO EOF)"
  by (simp add: Decode_def decodeMarker_def readByte_def)

lemma carried_rt: "carried v \<Longrightarrow> \<exists>b. encodeValue v = Inr b \<and> (\<forall>impl r. Decode impl (b @ r) = Inr (amfNorm v, r))"
  unfolding carried_def using encode_rtOk [of v] Decode_rt by blast

lemma items_readArgs:
  assumes "\<forall>v \<in> set xs. carried v"
  shows "\<exists>b. encodeItems (map encodeValue xs) = Inr b \<and> (\<forall>impl. readArgs impl b = map amfNorm xs)"
  using assms
proof (induction xs)
  case Nil
  then show ?case by (simp add: readArgs.simps Decode_nil)
next
  case (Cons v xs)
  then obtain b where b: "encodeItems (map encodeValue xs) = Inr b"
    "\<forall>impl. readArgs impl b = map amfNorm xs" by auto
  from carried_rt [of v] Cons.prems obtain vb where
    vb: "encodeValue v = Inr vb" "\<forall>impl r. Decode impl (vb @ r) = Inr (amfNorm v, r)" by auto
  have "readArgs impl (vb @ b) = map amfNorm (v # xs)" for impl
    using b vb by (simp add: readArgs.simps [of impl "vb @ b"])
  with b vb show ?case by simp
qed

lemma carried_simps [simp]:
  "carried (Str s) \<longleftrightarrow> length s < 2 ^ 32" "carried (F64 x)" "carried Nil" "carried (Bool p)"
  by (simp_all add: carried_def)

lemma command_rt:
  assumes name: "length name < 2 ^ 32" and args: "\<forall>v \<in> set args. carried v"
  shows "\<exists>msg. commandMessage sid name t args = Inr msg \<and> isCommand msg
    \<and> \<not> isControlMessage (typeID msg) \<and> streamID msg = sid
    \<and> (\<forall>impl. readCommand impl msg = Inr \<lparr>cmdName = name, cmdTx = t, cmdArgs = map amfNorm args\<rparr>)"
proof -
  from carried_rt [of "Str name"] name obtain nb where
    nb: "encodeValue (Str name) = Inr nb" "\<And>impl r. Decode impl (nb @ r) = Inr (Str name, r)" by auto
  from carried_rt [of "F64 t"] obtain tb where
    tb: "encodeValue (F64 t) = Inr tb" "\<And>impl r. Decode impl (tb @ r) = Inr (F64 t, r)" by auto
  from items_readArgs [OF args] obtain ab where
    ab: "encodeItems (map encodeValue args) = Inr ab" "\<And>impl. readArgs impl ab = map amfNorm args" by auto
  let ?msg = "\<lparr>typeID = messageTypeAMF0Command, streamID = sid, msgTimestamp = 0, msgPayload = nb @ tb @ ab\<rparr>"
  have "commandMessage sid name t args = Inr ?msg"
    using nb(1) tb(1) ab(1) by (simp add: commandMessage_def del: encodeValue.simps)
  moreover have "readCommand impl ?msg = Inr \<lparr>cmdName = name, cmdTx = t, cmdArgs = map amfNorm args\<rparr>" for impl
    by (simp add: readCommand_def Let_def nb(2) tb(2) ab(2) asString_def asFloat_def)
  ultimately show ?thesis by (simp add: isCommand_def isControlMessage_def)
qed

section \<open>An open connection\<close>

definition connOpen :: "conn \<Rightarrow> bool" where
  "connOpen c \<longleftrightarrow> room c = None \<and> writeChunkSize c \<noteq> 0"

text \<open>\<open>c'\<close> is \<open>c\<close> after bytes were written to it.\<close>

definition wrote :: "conn \<Rightarrow> conn \<Rightarrow> bool" where
  "wrote c c' \<longleftrightarrow> (\<exists>bs. c' = c\<lparr>tx := tx c @ bs\<rparr>)"

lemma wrote_open: "wrote c c' \<Longrightarrow> connOpen c \<Longrightarrow> connOpen c'"
  by (auto simp: wrote_def connOpen_def)

lemma writeRawMessage_wrote:
  "connOpen c \<Longrightarrow> \<exists>c'. writeRawMessage csid msg c = (Inr (), c') \<and> wrote c c'"
  using writeRawMessage_open [of c csid msg] by (auto simp: connOpen_def wrote_def)

lemma sends_wrote:
  assumes "connOpen c"
  shows "\<exists>c'. sendWindowAckSize n c = (Inr (), c') \<and> wrote c c'"
    and "\<exists>c'. sendSetPeerBandwidth n l c = (Inr (), c') \<and> wrote c c'"
    and "\<exists>c'. sendSetChunkSize n c = (Inr (), c') \<and> wrote c c'"
    and "\<exists>c'. sendStreamBegin sid c = (Inr (), c') \<and> wrote c c'"
  using writeRawMessage_wrote [OF assms]
  by (simp_all add: sendWindowAckSize_def sendSetPeerBandwidth_def sendSetChunkSize_def
      sendStreamBegin_def sendUserControl_def)

lemma sendCommand_wrote:
  assumes "connOpen c" and "length name < 2 ^ 32" and "\<forall>v \<in> set args. carried v"
  shows "\<exists>c'. sendCommand sid name t args c = (Inr (), c') \<and> wrote c c'"
  using command_rt [OF assms(2,3), of sid t] writeRawMessage_wrote [OF assms(1)]
  by (fastforce simp: sendCommand_def)

text \<open>One message written by \<open>w\<close> is the next one its reader reads.\<close>

lemma write_read_one:
  assumes "connOpen w" and "csidOk csid" and "messageOk msg"
  shows "\<exists>bs. writeRawMessage csid msg w = (Inr (), w\<lparr>tx := tx w @ bs\<rparr>)
    \<and> (\<forall>c r. readerFor w c \<longrightarrow> connContents c = bs @ r \<longrightarrow>
        (\<exists>c'. readMessage c = (Inr msg, c') \<and> connContents c' = r \<and> sameSettings csid c c'))"
proof -
  from assms(1) have w: "room w = None" "writeChunkSize w \<noteq> 0" by (simp_all add: connOpen_def)
  from writeRawMessage_open [OF w] obtain bs where
    bs: "writeRawMessage csid msg w = (Inr (), w\<lparr>tx := tx w @ bs\<rparr>)"
    and ch: "writeChunks csid msg (of_nat (length (msgPayload msg))) (unat (writeChunkSize w)) 0 True
      = Inr bs" by blast
  have "\<exists>c'. readMessage c = (Inr msg, c') \<and> connContents c' = r \<and> sameSettings csid c c'"
    if "readerFor w c" "connContents c = bs @ r" for c r
    using that assms w by (intro readMessage_chunks [OF ch refl]) (auto simp: readerFor_def unat_gt_0)
  with bs show ?thesis by blast
qed


text \<open>A bound on the bytes a value takes.\<close>

fun amfSize :: "amf \<Rightarrow> nat" where
  "amfSize (Bool _) = 2"
| "amfSize (F64 _) = 9"
| "amfSize (F32 _) = 9"
| "amfSize (Integer _) = 9"
| "amfSize (Str s) = 5 + length s"
| "amfSize (Object m) = 4 + sum_list (map (\<lambda>e. 2 + length (fst e) + amfSize (snd e)) m)"
| "amfSize (ECMAArray m) = 8 + sum_list (map (\<lambda>e. 2 + length (fst e) + amfSize (snd e)) m)"
| "amfSize (StrictArray xs) = 5 + sum_list (map amfSize xs)"
| "amfSize (Date _) = 11"
| "amfSize _ = 1"

lemma encodeEntries_size:
  assumes "encodeEntries x (map fst es) = Inr bs"
    and "\<forall>e \<in> set es. x (fst e) = Some (encodeValue (snd e))"
    and "\<forall>e \<in> set es. \<forall>b. encodeValue (snd e) = Inr b \<longrightarrow> length b \<le> amfSize (snd e)"
  shows "length bs \<le> sum_list (map (\<lambda>e. 2 + length (fst e) + amfSize (snd e)) es)"
  using assms
proof (induction es arbitrary: bs)
  case Nil
  then show ?case by simp
next
  case (Cons e es)
  from Cons.prems(1,2) obtain kb vb rb where
    b: "writeUTF8 (fst e) = Inr kb" "encodeValue (snd e) = Inr vb"
      "encodeEntries x (map fst es) = Inr rb" "bs = kb @ vb @ rb" by (auto simp: bindE_Inr_iff)
  have "length kb = 2 + length (fst e)" using b(1) by (auto simp: writeUTF8_def split: if_splits)
  moreover have "length vb \<le> amfSize (snd e)" using Cons.prems(3) b(2) by simp
  moreover have "length rb \<le> sum_list (map (\<lambda>e. 2 + length (fst e) + amfSize (snd e)) es)"
    using Cons b(3) by simp
  ultimately show ?case using b(4) by simp
qed

lemma encodeObject_size:
  assumes "keysOk m" and "encodeEntries (map_of (map (\<lambda>(k, v). (k, encodeValue v)) m)) (sortedKeys m) = Inr bs"
    and "\<forall>e \<in> set m. \<forall>b. encodeValue (snd e) = Inr b \<longrightarrow> length b \<le> amfSize (snd e)"
  shows "length bs \<le> sum_list (map (\<lambda>e. 2 + length (fst e) + amfSize (snd e)) m)"
  using encodeEntries_size [OF assms(2) [unfolded sortedKeys_def keysOk_sort [OF assms(1)]] _ assms(3)]
    map_of_map_entry [OF assms(1)] by blast

lemma encodeItems_size:
  "encodeItems (map encodeValue xs) = Inr bs \<Longrightarrow>
   \<forall>v \<in> set xs. \<forall>b. encodeValue v = Inr b \<longrightarrow> length b \<le> amfSize v \<Longrightarrow>
   length bs \<le> sum_list (map amfSize xs)"
proof (induction xs arbitrary: bs)
  case (Cons v xs)
  from Cons.prems(1) obtain vb rb where "encodeValue v = Inr vb"
    "encodeItems (map encodeValue xs) = Inr rb" "bs = vb @ rb" by (auto simp: bindE_Inr_iff)
  with Cons.IH [of rb] Cons.prems(2) show ?case by fastforce
qed simp

lemma encode_size: "amfOk v \<Longrightarrow> \<forall>bs. encodeValue v = Inr bs \<longrightarrow> length bs \<le> amfSize v"
proof (induction v rule: encodeValue.induct)
  case (8 m)
  then have "\<forall>e \<in> set m. \<forall>b. encodeValue (snd e) = Inr b \<longrightarrow> length b \<le> amfSize (snd e)"
    by (fastforce simp: case_prod_unfold)
  with 8 show ?case by (auto simp: bindE_Inr_iff dest!: encodeObject_size [rotated])
next
  case (9 m)
  then have "\<forall>e \<in> set m. \<forall>b. encodeValue (snd e) = Inr b \<longrightarrow> length b \<le> amfSize (snd e)"
    by (fastforce simp: case_prod_unfold)
  with 9 show ?case by (auto simp: bindE_Inr_iff dest!: encodeObject_size [rotated])
next
  case (10 xs)
  then have "\<forall>v \<in> set xs. \<forall>b. encodeValue v = Inr b \<longrightarrow> length b \<le> amfSize v" by auto
  then show ?case by (auto simp: bindE_Inr_iff dest!: encodeItems_size)
qed (auto simp: encodeString_def)

text \<open>A command that fits one message, and what its reader makes of it.\<close>

definition commandOk :: "bytes \<Rightarrow> f64 \<Rightarrow> amf list \<Rightarrow> bool" where
  "commandOk name t args \<longleftrightarrow> (\<forall>v \<in> set args. carried v)
     \<and> sum_list (map amfSize (Str name # F64 t # args)) < 2 ^ 24"

lemma commandOk_payload:
  assumes "commandOk name t args" and "encodeItems (map encodeValue (Str name # F64 t # args)) = Inr p"
  shows "length p < 2 ^ 24"
proof -
  have "\<forall>v \<in> set (Str name # F64 t # args). amfOk v"
    using assms(1) by (auto simp: commandOk_def carried_def)
  then have "length p \<le> sum_list (map amfSize (Str name # F64 t # args))"
    using encodeItems_size [OF assms(2)] encode_size by blast
  with assms(1) show ?thesis by (simp add: commandOk_def)
qed

lemma csidCommand_ok [simp]: "csidOk csidCommand" "csidOk csidAudio" "csidOk csidVideo"
  by (simp_all add: csidOk_def)

definition readsCommand :: "conn \<Rightarrow> bytes \<Rightarrow> u32 \<Rightarrow> command \<Rightarrow> bool" where
  "readsCommand w bs sid cmd \<longleftrightarrow> (\<forall>c r. readerFor w c \<longrightarrow> connContents c = bs @ r \<longrightarrow>
     (\<exists>msg c'. readMessage c = (Inr msg, c') \<and> connContents c' = r \<and> sameSettings csidCommand c c'
        \<and> isCommand msg \<and> \<not> isControlMessage (typeID msg) \<and> streamID msg = sid
        \<and> (\<forall>impl. readCommand impl msg = Inr cmd)))"

lemma readsCommand_tx [simp]: "readsCommand (w\<lparr>tx := t\<rparr>) bs sid cmd = readsCommand w bs sid cmd"
  by (simp add: readsCommand_def)

lemma command_write_read:
  assumes w: "connOpen w" and ok: "commandOk name t args"
  shows "\<exists>bs. sendCommand sid name t args w = (Inr (), w\<lparr>tx := tx w @ bs\<rparr>)
    \<and> readsCommand w bs sid \<lparr>cmdName = name, cmdTx = t, cmdArgs = map amfNorm args\<rparr>"
proof -
  from ok have "length name < 2 ^ 32" "\<forall>v \<in> set args. carried v" by (auto simp: commandOk_def)
  from command_rt [OF this, of sid t] obtain msg where
    msg: "commandMessage sid name t args = Inr msg" "isCommand msg"
      "\<not> isControlMessage (typeID msg)" "streamID msg = sid"
      "\<forall>impl. readCommand impl msg = Inr \<lparr>cmdName = name, cmdTx = t, cmdArgs = map amfNorm args\<rparr>"
    by blast
  from msg(1) commandOk_payload [OF ok] have "messageOk msg"
    by (auto simp: commandMessage_def messageOk_def bindE_Inr_iff)
  from write_read_one [OF w csidCommand_ok(1) this] obtain bs where
    bs: "writeRawMessage csidCommand msg w = (Inr (), w\<lparr>tx := tx w @ bs\<rparr>)"
    and rd: "\<forall>c r. readerFor w c \<longrightarrow> connContents c = bs @ r \<longrightarrow>
        (\<exists>c'. readMessage c = (Inr msg, c') \<and> connContents c' = r \<and> sameSettings csidCommand c c')"
    by blast
  from bs msg(1) have "sendCommand sid name t args w = (Inr (), w\<lparr>tx := tx w @ bs\<rparr>)"
    by (simp add: sendCommand_def)
  with rd msg show ?thesis unfolding readsCommand_def by blast
qed

section \<open>The server's side of a negotiation\<close>

lemma wrote_trans: "wrote a b \<Longrightarrow> wrote b c \<Longrightarrow> wrote a c"
  by (auto simp: wrote_def)

text \<open>What the negotiation keeps of the connection while it answers.\<close>

definition answered :: "conn \<Rightarrow> conn \<Rightarrow> bool" where
  "answered c c' \<longleftrightarrow> connOpen c' \<and> br c' = br c \<and> readChunkSize c' = readChunkSize c
     \<and> readStates c' = readStates c \<and> nextStreamID c' = nextStreamID c"

lemma wrote_answered: "wrote c c' \<Longrightarrow> connOpen c \<Longrightarrow> answered c c'"
  by (auto simp: wrote_def answered_def connOpen_def)

lemma answered_trans: "answered a b \<Longrightarrow> answered b c \<Longrightarrow> answered a c"
  by (simp add: answered_def)

lemma connect_objects [simp]: "carried connectProps" "carried connectInfo" "carried statusDenied"
  by (simp_all add: carried_def connectProps_def connectInfo_def statusDenied_def
      str_def of_char_def maxDecodeDepth_def)

lemma statusStart_carried [simp]: "length p < 2 ^ 31 \<Longrightarrow> carried (statusStart p)"
  by (simp add: carried_def statusStart_def str_def of_char_def maxDecodeDepth_def)

lemma command_names_short [simp]:
  "length commandMessageNameResult < 2 ^ 32" "length commandMessageNameOnStatus < 2 ^ 32"
  by (simp_all add: command_names str_def)

lemma handleConnect_answers:
  assumes c: "connOpen c"
  shows "\<exists>c'. handleConnect t c = (Inr (), c') \<and> answered c c'"
proof -
  obtain c1 where 1: "sendWindowAckSize defaultWindowAckSize c = (Inr (), c1)" "wrote c c1"
    using sends_wrote(1) [OF c] by blast
  note o1 = wrote_open [OF 1(2) c]
  obtain c2 where 2: "sendSetPeerBandwidth defaultWindowAckSize 2 c1 = (Inr (), c2)" "wrote c1 c2"
    using sends_wrote(2) [OF o1] by blast
  note o2 = wrote_open [OF 2(2) o1]
  obtain c3 where 3: "sendSetChunkSize serverChunkSize c2 = (Inr (), c3)" "wrote c2 c3"
    using sends_wrote(3) [OF o2] by blast
  note o3 = wrote_open [OF 3(2) o2]
  let ?c3 = "c3\<lparr>writeChunkSize := serverChunkSize\<rparr>"
  have o3': "connOpen ?c3" using o3 by (simp add: connOpen_def)
  obtain c4 where 4: "sendStreamBegin 0 ?c3 = (Inr (), c4)" "wrote ?c3 c4"
    using sends_wrote(4) [OF o3'] by blast
  note o4 = wrote_open [OF 4(2) o3']
  obtain c5 where 5: "sendCommand 0 commandMessageNameResult t [connectProps, connectInfo] c4
      = (Inr (), c5)" "wrote c4 c5"
    using sendCommand_wrote [OF o4 command_names_short(1), of "[connectProps, connectInfo]"] by auto
  have "answered c ?c3"
    using wrote_answered [OF 1(2) c] wrote_answered [OF 2(2) o1] wrote_answered [OF 3(2) o2]
    by (simp add: answered_def connOpen_def)
  then have "answered c c5"
    using wrote_answered [OF 4(2) o3'] wrote_answered [OF 5(2) o4] answered_trans by blast
  with 1 2 3 4 5 show ?thesis by (simp add: handleConnect_def)
qed

lemma acceptPublish_answers:
  assumes c: "connOpen c" and key: "length key < 2 ^ 31"
    and cmd: "2 \<le> length (cmdArgs cmd)" "cmdArgs cmd ! 1 = Str key"
    and sid: "sid = (if streamID msg = 0 then activeStreamID st else streamID msg)"
    and allow: "allow = None \<or> (\<exists>f. allow = Some f \<and> f (app st) key = None)"
  shows "\<exists>c'. acceptPublish allow msg cmd st c
      = (Inr (Accepted \<lparr>sStreamID = sid, sApp = app st, sStreamKey = key\<rparr>), c') \<and> answered c c'"
proof -
  obtain c1 where 1: "sendStreamBegin sid c = (Inr (), c1)" "wrote c c1"
    using sends_wrote(4) [OF c] by blast
  note o1 = wrote_open [OF 1(2) c]
  obtain c2 where 2: "sendCommand sid commandMessageNameOnStatus 0 [Nil, statusStart key] c1
      = (Inr (), c2)" "wrote c1 c2"
    using sendCommand_wrote [OF o1 command_names_short(2), of "[Nil, statusStart key]"] key by auto
  have "answered c c2"
    using wrote_answered [OF 1(2) c] wrote_answered [OF 2(2) o1] answered_trans by blast
  with 1 2 cmd sid allow show ?thesis
    by (auto simp: acceptPublish_def Let_def asString_def)
qed

lemma acceptLoop_step:
  assumes "readMessage c = (Inr msg, c1)" and "\<not> isControlMessage (typeID msg)" and "isCommand msg"
    and "readCommand impl msg = Inr cmd"
  shows "acceptLoop impl allow st c =
    (case acceptCommand allow msg cmd st c1 of
       (Inl e, c2) \<Rightarrow> (Inl e, c2)
     | (Inr (Accepted s), c2) \<Rightarrow> (Inr s, c2)
     | (Inr (Continue st'), c2) \<Rightarrow> acceptLoop impl allow st' c2)"
  using assms by (simp add: acceptLoop.simps [of impl allow st c] acceptMessage_def)


text \<open>The three commands of a publishing client, in the order \<open>OpenStream\<close> sends them.\<close>

definition sendPublish :: "bytes \<Rightarrow> bytes \<Rightarrow> u32 \<Rightarrow> conn \<Rightarrow> (sess_error + unit) \<times> conn" where
  "sendPublish a key sid c =
     bindS (sendCommand 0 commandMessageNameConnect (f64_of_int 1) [connectObj a] c) (\<lambda>_ c.
     bindS (sendCommand 0 commandMessageNameCreateStream (f64_of_int 2) [Nil] c) (\<lambda>_ c.
     sendCommand sid commandMessageNamePublish 0 [Nil, Str key, Str (str ''live'')] c))"

definition publishOk :: "bytes \<Rightarrow> bytes \<Rightarrow> bool" where
  "publishOk a key \<longleftrightarrow> length key < 2 ^ 31
     \<and> commandOk commandMessageNameConnect (f64_of_int 1) [connectObj a]
     \<and> commandOk commandMessageNameCreateStream (f64_of_int 2) [Nil]
     \<and> commandOk commandMessageNamePublish 0 [Nil, Str key, Str (str ''live'')]"

lemma names_distinct [simp]:
  "commandMessageNameCreateStream \<noteq> commandMessageNameConnect"
  "commandMessageNameCreateStream \<noteq> commandMessageNameReleaseStream"
  "commandMessageNameCreateStream \<noteq> commandMessageNameFCPublish"
  "commandMessageNamePublish \<noteq> commandMessageNameConnect"
  "commandMessageNamePublish \<noteq> commandMessageNameReleaseStream"
  "commandMessageNamePublish \<noteq> commandMessageNameFCPublish"
  "commandMessageNamePublish \<noteq> commandMessageNameCreateStream"
  by (simp_all add: command_names str_inject)

lemma connectApp_connectObj [simp]: "connectApp (amfNorm (connectObj a)) b = a"
  by (simp add: connectApp_def connectObj_def asString_def)

lemma sendPublish_read:
  assumes w: "connOpen w" and ok: "publishOk a key"
  shows "\<exists>b1 b2 b3. sendPublish a key sid w = (Inr (), w\<lparr>tx := tx w @ b1 @ b2 @ b3\<rparr>)
    \<and> readsCommand w b1 0 \<lparr>cmdName = commandMessageNameConnect, cmdTx = f64_of_int 1,
         cmdArgs = [amfNorm (connectObj a)]\<rparr>
    \<and> readsCommand w b2 0 \<lparr>cmdName = commandMessageNameCreateStream, cmdTx = f64_of_int 2,
         cmdArgs = [Nil]\<rparr>
    \<and> readsCommand w b3 sid \<lparr>cmdName = commandMessageNamePublish, cmdTx = 0,
         cmdArgs = [Nil, Str key, Str (str ''live'')]\<rparr>"
proof -
  note oks = ok [unfolded publishOk_def]
  obtain b1 where 1: "sendCommand 0 commandMessageNameConnect (f64_of_int 1) [connectObj a] w
      = (Inr (), w\<lparr>tx := tx w @ b1\<rparr>)"
    "readsCommand w b1 0 \<lparr>cmdName = commandMessageNameConnect, cmdTx = f64_of_int 1,
         cmdArgs = map amfNorm [connectObj a]\<rparr>"
    using command_write_read [OF w] oks by blast
  let ?w1 = "w\<lparr>tx := tx w @ b1\<rparr>"
  have w1: "connOpen ?w1" using w by (simp add: connOpen_def)
  obtain b2 where 2: "sendCommand 0 commandMessageNameCreateStream (f64_of_int 2) [Nil] ?w1
      = (Inr (), ?w1\<lparr>tx := tx ?w1 @ b2\<rparr>)"
    "readsCommand ?w1 b2 0 \<lparr>cmdName = commandMessageNameCreateStream, cmdTx = f64_of_int 2,
         cmdArgs = map amfNorm [Nil]\<rparr>"
    using command_write_read [OF w1] oks by blast
  let ?w2 = "w\<lparr>tx := tx w @ b1 @ b2\<rparr>"
  have w2: "connOpen ?w2" using w by (simp add: connOpen_def)
  obtain b3 where 3: "sendCommand sid commandMessageNamePublish 0 [Nil, Str key, Str (str ''live'')] ?w2
      = (Inr (), ?w2\<lparr>tx := tx ?w2 @ b3\<rparr>)"
    "readsCommand ?w2 b3 sid \<lparr>cmdName = commandMessageNamePublish, cmdTx = 0,
         cmdArgs = map amfNorm [Nil, Str key, Str (str ''live'')]\<rparr>"
    using command_write_read [OF w2] oks by blast
  have "sendPublish a key sid w = (Inr (), w\<lparr>tx := tx w @ b1 @ b2 @ b3\<rparr>)"
    using 1(1) 2(1) 3(1) by (simp add: sendPublish_def)
  with 1(2) 2(2) 3(2) show ?thesis by auto
qed

lemma readerFor_open: "readerFor w c \<Longrightarrow> connOpen c"
  by (simp add: readerFor_def connOpen_def)

lemma readerFor_same: "readerFor w c \<Longrightarrow> sameSettings k c c' \<Longrightarrow> readerFor w c'"
  by (simp add: readerFor_def sameSettings_def)

lemma readerFor_answered: "readerFor w c \<Longrightarrow> answered c c' \<Longrightarrow> readerFor w c' \<and> connContents c' = connContents c"
  by (auto simp: readerFor_def answered_def connOpen_def connContents_def)


text \<open>What the negotiation loop does with the result of one command.\<close>

definition acceptNext :: "(f64 \<Rightarrow> int) \<Rightarrow> (bytes \<Rightarrow> bytes \<Rightarrow> bytes option) option
    \<Rightarrow> (sess_error + accept_result) \<times> conn \<Rightarrow> (sess_error + messageStream) \<times> conn" where
  "acceptNext impl allow x =
     (case x of
        (Inl e, c) \<Rightarrow> (Inl e, c)
      | (Inr (Accepted s), c) \<Rightarrow> (Inr s, c)
      | (Inr (Continue st), c) \<Rightarrow> acceptLoop impl allow st c)"

lemma readsCommandD:
  assumes "readsCommand w bs sid cmd" and "readerFor w c" and "connContents c = bs @ r"
  shows "\<exists>msg c'. connContents c' = r \<and> readerFor w c' \<and> nextStreamID c' = nextStreamID c
    \<and> streamID msg = sid \<and> acceptLoop impl allow st c = acceptNext impl allow (acceptCommand allow msg cmd st c')"
proof -
  from assms obtain msg c' where m: "readMessage c = (Inr msg, c')" "connContents c' = r"
      "sameSettings csidCommand c c'" "isCommand msg" "\<not> isControlMessage (typeID msg)"
      "streamID msg = sid" "\<forall>impl. readCommand impl msg = Inr cmd"
    unfolding readsCommand_def by blast
  with acceptLoop_step [OF m(1,5,4), of impl cmd allow st] readerFor_same [OF assms(2) m(3)]
  show ?thesis by (auto simp: sameSettings_def acceptNext_def)
qed

text \<open>The server's answers to the connect and createStream commands.\<close>

lemma accept_connect:
  assumes "readerFor w c"
  shows "\<exists>c'. acceptCommand allow msg \<lparr>cmdName = commandMessageNameConnect, cmdTx = t,
        cmdArgs = [amfNorm (connectObj a)]\<rparr> st c = (Inr (Continue (st\<lparr>app := a\<rparr>)), c')
    \<and> readerFor w c' \<and> connContents c' = connContents c \<and> nextStreamID c' = nextStreamID c"
proof -
  from handleConnect_answers [OF readerFor_open [OF assms], of t] obtain c' where
    c': "handleConnect t c = (Inr (), c')" "answered c c'" by blast
  with readerFor_answered [OF assms c'(2)] show ?thesis
    by (simp add: acceptCommand_def answered_def)
qed

lemma accept_create:
  assumes "readerFor w c"
  shows "\<exists>c'. acceptCommand allow msg \<lparr>cmdName = commandMessageNameCreateStream, cmdTx = t,
        cmdArgs = args\<rparr> st c = (Inr (Continue (st\<lparr>activeStreamID := nextStreamID c\<rparr>)), c')
    \<and> readerFor w c' \<and> connContents c' = connContents c \<and> nextStreamID c' = nextStreamID c + 1"
proof -
  let ?c = "c\<lparr>nextStreamID := nextStreamID c + 1\<rparr>"
  have c: "readerFor w ?c" "connContents ?c = connContents c"
    using assms by (simp_all add: readerFor_def connContents_def)
  note o = readerFor_open [OF c(1)]
  from sendCommand_wrote [OF o command_names_short(1),
      of "[Nil, F64 (f64_of_int (uint (nextStreamID c)))]" 0 t] obtain c' where
    c': "sendCommand 0 commandMessageNameResult t [Nil, F64 (f64_of_int (uint (nextStreamID c)))] ?c
      = (Inr (), c')" "wrote ?c c'" by auto
  from readerFor_answered [OF c(1) wrote_answered [OF c'(2) o]] c(2) c' wrote_answered [OF c'(2) o]
  show ?thesis by (simp add: acceptCommand_def Let_def answered_def)
qed

lemma connect_step:
  assumes "readsCommand w bs sid \<lparr>cmdName = commandMessageNameConnect, cmdTx = t,
      cmdArgs = [amfNorm (connectObj a)]\<rparr>" and "readerFor w c" and "connContents c = bs @ r"
  shows "\<exists>c'. acceptLoop impl allow st c = acceptLoop impl allow (st\<lparr>app := a\<rparr>) c' \<and> readerFor w c'
    \<and> connContents c' = r \<and> nextStreamID c' = nextStreamID c"
proof -
  from readsCommandD [OF assms, of impl allow st] obtain msg c1 where
    c1: "connContents c1 = r" "readerFor w c1" "nextStreamID c1 = nextStreamID c"
    and l: "acceptLoop impl allow st c = acceptNext impl allow (acceptCommand allow msg
      \<lparr>cmdName = commandMessageNameConnect, cmdTx = t, cmdArgs = [amfNorm (connectObj a)]\<rparr> st c1)"
    by blast
  from accept_connect [OF c1(2), of allow msg t a st] c1 l show ?thesis
    by (auto simp: acceptNext_def)
qed

lemma create_step:
  assumes "readsCommand w bs sid \<lparr>cmdName = commandMessageNameCreateStream, cmdTx = t, cmdArgs = args\<rparr>"
    and "readerFor w c" and "connContents c = bs @ r"
  shows "\<exists>c'. acceptLoop impl allow st c
      = acceptLoop impl allow (st\<lparr>activeStreamID := nextStreamID c\<rparr>) c' \<and> readerFor w c'
    \<and> connContents c' = r \<and> nextStreamID c' = nextStreamID c + 1"
proof -
  from readsCommandD [OF assms, of impl allow st] obtain msg c1 where
    c1: "connContents c1 = r" "readerFor w c1" "nextStreamID c1 = nextStreamID c"
    and l: "acceptLoop impl allow st c = acceptNext impl allow (acceptCommand allow msg
      \<lparr>cmdName = commandMessageNameCreateStream, cmdTx = t, cmdArgs = args\<rparr> st c1)" by blast
  from accept_create [OF c1(2), of allow msg t args st] c1 l show ?thesis
    by (auto simp: acceptNext_def)
qed

lemma publish_step:
  assumes "readsCommand w bs sid \<lparr>cmdName = commandMessageNamePublish, cmdTx = t,
      cmdArgs = [Nil, Str key, Str live]\<rparr>" and "readerFor w c" and "connContents c = bs @ r"
    and key: "length key < 2 ^ 31"
    and allow: "allow = None \<or> (\<exists>f. allow = Some f \<and> f (app st) key = None)"
  shows "\<exists>c'. acceptLoop impl allow st c
      = (Inr \<lparr>sStreamID = (if sid = 0 then activeStreamID st else sid), sApp = app st, sStreamKey = key\<rparr>, c')
    \<and> connContents c' = r \<and> readerFor w c'"
proof -
  let ?cmd = "\<lparr>cmdName = commandMessageNamePublish, cmdTx = t, cmdArgs = [Nil, Str key, Str live]\<rparr>"
  from readsCommandD [OF assms(1-3), of impl allow st] obtain msg c1 where
    c1: "connContents c1 = r" "readerFor w c1" "streamID msg = sid"
    and l: "acceptLoop impl allow st c = acceptNext impl allow (acceptCommand allow msg ?cmd st c1)"
    by blast
  from acceptPublish_answers [OF readerFor_open [OF c1(2)] key, of ?cmd _ msg st allow] allow
  obtain c2 where c2: "acceptPublish allow msg ?cmd st c1 = (Inr (Accepted
      \<lparr>sStreamID = (if streamID msg = 0 then activeStreamID st else streamID msg),
       sApp = app st, sStreamKey = key\<rparr>), c2)" "answered c1 c2" by auto
  from readerFor_answered [OF c1(2) c2(2)] c1 c2(1) l show ?thesis
    by (simp add: acceptNext_def acceptCommand_def)
qed

lemma accept_negotiates:
  assumes w: "connOpen w" and ok: "publishOk a key"
    and allow: "allow = None \<or> (\<exists>f. allow = Some f \<and> f a key = None)"
  shows "\<exists>bs. sendPublish a key sid w = (Inr (), w\<lparr>tx := tx w @ bs\<rparr>)
    \<and> (\<forall>c r. readerFor w c \<longrightarrow> connContents c = bs @ r \<longrightarrow>
        (\<exists>c'. AcceptStreamFunc impl allow c = (Inr \<lparr>sStreamID = (if sid = 0 then nextStreamID c else sid),
              sApp = a, sStreamKey = key\<rparr>, c') \<and> connContents c' = r \<and> readerFor w c'))"
proof -
  from sendPublish_read [OF w ok, of sid] obtain b1 b2 b3 where
    b: "sendPublish a key sid w = (Inr (), w\<lparr>tx := tx w @ b1 @ b2 @ b3\<rparr>)"
    and r1: "readsCommand w b1 0 \<lparr>cmdName = commandMessageNameConnect, cmdTx = f64_of_int 1,
         cmdArgs = [amfNorm (connectObj a)]\<rparr>"
    and r2: "readsCommand w b2 0 \<lparr>cmdName = commandMessageNameCreateStream, cmdTx = f64_of_int 2,
         cmdArgs = [Nil]\<rparr>"
    and r3: "readsCommand w b3 sid \<lparr>cmdName = commandMessageNamePublish, cmdTx = 0,
         cmdArgs = [Nil, Str key, Str (str ''live'')]\<rparr>" by blast
  have "\<exists>c'. AcceptStreamFunc impl allow c = (Inr \<lparr>sStreamID = (if sid = 0 then nextStreamID c else sid),
              sApp = a, sStreamKey = key\<rparr>, c') \<and> connContents c' = r \<and> readerFor w c'"
    if rc: "readerFor w c" and cc: "connContents c = (b1 @ b2 @ b3) @ r" for c r
  proof -
    let ?st0 = "\<lparr>activeStreamID = 0, app = []\<rparr>"
    let ?st1 = "\<lparr>activeStreamID = 0, app = a\<rparr>"
    let ?st2 = "\<lparr>activeStreamID = nextStreamID c, app = a\<rparr>"
    from cc have "connContents c = b1 @ (b2 @ b3 @ r)" by simp
    from connect_step [OF r1 rc this, of impl allow ?st0] obtain c1 where
      c1: "acceptLoop impl allow ?st0 c = acceptLoop impl allow ?st1 c1" "readerFor w c1"
        "connContents c1 = b2 @ b3 @ r" "nextStreamID c1 = nextStreamID c" by auto
    from create_step [OF r2 c1(2,3), of impl allow ?st1] c1(4) obtain c2 where
      c2: "acceptLoop impl allow ?st1 c1 = acceptLoop impl allow ?st2 c2" "readerFor w c2"
        "connContents c2 = b3 @ r" by auto
    have "length key < 2 ^ 31" using ok by (simp add: publishOk_def)
    from publish_step [OF r3 c2(2,3) this, of allow ?st2 impl] allow c1(1) c2(1)
    show ?thesis by (cases "sid = 0") (auto simp: AcceptStreamFunc_def)
  qed
  with b show ?thesis by (intro exI [of _ "b1 @ b2 @ b3"]) auto
qed


lemma sample_publishOk: "publishOk (str ''live'') (str ''key'')"
  by (simp add: publishOk_def commandOk_def connectObj_def command_names carried_def str_def of_char_def
      maxDecodeDepth_def)

definition sampleAllow :: "bytes \<Rightarrow> bytes \<Rightarrow> bytes option" where
  "sampleAllow a k = (if k = str ''key'' then None else Some a)"

lemma sample_accepts:
  "\<exists>bs c'. sendPublish (str ''live'') (str ''key'') 0 (sampleConn [])
       = (Inr (), (sampleConn [])\<lparr>tx := bs\<rparr>)
    \<and> AcceptStreamFunc (\<lambda>_. 0) (Some sampleAllow) (sampleConn [bs])
       = (Inr \<lparr>sStreamID = 1, sApp = str ''live'', sStreamKey = str ''key''\<rparr>, c')"
proof -
  have w: "connOpen (sampleConn [])" by (simp add: connOpen_def)
  have f: "Some sampleAllow = None \<or> (\<exists>f. Some sampleAllow = Some f \<and> f (str ''live'') (str ''key'') = None)"
    by (simp add: sampleAllow_def)
  from accept_negotiates [OF w sample_publishOk f, of 0 "\<lambda>_. 0"] obtain bs where
    bs: "sendPublish (str ''live'') (str ''key'') 0 (sampleConn [])
      = (Inr (), (sampleConn [])\<lparr>tx := tx (sampleConn []) @ bs\<rparr>)"
    and rd: "\<forall>c r. readerFor (sampleConn []) c \<longrightarrow> connContents c = bs @ r \<longrightarrow>
      (\<exists>c'. AcceptStreamFunc (\<lambda>_. 0) (Some sampleAllow) c
         = (Inr \<lparr>sStreamID = (if (0::u32) = 0 then nextStreamID c else 0),
              sApp = str ''live'', sStreamKey = str ''key''\<rparr>, c') \<and> connContents c' = r \<and> readerFor (sampleConn []) c')" by auto
  have "nextStreamID (sampleConn [bs]) = 1" by (simp add: sampleConn_def newConn_def)
  with rd [THEN spec, of "sampleConn [bs]"] bs show ?thesis by (auto simp: readerFor_def)
qed

section \<open>Properties\<close>

lemma acceptPublish_allowed:
  "acceptPublish (Some f) msg cmd st c = (Inr (Accepted s), c') \<Longrightarrow> f (sApp s) (sStreamKey s) = None"
  by (auto simp: acceptPublish_def Let_def bindS_Inr_iff split: option.splits)

lemma acceptMessage_allowed:
  "acceptMessage impl (Some f) msg st c = (Inr (Accepted s), c') \<Longrightarrow> f (sApp s) (sStreamKey s) = None"
  by (auto simp: acceptMessage_def acceptCommand_def Let_def bindS_Inr_iff
      dest: acceptPublish_allowed split: if_splits sum.splits list.splits)

text \<open>
  No stream is accepted past the check: if the negotiation ends with a stream, the check
  was asked about exactly its application name and stream key and accepted them, whatever the
  client sent.
\<close>

theorem accepted_stream_allowed:
  assumes "AcceptStreamFunc impl (Some f) c = (Inr s, c')"
  shows "f (sApp s) (sStreamKey s) = None"
proof -
  have "acceptLoop impl allow st c = (Inr s, c') \<Longrightarrow> allow = Some f \<Longrightarrow> f (sApp s) (sStreamKey s) = None"
    for allow st
  proof (induction impl allow st c rule: acceptLoop.induct)
    case (1 impl allow st c)
    then show ?case
      by (subst (asm) acceptLoop.simps)
        (auto dest: acceptMessage_allowed split: prod.splits sum.splits accept_result.splits)
  qed
  with assms show ?thesis by (simp add: AcceptStreamFunc_def)
qed

lemma statusDenied_ok: "commandOk commandMessageNameOnStatus 0 [Nil, statusDenied]"
  by (simp add: commandOk_def) (simp add: statusDenied_def command_names str_def)

text \<open>
  A refused publish is answered with a refusal only: the single thing the server writes is
  an \<open>onStatus\<close> command that its client reads as \<open>NetStream.Publish.Denied\<close> with the fixed
  description, so the reason, which may hold a credential, stays on this side.
\<close>

theorem denied_publish_answered:
  assumes "connOpen c" and "f (app st) key = Some why"
    and "key = (if length (cmdArgs cmd) \<ge> 2 then asString (cmdArgs cmd ! 1) else [])"
    and "sid = (if streamID msg = 0 then activeStreamID st else streamID msg)"
  shows "\<exists>bs. acceptPublish (Some f) msg cmd st c
      = (Inl (ErrPublishDenied why), c\<lparr>tx := tx c @ bs\<rparr>)
    \<and> readsCommand c bs sid \<lparr>cmdName = commandMessageNameOnStatus, cmdTx = 0, cmdArgs = [Nil, statusDenied]\<rparr>"
proof -
  from command_write_read [OF assms(1) statusDenied_ok, of sid] obtain bs where
    "sendCommand sid commandMessageNameOnStatus 0 [Nil, statusDenied] c = (Inr (), c\<lparr>tx := tx c @ bs\<rparr>)"
    "readsCommand c bs sid \<lparr>cmdName = commandMessageNameOnStatus, cmdTx = 0,
       cmdArgs = map amfNorm [Nil, statusDenied]\<rparr>" by blast
  moreover have "amfNorm statusDenied = statusDenied" by (simp add: statusDenied_def)
  ultimately show ?thesis
    using assms(2-4) by (intro exI [of _ bs]) (auto simp: acceptPublish_def Let_def)
qed

text \<open>
  C40: A client can crash the server: a connect command without arguments, whatever its
  transaction id, makes the negotiation index an empty argument list (a run-time panic in Go),
  before any check is consulted.
\<close>

theorem connect_without_arguments_panics:
  assumes w: "connOpen w"
  shows "\<exists>bs. sendCommand sid commandMessageNameConnect t [] w = (Inr (), w\<lparr>tx := tx w @ bs\<rparr>)
    \<and> (\<forall>c r. readerFor w c \<longrightarrow> connContents c = bs @ r \<longrightarrow>
         (\<exists>c'. AcceptStreamFunc impl allow c = (Inl IndexOutOfRange, c')))"
proof -
  have "commandOk commandMessageNameConnect t []"
    by (simp add: commandOk_def commandMessageNameConnect_def str_def)
  from command_write_read [OF w this, of sid] obtain bs where
    bs: "sendCommand sid commandMessageNameConnect t [] w = (Inr (), w\<lparr>tx := tx w @ bs\<rparr>)"
    "readsCommand w bs sid \<lparr>cmdName = commandMessageNameConnect, cmdTx = t, cmdArgs = []\<rparr>" by auto
  have "\<exists>c'. AcceptStreamFunc impl allow c = (Inl IndexOutOfRange, c')"
    if "readerFor w c" "connContents c = bs @ r" for c r
    using readsCommandD [OF bs(2) that, of impl allow "\<lparr>activeStreamID = 0, app = []\<rparr>"]
    by (auto simp: AcceptStreamFunc_def acceptNext_def acceptCommand_def)
  with bs(1) show ?thesis by blast
qed

theorem connect_without_arguments_panics_witness:
  "\<exists>bs c'. sendCommand 0 commandMessageNameConnect 0 [] (sampleConn []) = (Inr (), (sampleConn [])\<lparr>tx := bs\<rparr>)
    \<and> AcceptStreamFunc (\<lambda>_. 0) None (sampleConn [bs]) = (Inl IndexOutOfRange, c')"
proof -
  have w: "connOpen (sampleConn [])" by (simp add: connOpen_def)
  from connect_without_arguments_panics [OF w, of 0 0 "\<lambda>_. 0" None] obtain bs where
    bs: "sendCommand 0 commandMessageNameConnect 0 [] (sampleConn []) = (Inr (), (sampleConn [])\<lparr>tx := bs\<rparr>)"
    and rd: "\<And>c r. readerFor (sampleConn []) c \<Longrightarrow> connContents c = bs @ r \<Longrightarrow>
         \<exists>c'. AcceptStreamFunc (\<lambda>_. 0) None c = (Inl IndexOutOfRange, c')" by auto
  from rd [of "sampleConn [bs]" "[]"] bs show ?thesis by (auto simp: readerFor_def)
qed


definition frameOk :: "frame \<Rightarrow> bool" where
  "frameOk f \<longleftrightarrow> fType f \<in> {FrameTypeAudio, FrameTypeVideo, FrameTypeMetadata} \<and> length (fData f) < 2 ^ 24"

fun writeFrames :: "messageStream \<Rightarrow> frame list \<Rightarrow> conn \<Rightarrow> (sess_error + unit) \<times> conn" where
  "writeFrames s [] c = (Inr (), c)"
| "writeFrames s (f # fs) c = bindS (WriteFrame s f c) (\<lambda>_ c. writeFrames s fs c)"

fun readFrames :: "messageStream \<Rightarrow> nat \<Rightarrow> conn \<Rightarrow> (rtmp_error + frame list) \<times> conn" where
  "readFrames s 0 c = (Inr [], c)"
| "readFrames s (Suc k) c =
     bindS (ReadFrame s c) (\<lambda>f c. bindS (readFrames s k c) (\<lambda>fs c. (Inr (f # fs), c)))"

lemma frame_write_read:
  assumes w: "connOpen w" and f: "frameOk f"
  shows "\<exists>bs. WriteFrame s f w = (Inr (), w\<lparr>tx := tx w @ bs\<rparr>)
    \<and> (\<forall>c r. readerFor w c \<longrightarrow> connContents c = bs @ r \<longrightarrow>
         (\<exists>c'. ReadFrame s c = (Inr f, c') \<and> connContents c' = r \<and> readerFor w c'))"
proof -
  define csid where "csid = (if fType f = FrameTypeAudio then csidAudio
    else if fType f = FrameTypeVideo then csidVideo else csidCommand)"
  let ?msg = "\<lparr>typeID = fType f, streamID = sStreamID s, msgTimestamp = fTimestamp f, msgPayload = fData f\<rparr>"
  have "csidOk csid" by (simp add: csid_def)
  moreover have "messageOk ?msg" using f by (simp add: frameOk_def messageOk_def)
  ultimately obtain bs where
    bs: "writeRawMessage csid ?msg w = (Inr (), w\<lparr>tx := tx w @ bs\<rparr>)"
    and rd: "\<forall>c r. readerFor w c \<longrightarrow> connContents c = bs @ r \<longrightarrow>
        (\<exists>c'. readMessage c = (Inr ?msg, c') \<and> connContents c' = r \<and> sameSettings csid c c')"
    using write_read_one [OF w] by blast
  have "WriteFrame s f w = (Inr (), w\<lparr>tx := tx w @ bs\<rparr>)"
    using f bs by (auto simp: WriteFrame_def frameOk_def csid_def)
  moreover have "\<not> isControlMessage (fType f)" "frameOf ?msg = Some f"
    using f by (auto simp: frameOk_def isControlMessage_def frameOf_def)
  moreover have "ReadFrame s c = (Inr f, c')" if "readMessage c = (Inr ?msg, c')" for c c'
    using that calculation(2,3) by (simp add: ReadFrame.simps [of s c])
  ultimately show ?thesis using rd readerFor_same by blast
qed

lemma frames_write_read:
  assumes "connOpen w" and "\<forall>f \<in> set fs. frameOk f"
  shows "\<exists>bs. writeFrames s fs w = (Inr (), w\<lparr>tx := tx w @ bs\<rparr>)
    \<and> (\<forall>c r. readerFor w c \<longrightarrow> connContents c = bs @ r \<longrightarrow>
         (\<exists>c'. readFrames s (length fs) c = (Inr fs, c') \<and> connContents c' = r))"
  using assms
proof (induction fs arbitrary: w)
  case Nil
  then show ?case by (intro exI [of _ "[]"]) auto
next
  case (Cons f fs)
  from frame_write_read [OF Cons.prems(1), of f s] Cons.prems(2) obtain b1 where
    w1: "WriteFrame s f w = (Inr (), w\<lparr>tx := tx w @ b1\<rparr>)"
    and rd1: "\<forall>c r. readerFor w c \<longrightarrow> connContents c = b1 @ r \<longrightarrow>
       (\<exists>c'. ReadFrame s c = (Inr f, c') \<and> connContents c' = r \<and> readerFor w c')" by auto
  have "connOpen (w\<lparr>tx := tx w @ b1\<rparr>)" using Cons.prems(1) by (simp add: connOpen_def)
  from Cons.IH [OF this] Cons.prems(2) obtain b2 where
    w2: "writeFrames s fs (w\<lparr>tx := tx w @ b1\<rparr>) = (Inr (), w\<lparr>tx := tx w @ b1 @ b2\<rparr>)"
    and rd2: "\<forall>c r. readerFor w c \<longrightarrow> connContents c = b2 @ r \<longrightarrow>
       (\<exists>c'. readFrames s (length fs) c = (Inr fs, c') \<and> connContents c' = r)" by auto
  have "\<exists>c'. readFrames s (length (f # fs)) c = (Inr (f # fs), c') \<and> connContents c' = r"
    if c: "readerFor w c" "connContents c = (b1 @ b2) @ r" for c r
  proof -
    from rd1 c obtain c1 where c1: "ReadFrame s c = (Inr f, c1)" "connContents c1 = b2 @ r"
      "readerFor w c1" by auto
    with rd2 obtain c2 where "readFrames s (length fs) c1 = (Inr fs, c2)" "connContents c2 = r" by blast
    with c1 show ?thesis by simp
  qed
  with w1 w2 show ?case by (intro exI [of _ "b1 @ b2"]) auto
qed

text \<open>
  Frames survive the connection: every audio, video or metadata frame of less than 16 MiB
  is written without error, and the reader of the same message stream gets the frames back,
  with type, timestamp and data unchanged, in the order they were written. A frame of any other
  type is refused and writes nothing.
\<close>

theorem frames_roundtrip:
  assumes "connOpen w" and "\<forall>f \<in> set fs. frameOk f"
  shows "\<exists>bs. writeFrames s fs w = (Inr (), w\<lparr>tx := tx w @ bs\<rparr>)
    \<and> (\<forall>c r. readerFor w c \<longrightarrow> connContents c = bs @ r \<longrightarrow>
         (\<exists>c'. readFrames s (length fs) c = (Inr fs, c') \<and> connContents c' = r))
    \<and> (\<forall>f. fType f \<notin> {FrameTypeAudio, FrameTypeVideo, FrameTypeMetadata} \<longrightarrow>
         WriteFrame s f w = (Inl (ErrUnsupportedFrameType (fType f)), w))"
  using frames_write_read [OF assms] by (simp add: WriteFrame_def)

end
