(* ===== verification/Rtmp_Endpoint.thy ===== *)
theory Rtmp_Endpoint
  imports Rtmp_Session
begin

text \<open>
  Where connections come from: \<^verbatim>\<open>src/internal/rtmp/listener.go\<close> and \<^verbatim>\<open>dialer.go\<close>. The handshake
  reads and writes the network connection directly; the connection made afterwards reads it
  through a fresh buffer. A read deadline that expires is a read error of the network
  connection.
\<close>

definition ServerConn :: "u32 \<Rightarrow> bytes option \<Rightarrow> netconn \<Rightarrow> hs_error + conn" where
  "ServerConn now rnd transport =
     (case serverHandshake now rnd transport of
        (Inl e, _) \<Rightarrow> Inl e
      | (Inr _, t) \<Rightarrow> Inr (newConn (rx t) \<lparr>tx = tx t, room = room t\<rparr>))"

definition ClientConn :: "u32 \<Rightarrow> u32 \<Rightarrow> bytes option \<Rightarrow> netconn \<Rightarrow> hs_error + conn" where
  "ClientConn now now' rnd transport =
     (case clientHandshake now now' rnd transport of
        (Inl e, _) \<Rightarrow> Inl e
      | (Inr _, t) \<Rightarrow> Inr (newConn (rx t) \<lparr>tx = tx t, room = room t\<rparr>))"

text \<open>
  \<open>Accept\<close> over the network connections that arrive, each with the clock and random bytes of
  its handshake. It skips those whose handshake fails; at the end of the list the network
  listener returns an error.
\<close>

fun Accept :: "(u32 \<times> bytes option \<times> netconn) list \<Rightarrow> (conn \<times> (u32 \<times> bytes option \<times> netconn) list) option" where
  "Accept [] = None"
| "Accept ((now, rnd, transport) # ts) =
     (case ServerConn now rnd transport of Inl e \<Rightarrow> Accept ts | Inr c \<Rightarrow> Some (c, ts))"

lemma Accept_skips:
  "\<forall>(n, x, t) \<in> set bad. \<exists>e. ServerConn n x t = Inl e \<Longrightarrow> Accept (bad @ ts) = Accept ts"
  by (induction bad) auto

text \<open>After the handshake of a client the server has a fresh connection on what follows.\<close>

lemma ServerConn_ready:
  assumes "room s = None" and "length sr = 1528" "length cr = 1528"
    and "netContents s = clientHello ct cr @ handshakeReply st ct' sr @ rest"
  shows "\<exists>c. ServerConn st (Some sr) s = Inr c \<and> connContents c = rest \<and> nextStreamID c = 1
    \<and> (\<forall>x t. room t = None \<longrightarrow> readerFor (newConn x t) c)"
proof -
  let ?c2 = "\<lparr>receivedTimestamp = st, readTime = ct', echo = sr\<rparr>"
  from server_handshake_run [of s sr cr ?c2 "\<lparr>version = version3\<rparr>" ct rest st] assms obtain s' where
    s': "serverHandshake st (Some sr) s = (Inr (), s')" "netContents s' = rest"
      "room s' = None"
    by (auto simp: clientHello_def handshakeReply_def)
  then show ?thesis
    by (simp add: ServerConn_def newConn_def readerFor_def connContents_def netContents_def
        bufioContents_def)
qed

end
