(* ===== verification/Drop_Report.thy ===== *)
theory Drop_Report
  imports Prelude
begin

text \<open>
  The drop notifications of the relay: \<^verbatim>\<open>src/internal/relay/drop_distributor.go\<close>, a ring of the
  most recent \<^verbatim>\<open>SUBSCRIBE_DROP\<close> messages a track got from upstream, and
  \<^verbatim>\<open>src/internal/relay/drop_reporter.go\<close>, which tells one subscriber which groups it will not
  receive, each at most once. Group sequences are \<^verbatim>\<open>uint64\<close>: they are natural numbers here,
  with the wrap-around of \<open>+ 1\<close> written out where the code has it.
\<close>

section \<open>The ring of upstream drops\<close>

type_synonym groupSequence = nat

record subscribeDrop =
  StartGroup :: groupSequence
  EndGroup :: groupSequence
  ErrorCode :: nat

definition noDrop :: subscribeDrop where
  "noDrop = \<lparr>StartGroup = 0, EndGroup = 0, ErrorCode = 0\<rparr>"

text \<open>\<open>dropPos\<close> counts every drop ever recorded.\<close>

record dropDistributor =
  drops :: "subscribeDrop list"
  dropPos :: nat

definition dropRingSize :: nat where
  "dropRingSize = 64"

definition newDropDistributor :: "int \<Rightarrow> dropDistributor" where
  "newDropDistributor n =
     \<lparr>drops = replicate (if n \<le> 0 then dropRingSize else nat n) noDrop, dropPos = 0\<rparr>"

definition recordDrop :: "subscribeDrop \<Rightarrow> dropDistributor \<Rightarrow> dropDistributor" where
  "recordDrop d dd =
     (let pos = dropPos dd + 1
      in dd\<lparr>drops := (drops dd)[(pos - 1) mod length (drops dd) := d], dropPos := pos\<rparr>)"

definition dropHead :: "dropDistributor \<Rightarrow> nat" where
  "dropHead dd = dropPos dd"

definition oldest :: "dropDistributor \<Rightarrow> nat" where
  "oldest dd = (if dropPos dd > length (drops dd) then dropPos dd - length (drops dd) else 0)"

definition since :: "nat \<Rightarrow> subscribeDrop list \<Rightarrow> dropDistributor
    \<Rightarrow> subscribeDrop list \<times> nat \<times> nat" where
  "since lastPos buf dd =
     (let h = dropPos dd; n = length (drops dd)
      in if h \<le> lastPos then (buf, lastPos, 0)
         else let start = lastPos + 1;
                  late = (h > n \<and> start \<le> h - n);
                  lost = (if late then (h - n + 1) - start else 0);
                  start' = (if late then h - n + 1 else start)
              in (buf @ map (\<lambda>pos. drops dd ! ((pos - 1) mod n)) [start'..<h + 1], h, lost))"

subsection \<open>What a reader of the ring relies on\<close>

text \<open>
  A log with a bounded memory: \<open>history\<close> is everything ever recorded, \<open>first\<close> how much of its
  beginning is forgotten. Reading from a position returns what is still held after it and
  says how much was lost.
\<close>

locale bounded_log =
  fixes rec :: "'a \<Rightarrow> 's \<Rightarrow> 's"
    and read :: "nat \<Rightarrow> 's \<Rightarrow> 'a list \<times> nat \<times> nat"
    and history :: "'s \<Rightarrow> 'a list \<Rightarrow> bool"
    and first :: "'s \<Rightarrow> nat"
  assumes history_rec: "history s h \<Longrightarrow> history (rec x s) (h @ [x])"
    and first_le: "history s h \<Longrightarrow> first s \<le> length h"
    and first_mono: "history s h \<Longrightarrow> first s \<le> first (rec x s)"
    and read_spec: "history s h \<Longrightarrow> l \<le> length h \<Longrightarrow>
      read l s = (drop (max l (first s)) h, length h, first s - l)"
begin

lemma history_fold: "history s h \<Longrightarrow> history (fold rec xs s) (h @ xs)"
proof (induction xs arbitrary: s h)
  case (Cons x xs)
  from Cons.IH [OF history_rec [OF Cons.prems, of x]] show ?case by simp
qed simp

text \<open>
  A reader between records: \<open>Some x\<close> records \<open>x\<close>, \<open>None\<close> lets the reader read from where it
  was. The result is the final log, the reader's position, what it read and how much it lost.
\<close>

fun follow :: "'a option list \<Rightarrow> 's \<Rightarrow> nat \<Rightarrow> 's \<times> nat \<times> 'a list \<times> nat" where
  "follow [] s l = (s, l, [], 0)"
| "follow (Some x # es) s l = follow es (rec x s) l"
| "follow (None # es) s l =
     (let (xs, l', k) = read l s; (s', l'', ys, k') = follow es s l' in (s', l'', xs @ ys, k + k'))"

lemma follow_run:
  assumes "history s h" and "l \<le> length h"
  shows "\<exists>s' l' ys k. follow es s l = (s', l', ys, k) \<and> history s' (h @ [x. Some x \<leftarrow> es])
    \<and> l' \<le> length (h @ [x. Some x \<leftarrow> es]) \<and> length ys + k = l' - l \<and> l \<le> l'
    \<and> (k = 0 \<longrightarrow> ys = take (l' - l) (drop l (h @ [x. Some x \<leftarrow> es])))"
  using assms
proof (induction es arbitrary: s h l)
  case Nil
  then show ?case by simp
next
  case (Cons e es)
  show ?case
  proof (cases e)
    case (Some x)
    with Cons.IH [OF history_rec [OF Cons.prems(1)], of l x] Cons.prems(2) show ?thesis by simp
  next
    case None
    note rd = read_spec [OF Cons.prems]
    from Cons.IH [OF Cons.prems(1), of "length h"] obtain s' l' ys k where
      f: "follow es s (length h) = (s', l', ys, k)" "history s' (h @ [x. Some x \<leftarrow> es])"
        "l' \<le> length (h @ [x. Some x \<leftarrow> es])" "length ys + k = l' - length h" "length h \<le> l'"
        "k = 0 \<longrightarrow> ys = take (l' - length h) (drop (length h) (h @ [x. Some x \<leftarrow> es]))" by auto
    have "length (drop (max l (first s)) h) + (first s - l) = length h - l"
      using first_le [OF Cons.prems(1)] Cons.prems(2) by (simp add: max_def)
    moreover have "drop l h @ ys = take (l' - l) (drop l (h @ [x. Some x \<leftarrow> es]))" if "k = 0"
      using f(5,6) Cons.prems(2) that by simp
    moreover have "first s - l = 0 \<Longrightarrow> drop (max l (first s)) h = drop l h"
      by (simp add: max_def)
    ultimately show ?thesis using f Cons.prems(2) by (simp add: None rd)
  qed
qed

end

text \<open>The ring holds the last \<open>length drops\<close> entries of the history, each at its place.\<close>

definition dropHistory :: "dropDistributor \<Rightarrow> subscribeDrop list \<Rightarrow> bool" where
  "dropHistory dd h \<longleftrightarrow> drops dd \<noteq> [] \<and> dropPos dd = length h
     \<and> (\<forall>p < length h. length h \<le> p + length (drops dd) \<longrightarrow>
          drops dd ! (p mod length (drops dd)) = h ! p)"

lemma dropHistory_record:
  assumes "dropHistory dd h"
  shows "dropHistory (recordDrop d dd) (h @ [d])"
proof -
  let ?n = "length (drops dd)"
  have "(drops dd)[length h mod ?n := d] ! (p mod ?n) = (h @ [d]) ! p"
    if "p < length h + 1" "length h + 1 \<le> p + ?n" for p
  proof (cases "p = length h")
    case True
    then show ?thesis using assms by (simp add: dropHistory_def)
  next
    case False
    then have "p mod ?n \<noteq> length h mod ?n"
      using that mod_collision [of p ?n "length h"] by auto
    then show ?thesis using assms that False by (simp add: dropHistory_def nth_append)
  qed
  then show ?thesis using assms by (simp add: dropHistory_def recordDrop_def Let_def)
qed

lemma since_spec:
  assumes "dropHistory dd h" and "l \<le> length h"
  shows "since l buf dd = (buf @ drop (max l (oldest dd)) h, length h, oldest dd - l)"
proof -
  let ?n = "length (drops dd)"
  have pos: "dropPos dd = length h" and n: "0 < ?n" using assms by (auto simp: dropHistory_def)
  define k where "k = max l (oldest dd)"
  have "map (\<lambda>pos. drops dd ! ((pos - 1) mod ?n)) [k + 1..<length h + 1] = drop k h"
  proof (rule nth_equalityI)
    fix i
    assume "i < length (map (\<lambda>pos. drops dd ! ((pos - 1) mod ?n)) [k + 1..<length h + 1])"
    then have "k + i < length h" by (simp del: upt_Suc)
    moreover have "length h \<le> k + i + ?n" using pos by (auto simp: k_def oldest_def max_def)
    ultimately show "map (\<lambda>pos. drops dd ! ((pos - 1) mod ?n)) [k + 1..<length h + 1] ! i = drop k h ! i"
      using assms(1) by (simp add: dropHistory_def del: upt_Suc)
  qed (simp del: upt_Suc)
  moreover have "k + 1 = (if length h > ?n \<and> l + 1 \<le> length h - ?n then length h - ?n + 1 else l + 1)"
    by (simp add: k_def oldest_def pos)
  moreover have "oldest dd - l
      = (if length h > ?n \<and> l + 1 \<le> length h - ?n then (length h - ?n + 1) - (l + 1) else 0)"
    by (simp add: oldest_def pos)
  moreover have "length h = l \<Longrightarrow> drop k h = [] \<and> oldest dd - l = 0"
    by (simp add: k_def oldest_def pos)
  ultimately show ?thesis
    using assms(2) by (auto simp: since_def Let_def pos k_def [symmetric])
qed

interpretation drop_ring: bounded_log recordDrop "\<lambda>l dd. since l [] dd" dropHistory oldest
proof unfold_locales
  fix dd :: dropDistributor and h d l
  assume h: "dropHistory dd h"
  show "dropHistory (recordDrop d dd) (h @ [d])" by (rule dropHistory_record [OF h])
  show "oldest dd \<le> length h" using h by (simp add: oldest_def dropHistory_def)
  show "oldest dd \<le> oldest (recordDrop d dd)" by (auto simp: oldest_def recordDrop_def Let_def)
  show "l \<le> length h \<Longrightarrow> since l [] dd = (drop (max l (oldest dd)) h, length h, oldest dd - l)"
    using since_spec [OF h, of l "[]"] by simp
qed

lemma newDropDistributor_history: "dropHistory (newDropDistributor n) []"
  by (simp add: dropHistory_def newDropDistributor_def dropRingSize_def)


section \<open>The reporter of one subscriber\<close>

text \<open>An inclusive range of group sequences.\<close>

record groupSpan =
  gstart :: groupSequence
  gend :: groupSequence

text \<open>
  \<open>w\<close> is what was passed to \<open>DropGroups\<close>, in order; its error is ignored by the code. The
  shared \<open>dropDistributor\<close> is an argument of \<open>flush\<close>.
\<close>

record dropReporter =
  w :: "subscribeDrop list"
  rpos :: nat
  rbuf :: "subscribeDrop list"
  started :: bool
  rstart :: groupSequence
  handled :: "groupSpan list"

definition maxHandledSpans :: nat where
  "maxHandledSpans = 64"

definition seqSucc :: "groupSequence \<Rightarrow> groupSequence" where
  "seqSucc n = (n + 1) mod 2 ^ 64"

definition newDropReporter :: "dropDistributor \<Rightarrow> dropReporter" where
  "newDropReporter src = \<lparr>w = [], rpos = oldest src, rbuf = [], started = False, rstart = 0,
     handled = []\<rparr>"

text \<open>
  One pass of the loop of \<open>mergeSpans\<close>. The sort need not be stable: spans with equal starts
  end up in one span whatever their order.
\<close>

definition mergeStep :: "groupSpan list \<Rightarrow> groupSpan \<Rightarrow> groupSpan list" where
  "mergeStep out s =
     (if out \<noteq> [] \<and> gstart s \<le> seqSucc (gend (last out))
      then butlast out @ [(last out)\<lparr>gend := max (gend (last out)) (gend s)\<rparr>]
      else out @ [s])"

definition mergeSpans :: "groupSpan list \<Rightarrow> groupSpan list" where
  "mergeSpans spans = foldl mergeStep [] (sort_key gstart spans)"

definition addSpan :: "groupSpan \<Rightarrow> groupSpan list \<Rightarrow> groupSpan list" where
  "addSpan span hs =
     (if hs = [] \<or> gstart span > seqSucc (gend (last hs)) then hs @ [span]
      else if gstart span \<ge> gstart (last hs)
      then butlast hs @ [(last hs)\<lparr>gend := max (gend (last hs)) (gend span)\<rparr>]
      else mergeSpans (hs @ [span]))"

text \<open>Past the cap the two oldest spans are joined.\<close>

definition capSpans :: "groupSpan list \<Rightarrow> groupSpan list" where
  "capSpans hs =
     (if length hs > maxHandledSpans
      then (hs ! 1)\<lparr>gstart := gstart (hs ! 0)\<rparr> # drop 2 hs else hs)"

definition add :: "groupSpan \<Rightarrow> dropReporter \<Rightarrow> dropReporter" where
  "add span r = r\<lparr>handled := capSpans (addSpan span (handled r))\<rparr>"

fun unhandledLoop :: "groupSpan \<Rightarrow> groupSequence \<Rightarrow> groupSpan list \<Rightarrow> groupSpan list \<Rightarrow> groupSpan list" where
  "unhandledLoop span nxt out [] = out @ [\<lparr>gstart = nxt, gend = gend span\<rparr>]"
| "unhandledLoop span nxt out (s # ss) =
     (if gend s < nxt then unhandledLoop span nxt out ss
      else if gstart s > gend span then out @ [\<lparr>gstart = nxt, gend = gend span\<rparr>]
      else let out' = (if gstart s > nxt then out @ [\<lparr>gstart = nxt, gend = gstart s - 1\<rparr>] else out)
           in if gend s \<ge> gend span then out'
              else unhandledLoop span (seqSucc (gend s)) out' ss)"

definition unhandled :: "groupSpan \<Rightarrow> dropReporter \<Rightarrow> groupSpan list" where
  "unhandled span r = unhandledLoop span (gstart span) [] (handled r)"

definition sent :: "groupSequence \<Rightarrow> dropReporter \<Rightarrow> dropReporter" where
  "sent sq r =
     add \<lparr>gstart = sq, gend = sq\<rparr>
       (if started r then r else r\<lparr>started := True, rstart := sq\<rparr>)"

definition report :: "subscribeDrop \<Rightarrow> dropReporter \<Rightarrow> dropReporter" where
  "report d r =
     (if \<not> started r \<or> StartGroup d > EndGroup d \<or> EndGroup d < rstart r then r
      else let d' = d\<lparr>StartGroup := max (max (StartGroup d) (rstart r)) 1\<rparr>
           in if StartGroup d' > EndGroup d' then r
              else let span = \<lparr>gstart = StartGroup d', gend = EndGroup d'\<rparr>
                   in add span (r\<lparr>w := w r @ map (\<lambda>s. \<lparr>StartGroup = gstart s, EndGroup = gend s,
                        ErrorCode = ErrorCode d'\<rparr>) (unhandled span r)\<rparr>))"

definition reportSkipped :: "groupSequence \<Rightarrow> groupSequence \<Rightarrow> nat \<Rightarrow> dropReporter \<Rightarrow> dropReporter" where
  "reportSkipped nxt highest code r =
     (if \<not> started r then r
      else let r1 = (if nxt > rstart r
                     then report \<lparr>StartGroup = rstart r, EndGroup = nxt - 1, ErrorCode = code\<rparr> r
                     else r)
           in if highest > nxt
              then report \<lparr>StartGroup = seqSucc nxt, EndGroup = highest, ErrorCode = code\<rparr> r1
              else r1)"

definition flush :: "dropDistributor \<Rightarrow> dropReporter \<Rightarrow> dropReporter" where
  "flush src r =
     (if \<not> started r \<or> dropHead src = rpos r then r
      else let (buf, pos, lost) = since (rpos r) [] src
           in fold report buf (r\<lparr>rbuf := buf, rpos := pos\<rparr>))"

text \<open>\<^verbatim>\<open>slices.BinarySearchFunc\<close>, with the comparison of \<open>isHandled\<close>.\<close>

definition cmpSpan :: "groupSpan \<Rightarrow> groupSequence \<Rightarrow> int" where
  "cmpSpan s sq = (if gend s < sq then -1 else if gstart s > sq then 1 else 0)"

function searchLoop :: "groupSpan list \<Rightarrow> groupSequence \<Rightarrow> nat \<Rightarrow> nat \<Rightarrow> nat" where
  "searchLoop xs sq i j =
     (if i < j then
        let h = (i + j) div 2
        in if cmpSpan (xs ! h) sq < 0 then searchLoop xs sq (h + 1) j else searchLoop xs sq i h
      else i)"
  by pat_completeness auto
termination by (relation "measure (\<lambda>(xs, sq, i, j). j - i)") auto

declare searchLoop.simps [simp del]

definition isHandled :: "groupSequence \<Rightarrow> dropReporter \<Rightarrow> bool" where
  "isHandled sq r =
     (let i = searchLoop (handled r) sq 0 (length (handled r))
      in i < length (handled r) \<and> cmpSpan (handled r ! i) sq = 0)"

section \<open>Spans as sets\<close>

definition spanSet :: "groupSpan \<Rightarrow> groupSequence set" where
  "spanSet s = {gstart s..gend s}"

definition spansSet :: "groupSpan list \<Rightarrow> groupSequence set" where
  "spansSet hs = (\<Union>s \<in> set hs. spanSet s)"

lemma spansSet_simps [simp]:
  "spansSet [] = {}" "spansSet (s # hs) = spanSet s \<union> spansSet hs"
  "spansSet (hs @ ks) = spansSet hs \<union> spansSet ks"
  by (auto simp: spansSet_def)

text \<open>A usable span: not empty, and its end is not the last \<^verbatim>\<open>uint64\<close>.\<close>

definition spanOk :: "groupSpan \<Rightarrow> bool" where
  "spanOk s \<longleftrightarrow> gstart s \<le> gend s \<and> gend s < 2 ^ 64 - 1"

definition apart :: "groupSpan \<Rightarrow> groupSpan \<Rightarrow> bool" where
  "apart a b \<longleftrightarrow> gend a + 1 < gstart b"

definition spansOk :: "groupSpan list \<Rightarrow> bool" where
  "spansOk hs \<longleftrightarrow> sorted_wrt apart hs \<and> (\<forall>s \<in> set hs. spanOk s)"

lemma spansOk_simps [simp]:
  "spansOk []"
  "spansOk (s # hs) \<longleftrightarrow> spanOk s \<and> (\<forall>t \<in> set hs. apart s t) \<and> spansOk hs"
  "spansOk (hs @ ks) \<longleftrightarrow> spansOk hs \<and> spansOk ks \<and> (\<forall>s \<in> set hs. \<forall>t \<in> set ks. apart s t)"
  by (auto simp: spansOk_def sorted_wrt_append)

lemma seqSucc_ok [simp]: "spanOk s \<Longrightarrow> seqSucc (gend s) = gend s + 1"
  by (simp add: seqSucc_def spanOk_def)

lemma spansOk_last:
  assumes "spansOk hs" and "hs \<noteq> []"
  obtains hs' t where "hs = hs' @ [t]" and "spansOk hs'" and "spanOk t"
    and "\<forall>s \<in> set hs'. apart s t"
  using assms by (cases hs rule: rev_cases) auto

subsection \<open>Merging\<close>

lemma extend_last:
  assumes ok: "spansOk (hs @ [t])" and s: "spanOk s"
    and "gstart t \<le> gstart s" and "gstart s \<le> gend t + 1"
  shows "spansOk (hs @ [t\<lparr>gend := max (gend t) (gend s)\<rparr>])"
    and "spansSet (hs @ [t\<lparr>gend := max (gend t) (gend s)\<rparr>]) = spansSet (hs @ [t]) \<union> spanSet s"
proof -
  show "spansOk (hs @ [t\<lparr>gend := max (gend t) (gend s)\<rparr>])"
    using ok s by (auto simp: spanOk_def apart_def max_def)
  have "spanSet (t\<lparr>gend := max (gend t) (gend s)\<rparr>) = spanSet t \<union> spanSet s"
    using assms by (auto simp: spanSet_def spanOk_def max_def)
  then show "spansSet (hs @ [t\<lparr>gend := max (gend t) (gend s)\<rparr>]) = spansSet (hs @ [t]) \<union> spanSet s"
    by auto
qed

lemma mergeStep_ok:
  assumes "spansOk out" and "spanOk s" and "out \<noteq> [] \<longrightarrow> gstart (last out) \<le> gstart s"
  shows "spansOk (mergeStep out s) \<and> spansSet (mergeStep out s) = spansSet out \<union> spanSet s
    \<and> gstart (last (mergeStep out s)) \<le> gstart s \<and> mergeStep out s \<noteq> []"
proof (cases "out = []")
  case True
  then show ?thesis using assms by (simp add: mergeStep_def)
next
  case False
  then obtain hs t where out: "out = hs @ [t]" and t: "spanOk t" "\<forall>u \<in> set hs. apart u t"
    using spansOk_last [OF assms(1)] by metis
  show ?thesis
  proof (cases "gstart s \<le> gend t + 1")
    case True
    with extend_last [of hs t s] assms out t show ?thesis by (auto simp: mergeStep_def)
  next
    case False
    then have "\<forall>u \<in> set (hs @ [t]). apart u s"
      using t by (auto simp: apart_def spanOk_def)
    with False assms out t show ?thesis by (auto simp: mergeStep_def)
  qed
qed

lemma mergeFold_ok:
  "sorted (map gstart ss) \<Longrightarrow> \<forall>s \<in> set ss. spanOk s \<Longrightarrow> spansOk out \<Longrightarrow>
   (out \<noteq> [] \<longrightarrow> (\<forall>s \<in> set ss. gstart (last out) \<le> gstart s)) \<Longrightarrow>
   spansOk (foldl mergeStep out ss) \<and> spansSet (foldl mergeStep out ss) = spansSet out \<union> spansSet ss"
proof (induction ss arbitrary: out)
  case Nil
  then show ?case by simp
next
  case (Cons s ss)
  have "spansOk (mergeStep out s) \<and> spansSet (mergeStep out s) = spansSet out \<union> spanSet s
    \<and> gstart (last (mergeStep out s)) \<le> gstart s \<and> mergeStep out s \<noteq> []"
    using Cons.prems by (intro mergeStep_ok) auto
  with Cons.IH [of "mergeStep out s"] Cons.prems show ?case by force
qed

lemma mergeSpans_ok:
  assumes "\<forall>s \<in> set ss. spanOk s"
  shows "spansOk (mergeSpans ss)" and "spansSet (mergeSpans ss) = spansSet ss"
proof -
  have "spansSet (sort_key gstart ss) = spansSet ss" by (simp add: spansSet_def)
  with mergeFold_ok [of "sort_key gstart ss" "[]"] assms
  show "spansOk (mergeSpans ss)" and "spansSet (mergeSpans ss) = spansSet ss"
    by (simp_all add: mergeSpans_def)
qed

lemma addSpan_ok:
  assumes ok: "spansOk hs" and s: "spanOk s"
  shows "spansOk (addSpan s hs) \<and> spansSet (addSpan s hs) = spansSet hs \<union> spanSet s"
proof (cases "hs = []")
  case True
  then show ?thesis using s by (simp add: addSpan_def)
next
  case False
  then obtain ks t where hs: "hs = ks @ [t]" and t: "spanOk t" "\<forall>u \<in> set ks. apart u t"
    using spansOk_last [OF ok] by metis
  consider (after) "gstart s > gend t + 1" | (last) "gstart t \<le> gstart s" "gstart s \<le> gend t + 1"
    | (before) "gstart s < gstart t" by linarith
  then show ?thesis
  proof cases
    case after
    then have "\<forall>u \<in> set (ks @ [t]). apart u s"
      using t by (auto simp: apart_def spanOk_def)
    with after ok s t hs show ?thesis by (auto simp: addSpan_def)
  next
    case last
    with extend_last [of ks t s] ok s t hs show ?thesis by (auto simp: addSpan_def)
  next
    case before
    have "\<forall>u \<in> set (hs @ [s]). spanOk u" using ok s by (auto simp: spansOk_def)
    from mergeSpans_ok [OF this] before t hs show ?thesis by (auto simp: addSpan_def spanOk_def)
  qed
qed


lemma mergeStep_length: "length (mergeStep out s) \<le> Suc (length out)"
  by (cases out rule: rev_cases) (auto simp: mergeStep_def)

lemma mergeFold_length: "length (foldl mergeStep out ss) \<le> length out + length ss"
proof (induction ss arbitrary: out)
  case (Cons s ss)
  from Cons [of "mergeStep out s"] mergeStep_length [of out s] show ?case by simp
qed simp

lemma addSpan_length: "length (addSpan s hs) \<le> Suc (length hs)"
  using mergeFold_length [of "[]" "sort_key gstart (hs @ [s])"]
  by (cases hs rule: rev_cases) (auto simp: addSpan_def mergeSpans_def)

lemma capSpans_ok:
  assumes "spansOk hs" and "length hs \<le> Suc maxHandledSpans"
  shows "spansOk (capSpans hs) \<and> spansSet hs \<subseteq> spansSet (capSpans hs)
    \<and> length (capSpans hs) \<le> maxHandledSpans
    \<and> (length hs \<le> maxHandledSpans \<longrightarrow> capSpans hs = hs)"
proof (cases "length hs > maxHandledSpans")
  case True
  then obtain a b ks where hs: "hs = a # b # ks"
    by (cases hs; cases "tl hs") (auto simp: maxHandledSpans_def)
  from assms(1) have ab: "spanOk a" "spanOk b" "apart a b" by (auto simp: hs)
  have cap: "capSpans hs = b\<lparr>gstart := gstart a\<rparr> # ks" using True by (simp add: capSpans_def hs)
  have "spansOk (capSpans hs)"
    unfolding cap using assms(1) ab by (auto simp: hs spanOk_def apart_def)
  moreover have "spanSet a \<union> spanSet b \<subseteq> spanSet (b\<lparr>gstart := gstart a\<rparr>)"
    using ab by (auto simp: spanSet_def spanOk_def apart_def)
  then have "spansSet hs \<subseteq> spansSet (capSpans hs)" unfolding cap by (auto simp: hs)
  moreover have "length (capSpans hs) \<le> maxHandledSpans"
    unfolding cap using assms(2) by (simp add: hs)
  ultimately show ?thesis using True by auto
next
  case False
  then show ?thesis using assms by (auto simp: capSpans_def)
qed

section \<open>Invariant of the reporter\<close>

definition handledSet :: "dropReporter \<Rightarrow> groupSequence set" where
  "handledSet r = spansSet (handled r)"

definition reporterOk :: "dropReporter \<Rightarrow> bool" where
  "reporterOk r \<longleftrightarrow> spansOk (handled r) \<and> length (handled r) \<le> maxHandledSpans"

lemma add_ok:
  assumes ok: "reporterOk r" and s: "spanOk s"
  shows "reporterOk (add s r) \<and> handledSet r \<union> spanSet s \<subseteq> handledSet (add s r)
    \<and> length (handled (add s r)) \<le> Suc (length (handled r))
    \<and> (length (handled r) < maxHandledSpans \<longrightarrow> handledSet (add s r) = handledSet r \<union> spanSet s)"
proof -
  let ?hs = "addSpan s (handled r)"
  from ok s have a: "spansOk ?hs" "spansSet ?hs = handledSet r \<union> spanSet s"
    using addSpan_ok [of "handled r" s] by (simp_all add: reporterOk_def handledSet_def)
  have len: "length ?hs \<le> Suc (length (handled r))" by (rule addSpan_length)
  with ok have "length ?hs \<le> Suc maxHandledSpans" by (simp add: reporterOk_def)
  note cap = capSpans_ok [OF a(1) this]
  from cap a len show ?thesis
    by (auto simp: reporterOk_def add_def handledSet_def)
qed

subsection \<open>Membership by binary search\<close>

lemma spansOk_nth:
  "spansOk hs \<Longrightarrow> i < j \<Longrightarrow> j < length hs \<Longrightarrow> gend (hs ! i) + 1 < gstart (hs ! j)"
  by (auto simp: spansOk_def apart_def sorted_wrt_iff_nth_less)

lemma spansOk_nth_ok: "spansOk hs \<Longrightarrow> i < length hs \<Longrightarrow> gstart (hs ! i) \<le> gend (hs ! i)"
  by (auto simp: spansOk_def spanOk_def)

lemma searchLoop_spec:
  assumes "spansOk hs" and "j \<le> length hs" and "i \<le> j"
    and "\<forall>k < i. gend (hs ! k) < sq" and "\<forall>k < length hs. j \<le> k \<longrightarrow> sq \<le> gend (hs ! k)"
  shows "\<exists>m. searchLoop hs sq i j = m \<and> m \<le> length hs
    \<and> (\<forall>k < m. gend (hs ! k) < sq) \<and> (\<forall>k < length hs. m \<le> k \<longrightarrow> sq \<le> gend (hs ! k))"
  using assms
proof (induction hs sq i j rule: searchLoop.induct)
  case (1 hs sq i j)
  show ?case
  proof (cases "i < j")
    case False
    with "1.prems" show ?thesis by (subst searchLoop.simps) auto
  next
    case True
    define h where "h = (i + j) div 2"
    have h: "i \<le> h" "h < j" "h < length hs" using True "1.prems" by (auto simp: h_def)
    have mono: "gend (hs ! k) \<le> gend (hs ! k')" if "k \<le> k'" "k' < length hs" for k k'
      using spansOk_nth [OF "1.prems"(1), of k k'] spansOk_nth_ok [OF "1.prems"(1) that(2)] that
      by (cases "k = k'") auto
    show ?thesis
    proof (cases "cmpSpan (hs ! h) sq < 0")
      case True
      then have "gend (hs ! h) < sq" by (simp add: cmpSpan_def split: if_splits)
      then have "\<forall>k < h + 1. gend (hs ! k) < sq"
        using mono h by (metis le_less_trans less_Suc_eq_le Suc_eq_plus1)
      with "1.IH"(1) [OF \<open>i < j\<close> h_def True] "1.prems" h \<open>i < j\<close> True
      show ?thesis by (subst searchLoop.simps) (simp add: Let_def h_def [symmetric])
    next
      case False
      then have "sq \<le> gend (hs ! h)" by (simp add: cmpSpan_def split: if_splits)
      then have "\<forall>k < length hs. h \<le> k \<longrightarrow> sq \<le> gend (hs ! k)"
        using mono by (meson order_trans)
      with "1.IH"(2) [OF \<open>i < j\<close> h_def False] "1.prems" h \<open>i < j\<close> False
      show ?thesis by (subst searchLoop.simps) (simp add: Let_def h_def [symmetric])
    qed
  qed
qed

lemma isHandled_iff:
  assumes "spansOk (handled r)"
  shows "isHandled sq r \<longleftrightarrow> sq \<in> handledSet r"
proof -
  let ?hs = "handled r"
  from searchLoop_spec [OF assms, of "length ?hs" 0 sq] obtain m where
    m: "searchLoop ?hs sq 0 (length ?hs) = m" "m \<le> length ?hs" "\<forall>k < m. gend (?hs ! k) < sq"
      "\<forall>k < length ?hs. m \<le> k \<longrightarrow> sq \<le> gend (?hs ! k)" by auto
  have "sq \<in> handledSet r \<longleftrightarrow> (\<exists>k < length ?hs. gstart (?hs ! k) \<le> sq \<and> sq \<le> gend (?hs ! k))"
    by (force simp: handledSet_def spansSet_def spanSet_def in_set_conv_nth)
  also have "\<dots> \<longleftrightarrow> m < length ?hs \<and> gstart (?hs ! m) \<le> sq"
  proof
    assume "\<exists>k < length ?hs. gstart (?hs ! k) \<le> sq \<and> sq \<le> gend (?hs ! k)"
    then obtain k where k: "k < length ?hs" "gstart (?hs ! k) \<le> sq" "sq \<le> gend (?hs ! k)" by blast
    with m(3) have "m \<le> k" by (meson not_le)
    moreover have "\<not> m < k"
    proof
      assume "m < k"
      with m(4) k have "sq \<le> gend (?hs ! m)" by simp
      with spansOk_nth [OF assms \<open>m < k\<close> k(1)] k(2) show False by simp
    qed
    ultimately show "m < length ?hs \<and> gstart (?hs ! m) \<le> sq" using k by simp
  next
    assume "m < length ?hs \<and> gstart (?hs ! m) \<le> sq"
    with m(4) show "\<exists>k < length ?hs. gstart (?hs ! k) \<le> sq \<and> sq \<le> gend (?hs ! k)" by auto
  qed
  also have "\<dots> \<longleftrightarrow> isHandled sq r"
    using m(4) by (auto simp: isHandled_def Let_def m(1) cmpSpan_def split: if_splits)
  finally show ?thesis by simp
qed

subsection \<open>The unhandled parts of a span\<close>

definition partsOk :: "groupSequence \<Rightarrow> groupSpan list \<Rightarrow> bool" where
  "partsOk nxt ps \<longleftrightarrow> sorted_wrt (\<lambda>a b. gend a < gstart b) ps
     \<and> (\<forall>p \<in> set ps. nxt \<le> gstart p \<and> gstart p \<le> gend p)"

lemma spansSet_after: "spansOk (s # hs) \<Longrightarrow> x \<in> spansSet hs \<Longrightarrow> gend s < x"
  by (auto simp: spansSet_def spanSet_def apart_def)

lemma unhandledLoop_spec:
  assumes "spansOk hs" and "nxt \<le> gend span"
  shows "\<exists>ps. unhandledLoop span nxt out hs = out @ ps
     \<and> spansSet ps = {nxt..gend span} - spansSet hs \<and> partsOk nxt ps"
  using assms
proof (induction hs arbitrary: nxt out)
  case Nil
  then show ?case by (simp add: spanSet_def partsOk_def)
next
  case (Cons s hs)
  note ok = Cons.prems(1)
  have s: "spanOk s" and hs: "spansOk hs" using ok by auto
  note later = spansSet_after [OF ok]
  let ?pre = "if gstart s > nxt then [\<lparr>gstart = nxt, gend = gstart s - 1\<rparr>] else []"
  have pre: "spansSet ?pre = {nxt..<gstart s}" by (auto simp: spanSet_def)
  consider (past) "gend s < nxt" | (beyond) "nxt \<le> gend s" "gend span < gstart s"
    | (covers) "nxt \<le> gend s" "gstart s \<le> gend span" "gend span \<le> gend s"
    | (inside) "nxt \<le> gend s" "gstart s \<le> gend span" "gend s < gend span" by linarith
  then show ?case
  proof cases
    case past
    then have "{nxt..gend span} - spansSet (s # hs) = {nxt..gend span} - spansSet hs"
      by (auto simp: spanSet_def)
    with past Cons.IH [OF hs Cons.prems(2)] show ?thesis by simp
  next
    case beyond
    then have "{nxt..gend span} - spansSet (s # hs) = {nxt..gend span}"
      using later s by (fastforce simp: spanSet_def spanOk_def)
    with beyond Cons.prems(2) show ?thesis by (simp add: partsOk_def spanSet_def)
  next
    case covers
    then have "{nxt..gend span} - spansSet (s # hs) = {nxt..<gstart s}"
      using later by (fastforce simp: spanSet_def)
    with covers pre show ?thesis
      by (intro exI [of _ ?pre]) (auto simp: Let_def partsOk_def)
  next
    case inside
    from Cons.IH [OF hs, of "gend s + 1" "out @ ?pre"] inside obtain ps where
      ps: "unhandledLoop span (gend s + 1) (out @ ?pre) hs = out @ ?pre @ ps"
        "spansSet ps = {gend s + 1..gend span} - spansSet hs" "partsOk (gend s + 1) ps" by auto
    have "{nxt..gend span} - spansSet (s # hs) = {nxt..<gstart s} \<union> ({gend s + 1..gend span} - spansSet hs)"
      using inside later s by (fastforce simp: spanSet_def spanOk_def)
    moreover have "partsOk nxt (?pre @ ps)"
      using ps(3) inside s by (auto simp: partsOk_def sorted_wrt_append spanOk_def)
    ultimately show ?thesis
      using inside ps pre s by (intro exI [of _ "?pre @ ps"]) (auto simp: Let_def)
  qed
qed

lemma unhandled_spec:
  assumes "reporterOk r" and "gstart span \<le> gend span"
  shows "spansSet (unhandled span r) = spanSet span - handledSet r
    \<and> partsOk (gstart span) (unhandled span r)"
  using unhandledLoop_spec [of "handled r" "gstart span" span "[]"] assms
  by (auto simp: unhandled_def reporterOk_def handledSet_def spanSet_def)


section \<open>Reporting\<close>

definition dropSet :: "subscribeDrop \<Rightarrow> groupSequence set" where
  "dropSet d = {StartGroup d..EndGroup d}"

definition reportedSet :: "subscribeDrop list \<Rightarrow> groupSequence set" where
  "reportedSet ds = (\<Union>d \<in> set ds. dropSet d)"

lemma reportedSet_simps [simp]:
  "reportedSet [] = {}" "reportedSet (d # ds) = dropSet d \<union> reportedSet ds"
  "reportedSet (ds @ es) = reportedSet ds \<union> reportedSet es"
  by (auto simp: reportedSet_def)

text \<open>A drop whose end is not the last \<^verbatim>\<open>uint64\<close>; the wire format stops at \<open>2 ^ 62 - 1\<close>.\<close>

definition dropOk :: "subscribeDrop \<Rightarrow> bool" where
  "dropOk d \<longleftrightarrow> EndGroup d < 2 ^ 64 - 1"

text \<open>The groups of a drop a started subscriber waits for.\<close>

definition relevant :: "dropReporter \<Rightarrow> subscribeDrop \<Rightarrow> groupSequence set" where
  "relevant r d = (if started r then {n \<in> dropSet d. rstart r \<le> n \<and> 1 \<le> n} else {})"

definition disjointDrops :: "subscribeDrop list \<Rightarrow> bool" where
  "disjointDrops ds \<longleftrightarrow> sorted_wrt (\<lambda>a b. dropSet a \<inter> dropSet b = {}) ds"

definition toDrops :: "nat \<Rightarrow> groupSpan list \<Rightarrow> subscribeDrop list" where
  "toDrops code ps = map (\<lambda>s. \<lparr>StartGroup = gstart s, EndGroup = gend s, ErrorCode = code\<rparr>) ps"

lemma toDrops_set: "reportedSet (toDrops code ps) = spansSet ps"
  by (auto simp: toDrops_def reportedSet_def spansSet_def dropSet_def spanSet_def)

lemma toDrops_disjoint: "partsOk n ps \<Longrightarrow> disjointDrops (toDrops code ps)"
proof -
  assume "partsOk n ps"
  then have "sorted_wrt (\<lambda>a b. gend a < gstart b) ps" by (simp add: partsOk_def)
  then have "sorted_wrt (\<lambda>a b. {gstart a..gend a} \<inter> {gstart b..gend b} = {}) ps"
    by (rule sorted_wrt_mono_rel [rotated]) auto
  then show ?thesis by (simp add: disjointDrops_def toDrops_def sorted_wrt_map dropSet_def)
qed

text \<open>What one report does, on every path.\<close>

lemma report_spec:
  assumes ok: "reporterOk r" and d: "dropOk d"
  shows "reporterOk (report d r) \<and> started (report d r) = started r \<and> rstart (report d r) = rstart r
    \<and> rpos (report d r) = rpos r
    \<and> handledSet r \<union> relevant r d \<subseteq> handledSet (report d r)
    \<and> length (handled (report d r)) \<le> Suc (length (handled r))
    \<and> (length (handled r) < maxHandledSpans \<longrightarrow>
         handledSet (report d r) = handledSet r \<union> relevant r d)
    \<and> (\<exists>ds. w (report d r) = w r @ ds \<and> reportedSet ds = relevant r d - handledSet r
         \<and> disjointDrops ds \<and> (\<forall>x \<in> set ds. StartGroup x \<le> EndGroup x \<and> ErrorCode x = ErrorCode d))"
proof (cases "relevant r d = {}")
  case True
  have "report d r = r"
  proof (rule ccontr)
    let ?n = "max (max (StartGroup d) (rstart r)) 1"
    assume "report d r \<noteq> r"
    then have "started r" "?n \<le> EndGroup d"
      by (auto simp: report_def Let_def split: if_splits)
    then have "?n \<in> relevant r d" by (auto simp: relevant_def dropSet_def)
    with True show False by simp
  qed
  with ok True show ?thesis by (auto simp: disjointDrops_def intro!: exI [of _ "[]"])
next
  case False
  define n where "n = max (max (StartGroup d) (rstart r)) 1"
  let ?s = "\<lparr>gstart = n, gend = EndGroup d\<rparr>"
  let ?r = "r\<lparr>w := w r @ toDrops (ErrorCode d) (unhandled ?s r)\<rparr>"
  from False have st: "started r" and n: "n \<le> EndGroup d" and "StartGroup d \<le> EndGroup d"
    and "rstart r \<le> EndGroup d"
    by (auto simp: relevant_def dropSet_def n_def split: if_splits)
  then have rep: "report d r = add ?s ?r" by (simp add: report_def Let_def toDrops_def n_def)
  have rel: "relevant r d = spanSet ?s"
    using st by (auto simp: relevant_def dropSet_def spanSet_def n_def)
  have "spanOk ?s" using n d by (simp add: spanOk_def dropOk_def)
  moreover have "reporterOk ?r" using ok by (simp add: reporterOk_def handledSet_def)
  ultimately have a: "reporterOk (add ?s ?r) \<and> handledSet r \<union> spanSet ?s \<subseteq> handledSet (add ?s ?r)
      \<and> length (handled (add ?s ?r)) \<le> Suc (length (handled r))
      \<and> (length (handled r) < maxHandledSpans \<longrightarrow> handledSet (add ?s ?r) = handledSet r \<union> spanSet ?s)"
    using add_ok [of ?r ?s] by (auto simp: handledSet_def)
  from unhandled_spec [OF ok, of ?s] n
  have u: "spansSet (unhandled ?s r) = spanSet ?s - handledSet r"
    "partsOk n (unhandled ?s r)" by auto
  let ?ds = "toDrops (ErrorCode d) (unhandled ?s r)"
  have "w (report d r) = w r @ ?ds" by (simp add: rep add_def)
  moreover have "reportedSet ?ds = relevant r d - handledSet r" by (simp add: toDrops_set u(1) rel)
  moreover have "disjointDrops ?ds" using toDrops_disjoint u(2) by blast
  moreover have "\<forall>x \<in> set ?ds. StartGroup x \<le> EndGroup x \<and> ErrorCode x = ErrorCode d"
    using u(2) by (auto simp: toDrops_def partsOk_def)
  ultimately show ?thesis using a st unfolding rep rel by (auto simp: add_def)
qed

text \<open>The groups \<open>A\<close> are handled in \<open>r'\<close>, those that were not in \<open>r\<close> by reporting them.\<close>

definition reportsFor :: "dropReporter \<Rightarrow> groupSequence set \<Rightarrow> dropReporter \<Rightarrow> bool" where
  "reportsFor r A r' \<longleftrightarrow> reporterOk r' \<and> started r' = started r \<and> rstart r' = rstart r
     \<and> handledSet r \<union> A \<subseteq> handledSet r' \<and> length (handled r') \<le> Suc (length (handled r))
     \<and> (length (handled r) < maxHandledSpans \<longrightarrow> handledSet r' = handledSet r \<union> A)
     \<and> (\<exists>ds. w r' = w r @ ds \<and> reportedSet ds = A - handledSet r)"

lemma reportsFor_report: "reporterOk r \<Longrightarrow> dropOk d \<Longrightarrow> reportsFor r (relevant r d) (report d r)"
  unfolding reportsFor_def using report_spec [of r d] by blast

lemma reportsFor_none: "reporterOk r \<Longrightarrow> reportsFor r {} r"
  by (simp add: reportsFor_def)

text \<open>The groups a skip to \<open>nxt\<close> may have passed over.\<close>

definition skippedGroups :: "groupSequence \<Rightarrow> groupSequence \<Rightarrow> dropReporter \<Rightarrow> groupSequence set" where
  "skippedGroups nxt highest r = {x. rstart r \<le> x \<and> 1 \<le> x \<and> (x < nxt \<or> nxt < x \<and> x \<le> highest)}"

lemma reportSkipped_two:
  assumes ok: "reporterOk r" and st: "started r" and b: "nxt < 2 ^ 64 - 1" "highest < 2 ^ 64 - 1"
  shows "\<exists>r1. reportsFor r {x \<in> skippedGroups nxt highest r. x < nxt} r1
    \<and> reportsFor r1 {x \<in> skippedGroups nxt highest r. nxt < x} (reportSkipped nxt highest code r)"
proof -
  let ?a = "\<lparr>StartGroup = rstart r, EndGroup = nxt - 1, ErrorCode = code\<rparr>"
  let ?b = "\<lparr>StartGroup = nxt + 1, EndGroup = highest, ErrorCode = code\<rparr>"
  let ?A = "{x \<in> skippedGroups nxt highest r. x < nxt}" and ?B = "{x \<in> skippedGroups nxt highest r. nxt < x}"
  define r1 where "r1 = (if nxt > rstart r then report ?a r else r)"
  define r2 where "r2 = (if highest > nxt then report ?b r1 else r1)"
  have r2: "reportSkipped nxt highest code r = r2"
    using st b by (simp add: reportSkipped_def Let_def r1_def r2_def seqSucc_def)
  have 1: "reportsFor r ?A r1"
  proof (cases "nxt > rstart r")
    case True
    then have "relevant r ?a = ?A" using st by (auto simp: relevant_def dropSet_def skippedGroups_def)
    with True reportsFor_report [OF ok, of ?a] b show ?thesis by (simp add: r1_def dropOk_def)
  next
    case False
    then have A: "?A = {}" by (auto simp: skippedGroups_def)
    from False reportsFor_none [OF ok] show ?thesis unfolding r1_def A by simp
  qed
  then have r1: "reporterOk r1" "started r1" "rstart r1 = rstart r" using st by (simp_all add: reportsFor_def)
  have "reportsFor r1 ?B r2"
  proof (cases "highest > nxt")
    case True
    then have "relevant r1 ?b = ?B" using r1 by (auto simp: relevant_def dropSet_def skippedGroups_def)
    with True reportsFor_report [OF r1(1), of ?b] b show ?thesis by (simp add: r2_def dropOk_def)
  next
    case False
    then have B: "?B = {}" by (auto simp: skippedGroups_def)
    from False reportsFor_none [OF r1(1)] show ?thesis unfolding r2_def B by simp
  qed
  with 1 r2 show ?thesis by blast
qed

text \<open>No operation forgets a handled group or moves the start of a started subscription.\<close>

definition reporterKeeps :: "dropReporter \<Rightarrow> dropReporter \<Rightarrow> bool" where
  "reporterKeeps r r' \<longleftrightarrow> reporterOk r' \<and> handledSet r \<subseteq> handledSet r'
     \<and> started r' = started r \<and> rstart r' = rstart r"

lemma reporterKeeps_trans: "reporterKeeps a b \<Longrightarrow> reporterKeeps b c \<Longrightarrow> reporterKeeps a c"
  by (auto simp: reporterKeeps_def)

lemma reporterKeeps_report: "reporterOk r \<Longrightarrow> dropOk d \<Longrightarrow> reporterKeeps r (report d r)"
  using report_spec [of r d] by (simp add: reporterKeeps_def)

lemma reporterKeeps_fold:
  "reporterOk r \<Longrightarrow> \<forall>d \<in> set ds. dropOk d \<Longrightarrow> reporterKeeps r (fold report ds r)"
proof (induction ds arbitrary: r)
  case Nil
  then show ?case by (simp add: reporterKeeps_def)
next
  case (Cons d ds)
  then have "reporterKeeps r (report d r)" by (intro reporterKeeps_report) auto
  moreover from this have "reporterOk (report d r)" by (simp add: reporterKeeps_def)
  ultimately show ?case using Cons.IH [of "report d r"] Cons.prems reporterKeeps_trans by auto
qed

lemma reporterKeeps_skipped:
  assumes "reporterOk r" and "nxt < 2 ^ 64 - 1" "highest < 2 ^ 64 - 1"
  shows "reporterKeeps r (reportSkipped nxt highest code r)"
    and "started r \<Longrightarrow> skippedGroups nxt highest r \<subseteq> handledSet (reportSkipped nxt highest code r)"
proof -
  show "skippedGroups nxt highest r \<subseteq> handledSet (reportSkipped nxt highest code r)" if "started r"
    using reportSkipped_two [OF assms(1) that assms(2,3), of code]
    by (force simp: reportsFor_def skippedGroups_def)
  show "reporterKeeps r (reportSkipped nxt highest code r)"
  proof (cases "started r")
    case True
    from reportSkipped_two [OF assms(1) this assms(2,3), of code] show ?thesis
      by (auto simp: reportsFor_def reporterKeeps_def)
  next
    case False
    with assms(1) show ?thesis by (simp add: reportSkipped_def reporterKeeps_def)
  qed
qed

section \<open>Histories of one subscriber\<close>

text \<open>
  What egress does with its reporter: a group not handled yet is delivered, drops are
  reported, skipped or flushed from upstream. \<open>gs\<close> are the groups delivered so far.
\<close>

inductive reporter_run :: "dropReporter \<Rightarrow> groupSequence list \<Rightarrow> bool" where
  new: "reporter_run (newDropReporter src) []"
| deliver: "reporter_run r gs \<Longrightarrow> \<not> isHandled sq r \<Longrightarrow> sq < 2 ^ 64 - 1 \<Longrightarrow>
    reporter_run (sent sq r) (gs @ [sq])"
| report: "reporter_run r gs \<Longrightarrow> dropOk d \<Longrightarrow> reporter_run (report d r) gs"
| skipped: "reporter_run r gs \<Longrightarrow> nxt < 2 ^ 64 - 1 \<Longrightarrow> highest < 2 ^ 64 - 1 \<Longrightarrow>
    reporter_run (reportSkipped nxt highest code r) gs"
| flush: "reporter_run r gs \<Longrightarrow> \<forall>d \<in> set (drops src). dropOk d \<Longrightarrow> drops src \<noteq> [] \<Longrightarrow>
    reporter_run (flush src r) gs"

definition runInv :: "dropReporter \<Rightarrow> groupSequence list \<Rightarrow> bool" where
  "runInv r gs \<longleftrightarrow> reporterOk r \<and> distinct gs \<and> disjointDrops (w r)
     \<and> set gs \<union> reportedSet (w r) \<subseteq> handledSet r \<and> set gs \<inter> reportedSet (w r) = {}
     \<and> (\<forall>x \<in> set (w r). StartGroup x \<le> EndGroup x)
     \<and> (\<forall>x \<in> reportedSet (w r). 1 \<le> x \<and> rstart r \<le> x)
     \<and> (started r \<longleftrightarrow> gs \<noteq> []) \<and> (gs = [] \<longrightarrow> w r = [])"

lemma disjointDrops_append:
  "disjointDrops (ds @ es) \<longleftrightarrow> disjointDrops ds \<and> disjointDrops es \<and> reportedSet ds \<inter> reportedSet es = {}"
  by (auto simp: disjointDrops_def sorted_wrt_append reportedSet_def)

lemma runInv_report:
  assumes "runInv r gs" and "dropOk d"
  shows "runInv (report d r) gs"
proof -
  from assms have ok: "reporterOk r" by (simp add: runInv_def)
  from report_spec [OF ok assms(2)] obtain ds where
    r: "reporterOk (report d r)" "started (report d r) = started r" "rstart (report d r) = rstart r"
      "handledSet r \<union> relevant r d \<subseteq> handledSet (report d r)"
    and ds: "w (report d r) = w r @ ds" "reportedSet ds = relevant r d - handledSet r"
      "disjointDrops ds" "\<forall>x \<in> set ds. StartGroup x \<le> EndGroup x" by blast
  have "gs = [] \<longrightarrow> ds = []"
  proof
    assume "gs = []"
    with assms(1) have "relevant r d = {}" by (simp add: runInv_def relevant_def)
    with ds show "ds = []" by (cases ds) (auto simp: dropSet_def)
  qed
  with assms(1) r ds show ?thesis
    by (auto simp: runInv_def disjointDrops_append relevant_def split: if_splits)
qed

lemma runInv_fields: "runInv (r\<lparr>rbuf := b, rpos := p\<rparr>) gs = runInv r gs"
  by (simp add: runInv_def reporterOk_def handledSet_def)

lemma runInv_fold: "runInv r gs \<Longrightarrow> \<forall>d \<in> set ds. dropOk d \<Longrightarrow> runInv (fold report ds r) gs"
  by (induction ds arbitrary: r) (auto intro: runInv_report)

lemma since_subset:
  assumes "since l [] dd = (buf, p, k)" and "drops dd \<noteq> []"
  shows "set buf \<subseteq> set (drops dd)"
proof -
  have "drops dd ! (x mod length (drops dd)) \<in> set (drops dd)" for x
    using assms(2) by (intro nth_mem) simp
  with assms(1) show ?thesis by (auto simp: since_def Let_def split: if_splits)
qed

lemma runInv_sent:
  assumes inv: "runInv r gs" and new: "\<not> isHandled sq r" and sq: "sq < 2 ^ 64 - 1"
  shows "runInv (sent sq r) (gs @ [sq])"
proof -
  let ?r = "if started r then r else r\<lparr>started := True, rstart := sq\<rparr>"
  let ?s = "\<lparr>gstart = sq, gend = sq\<rparr>"
  have fields: "handled ?r = handled r" "w ?r = w r" "started ?r" by auto
  have ok: "reporterOk r" using inv by (simp add: runInv_def)
  then have "reporterOk ?r" by (simp add: reporterOk_def fields)
  moreover have "spanOk ?s" using sq by (simp add: spanOk_def)
  ultimately have a: "reporterOk (add ?s ?r) \<and> handledSet r \<union> {sq} \<subseteq> handledSet (add ?s ?r)"
    using add_ok [of ?r ?s] by (simp add: handledSet_def fields spanSet_def)
  have new': "sq \<notin> handledSet r"
    using new isHandled_iff ok by (simp add: reporterOk_def)
  have "rstart (add ?s ?r) = rstart ?r" "w (add ?s ?r) = w r" "started (add ?s ?r)"
    by (simp_all add: add_def fields)
  moreover have "\<forall>x \<in> reportedSet (w r). 1 \<le> x \<and> rstart ?r \<le> x"
    using inv by (cases "gs = []") (auto simp: runInv_def)
  ultimately show ?thesis
    using inv a new' unfolding runInv_def sent_def by auto
qed

lemma runInv_skipped:
  assumes "runInv r gs" and "nxt < 2 ^ 64 - 1" and "highest < 2 ^ 64 - 1"
  shows "runInv (reportSkipped nxt highest code r) gs"
  using assms by (auto simp: reportSkipped_def Let_def dropOk_def intro!: runInv_report)

lemma runInv_flush:
  assumes inv: "runInv r gs" and "\<forall>d \<in> set (drops src). dropOk d" and "drops src \<noteq> []"
  shows "runInv (flush src r) gs"
proof -
  obtain buf p k where s: "since (rpos r) [] src = (buf, p, k)" by (metis prod_cases3)
  have "\<forall>d \<in> set buf. dropOk d" using since_subset [OF s] assms by blast
  with inv show ?thesis by (simp add: flush_def s runInv_fold runInv_fields)
qed

lemma reporterKeeps_flush:
  assumes "reporterOk r" and "\<forall>d \<in> set (drops src). dropOk d" and "drops src \<noteq> []"
  shows "reporterKeeps r (flush src r)"
proof -
  obtain buf p k where s: "since (rpos r) [] src = (buf, p, k)" by (metis prod_cases3)
  have buf: "\<forall>d \<in> set buf. dropOk d" using since_subset [OF s] assms by blast
  have "reporterOk (r\<lparr>rbuf := buf, rpos := p\<rparr>)" using assms(1) by (simp add: reporterOk_def)
  from reporterKeeps_fold [OF this buf] assms(1) show ?thesis
    by (simp add: flush_def s reporterKeeps_def handledSet_def reporterOk_def)
qed

lemma sent_handled:
  assumes ok: "reporterOk r" and sq: "sq < 2 ^ 64 - 1"
  shows "reporterOk (sent sq r)" and "insert sq (handledSet r) \<subseteq> handledSet (sent sq r)"
    and "started (sent sq r)" and "rstart (sent sq r) = (if started r then rstart r else sq)"
proof -
  let ?r = "if started r then r else r\<lparr>started := True, rstart := sq\<rparr>"
  let ?s = "\<lparr>gstart = sq, gend = sq\<rparr>"
  have "reporterOk ?r" "handledSet ?r = handledSet r" using ok by (simp_all add: reporterOk_def handledSet_def)
  moreover have "spanOk ?s" "spanSet ?s = {sq}" using sq by (simp_all add: spanOk_def spanSet_def)
  ultimately show "reporterOk (sent sq r)" "insert sq (handledSet r) \<subseteq> handledSet (sent sq r)"
    using add_ok [of ?r ?s] by (simp_all add: sent_def)
qed (simp_all add: sent_def add_def)

lemma newDropReporter_inv: "runInv (newDropReporter src) []"
  by (simp add: runInv_def newDropReporter_def reporterOk_def disjointDrops_def handledSet_def)

lemma reporter_run_inv: "reporter_run r gs \<Longrightarrow> runInv r gs"
  by (induction rule: reporter_run.induct)
    (auto intro: newDropReporter_inv runInv_sent runInv_report runInv_skipped runInv_flush)


section \<open>Properties\<close>

text \<open>
  Reading the ring after any sequence of recorded drops, from any position already passed,
  returns exactly the drops recorded after it that the ring still holds (the last \<open>size\<close> ones),
  in order, the new position, and how many were overwritten unread.
\<close>

theorem since_after_records:
  assumes "l \<le> length ds"
  shows "since l buf (fold recordDrop ds (newDropDistributor n))
    = (let kept = (if n \<le> 0 then dropRingSize else nat n)
       in (buf @ drop (max l (length ds - kept)) ds, length ds, (length ds - kept) - l))"
proof -
  let ?dd = "fold recordDrop ds (newDropDistributor n)"
  have h: "dropHistory ?dd ds"
    using drop_ring.history_fold [OF newDropDistributor_history, of ds n] by simp
  have "length (drops (fold recordDrop ds dd)) = length (drops dd)" for dd
    by (induction ds arbitrary: dd) (simp_all add: recordDrop_def Let_def)
  then have "length (drops ?dd) = (if n \<le> 0 then dropRingSize else nat n)"
    by (simp add: newDropDistributor_def)
  with since_spec [OF h assms] h show ?thesis
    by (simp add: oldest_def dropHistory_def Let_def)
qed



text \<open>
  C8: Whatever a subscriber's egress does with its reporter, in any order, no group is
  delivered twice, no group is reported dropped twice, and no group is both delivered and
  reported; reports name non-empty ranges at or above the subscription's start and never
  group 0; and every group delivered or reported is remembered as handled.
\<close>

theorem reporter_once:
  assumes "reporter_run r gs"
  shows "distinct gs \<and> disjointDrops (w r) \<and> set gs \<inter> reportedSet (w r) = {}
    \<and> (\<forall>d \<in> set (w r). StartGroup d \<le> EndGroup d)
    \<and> (\<forall>x \<in> reportedSet (w r). 1 \<le> x \<and> rstart r \<le> x)
    \<and> (\<forall>x \<in> set gs \<union> reportedSet (w r). isHandled x r)
    \<and> length (handled r) \<le> maxHandledSpans"
proof -
  from reporter_run_inv [OF assms] have inv: "runInv r gs" .
  then have "isHandled x r \<longleftrightarrow> x \<in> handledSet r" for x
    by (intro isHandled_iff) (simp add: runInv_def reporterOk_def)
  with inv show ?thesis unfolding runInv_def reporterOk_def by blast
qed

definition sampleDrop :: subscribeDrop where
  "sampleDrop = \<lparr>StartGroup = 3, EndGroup = 9, ErrorCode = 1\<rparr>"

lemma sample_run:
  "reporter_run (report sampleDrop (sent 5 (newDropReporter (newDropDistributor 4)))) [5]"
proof -
  have "reporter_run (newDropReporter (newDropDistributor 4)) []" by (rule reporter_run.new)
  moreover have "\<not> isHandled 5 (newDropReporter (newDropDistributor 4))"
    by (simp add: isHandled_def newDropReporter_def Let_def)
  ultimately have "reporter_run (sent 5 (newDropReporter (newDropDistributor 4))) ([] @ [5])"
    by (rule reporter_run.deliver) simp
  then show ?thesis by (intro reporter_run.report) (simp_all add: dropOk_def sampleDrop_def)
qed

theorem reporter_once_witness:
  "w (report sampleDrop (sent 5 (newDropReporter (newDropDistributor 4))))
     = [\<lparr>StartGroup = 6, EndGroup = 9, ErrorCode = 1\<rparr>]
   \<and> isHandled 5 (report sampleDrop (sent 5 (newDropReporter (newDropDistributor 4))))"
proof -
  have "w (report sampleDrop (sent 5 (newDropReporter (newDropDistributor 4))))
     = [\<lparr>StartGroup = 6, EndGroup = 9, ErrorCode = 1\<rparr>]"
    by (simp add: report_def sent_def add_def addSpan_def capSpans_def unhandled_def sampleDrop_def
        newDropReporter_def seqSucc_def maxHandledSpans_def Let_def)
  with reporter_once [OF sample_run] show ?thesis by simp
qed

text \<open>
  After a skip, the subscriber is told about every group it missed: each group from the
  subscription's start to the highest one reserved, except the one sent next, is handled, and
  (while the reporter has two spans to spare) what was sent to the subscriber for it are
  exactly those of these groups that were not handled before.
\<close>

theorem reportSkipped_complete:
  assumes ok: "reporterOk r" and st: "started r" and b: "nxt < 2 ^ 64 - 1" "highest < 2 ^ 64 - 1"
  shows "(\<forall>x. rstart r \<le> x \<and> 1 \<le> x \<and> x \<noteq> nxt \<and> x \<le> highest \<longrightarrow>
           isHandled x (reportSkipped nxt highest code r))
    \<and> (length (handled r) + 2 \<le> maxHandledSpans \<longrightarrow>
         (\<exists>ds. w (reportSkipped nxt highest code r) = w r @ ds
            \<and> reportedSet ds = skippedGroups nxt highest r - handledSet r))"
proof -
  let ?r = "reportSkipped nxt highest code r"
  from reportSkipped_two [OF assms, of code] obtain r1 where
    1: "reportsFor r {x \<in> skippedGroups nxt highest r. x < nxt} r1"
    and 2: "reportsFor r1 {x \<in> skippedGroups nxt highest r. nxt < x} ?r" by blast
  note 1 = 1 [unfolded reportsFor_def] and 2 = 2 [unfolded reportsFor_def]
  have "isHandled x ?r \<longleftrightarrow> x \<in> handledSet ?r" for x
    using 2 by (intro isHandled_iff) (simp add: reporterOk_def)
  moreover have "skippedGroups nxt highest r \<subseteq> handledSet ?r"
    using 1 2 by (auto simp: skippedGroups_def)
  moreover have "\<exists>ds. w ?r = w r @ ds \<and> reportedSet ds = skippedGroups nxt highest r - handledSet r"
    if len: "length (handled r) + 2 \<le> maxHandledSpans"
  proof -
    from 1 obtain d1 where d1: "w r1 = w r @ d1"
      "reportedSet d1 = {x \<in> skippedGroups nxt highest r. x < nxt} - handledSet r" by blast
    from 2 obtain d2 where d2: "w ?r = w r1 @ d2"
      "reportedSet d2 = {x \<in> skippedGroups nxt highest r. nxt < x} - handledSet r1" by blast
    have "handledSet r1 = handledSet r \<union> {x \<in> skippedGroups nxt highest r. x < nxt}" using 1 len by simp
    then have "reportedSet (d1 @ d2) = skippedGroups nxt highest r - handledSet r"
      using d1 d2 by (auto simp: skippedGroups_def)
    then show ?thesis using d1 d2 by auto
  qed
  ultimately show ?thesis by (auto simp: skippedGroups_def)
qed

text \<open>
  C20: The set of handled groups is what the operations say: adding a range to a reporter below
  the cap adds exactly its groups, at the cap only ever more; the spans stay sorted, apart from
  each other and at most 64; the binary search answers membership in that set; and the
  unhandled parts of a range are exactly its groups outside the set, cut into increasing,
  disjoint, non-empty ranges.
\<close>

theorem handled_spans_correct:
  assumes "reporterOk r" and "spanOk s"
  shows "reporterOk (add s r) \<and> handledSet r \<union> spanSet s \<subseteq> handledSet (add s r)
    \<and> (length (handled r) < maxHandledSpans \<longrightarrow> handledSet (add s r) = handledSet r \<union> spanSet s)
    \<and> (isHandled x r \<longleftrightarrow> x \<in> handledSet r)
    \<and> spansSet (unhandled s r) = spanSet s - handledSet r \<and> partsOk (gstart s) (unhandled s r)"
  using add_ok [OF assms] isHandled_iff [of r x] unhandled_spec [OF assms(1), of s] assms
  by (simp add: reporterOk_def spanOk_def)

theorem handled_spans_correct_witness:
  "handledSet (add \<lparr>gstart = 4, gend = 6\<rparr> (sent 5 (newDropReporter (newDropDistributor 4)))) = {4..6}"
proof -
  let ?r = "sent 5 (newDropReporter (newDropDistributor 4))"
  have "reporterOk ?r" "handledSet ?r = {5}" "length (handled ?r) < maxHandledSpans"
    by (simp_all add: sent_def add_def addSpan_def capSpans_def newDropReporter_def
        reporterOk_def spanOk_def maxHandledSpans_def handledSet_def spanSet_def)
  with handled_spans_correct [of ?r "\<lparr>gstart = 4, gend = 6\<rparr>"] show ?thesis
    by (auto simp: spanOk_def spanSet_def)
qed

end
