(* ===== verification/Group_Ring.thy ===== *)
theory Group_Ring
  imports Prelude
begin

text \<open>
  The relay's group cache, \<^verbatim>\<open>src/internal/relay/group_cache.go\<close>: a track keeps its latest groups
  in a ring of reference-counted caches that are recycled through a pool. Caches are shared, so
  they live in a heap and are named by address. A frame is its bytes; what \<open>append\<close> stores is
  a copy made with the frame pool (\<^verbatim>\<open>frame_pool.go\<close>). Methods are atomic here except where two
  goroutines may run between two atomic accesses of one method: \<open>decrRef\<close> and \<open>frames\<close> are
  split at those points.
\<close>

section \<open>One group\<close>

abbreviation (input) "DefaultGroupCacheSize \<equiv> 8 :: nat"

definition MaxFramesPerGroup :: nat where
  "MaxFramesPerGroup = 256"

record groupCache =
  slots :: "bytes option list"
  cnt :: nat
  gseq :: nat
  gpos :: nat
  complete :: bool
  refCount :: int
  evicted :: bool
  released :: bool
  highestSeq :: nat

definition newGroupCache :: "nat \<Rightarrow> groupCache" where
  "newGroupCache sq = \<lparr>slots = replicate MaxFramesPerGroup None, cnt = 0, gseq = sq, gpos = 0,
     complete = False, refCount = 0, evicted = False, released = False, highestSeq = 0\<rparr>"

definition clearSlots :: "groupCache \<Rightarrow> groupCache" where
  "clearSlots gc = gc\<lparr>slots := replicate (cnt gc) None @ drop (cnt gc) (slots gc), cnt := 0\<rparr>"

definition resetForReuse :: "groupCache \<Rightarrow> groupCache" where
  "resetForReuse gc = clearSlots gc"

definition isComplete :: "groupCache \<Rightarrow> bool" where
  "isComplete gc = complete gc"

definition markComplete :: "groupCache \<Rightarrow> groupCache" where
  "markComplete gc = gc\<lparr>complete := True\<rparr>"

definition incrRef :: "groupCache \<Rightarrow> groupCache" where
  "incrRef gc = gc\<lparr>refCount := refCount gc + 1\<rparr>"

text \<open>Reserving the slot by advancing the count, then storing the clone in it.\<close>

definition appendReserve :: "groupCache \<Rightarrow> (nat \<times> groupCache) option" where
  "appendReserve gc =
     (if cnt gc \<ge> MaxFramesPerGroup then None else Some (cnt gc, gc\<lparr>cnt := cnt gc + 1\<rparr>))"

definition appendStore :: "nat \<Rightarrow> bytes \<Rightarrow> groupCache \<Rightarrow> groupCache" where
  "appendStore n f gc = gc\<lparr>slots := (slots gc)[n := Some f]\<rparr>"

definition appendFrame :: "bytes \<Rightarrow> groupCache \<Rightarrow> groupCache" where
  "appendFrame f gc =
     (case appendReserve gc of None \<Rightarrow> gc | Some (n, gc') \<Rightarrow> appendStore n f gc')"

definition nextFrame :: "int \<Rightarrow> groupCache \<Rightarrow> bytes option" where
  "nextFrame i gc = (if i < 0 \<or> i \<ge> int (length (slots gc)) then None else slots gc ! nat i)"

text \<open>
  The loop of \<open>frames\<close>, for a caller that takes every frame. In each pass it loads slot \<open>i\<close>
  and, when the slot is empty, then the complete flag, and then waits. Other goroutines may
  run between these, so each pass gives the cache as it is at each of the two loads, and
  whether the wait (if it comes to it) returned true.
\<close>

record pass =
  atNext :: groupCache
  atComplete :: groupCache
  waited :: bool

fun frames :: "nat \<Rightarrow> pass list \<Rightarrow> bytes list" where
  "frames i [] = []"
| "frames i (p # ps) =
     (case nextFrame (int i) (atNext p) of
        Some f \<Rightarrow> f # frames (i + 1) ps
      | None \<Rightarrow> if isComplete (atComplete p) \<or> \<not> waited p then [] else frames i ps)"

section \<open>The ring\<close>

text \<open>\<open>heap\<close> holds every cache ever allocated; \<open>gcPool\<close> the addresses returned for reuse.\<close>

record groupRing =
  caches :: "nat option list"
  heap :: "groupCache list"
  gcPool :: "nat list"
  ringPos :: nat
  maxSeq :: nat

definition newGroupRing :: "nat \<Rightarrow> groupRing" where
  "newGroupRing n = \<lparr>caches = replicate n None, heap = [], gcPool = [], ringPos = 0, maxSeq = 0\<rparr>"

definition updCache :: "nat \<Rightarrow> (groupCache \<Rightarrow> groupCache) \<Rightarrow> groupRing \<Rightarrow> groupRing" where
  "updCache a h ring = ring\<lparr>heap := (heap ring)[a := h (heap ring ! a)]\<rparr>"

text \<open>
  \<^verbatim>\<open>sync.Pool.Get\<close> returns some pooled object or a new one, as it likes: \<open>choice\<close> is its
  decision.
\<close>

definition poolGet :: "nat option \<Rightarrow> groupRing \<Rightarrow> nat \<times> groupRing" where
  "poolGet choice ring =
     (case choice of
        Some a \<Rightarrow> if a \<in> set (gcPool ring) then (a, ring\<lparr>gcPool := remove1 a (gcPool ring)\<rparr>)
                  else (length (heap ring), ring\<lparr>heap := heap ring @ [newGroupCache 0]\<rparr>)
      | None \<Rightarrow> (length (heap ring), ring\<lparr>heap := heap ring @ [newGroupCache 0]\<rparr>))"

definition releaseCache :: "nat \<Rightarrow> groupRing \<Rightarrow> groupRing" where
  "releaseCache a ring =
     (if released (heap ring ! a) then ring
      else (updCache a (\<lambda>gc. clearSlots (gc\<lparr>released := True\<rparr>)) ring)\<lparr>gcPool := gcPool ring @ [a]\<rparr>)"

definition markEvictedLocked :: "nat \<Rightarrow> groupRing \<Rightarrow> groupRing" where
  "markEvictedLocked a ring =
     (let ring1 = updCache a (\<lambda>gc. gc\<lparr>evicted := True\<rparr>) ring
      in if refCount (heap ring1 ! a) = 0 then releaseCache a ring1 else ring1)"

definition reserve :: "nat \<Rightarrow> nat option \<Rightarrow> groupRing \<Rightarrow> nat \<times> groupRing" where
  "reserve sq choice ring0 =
     (let (a, ring) = poolGet choice ring0;
          highest = max (maxSeq ring) sq;
          pos = ringPos ring + 1;
          idx = pos mod length (caches ring);
          fresh = (\<lambda>gc. (resetForReuse (gc\<lparr>gseq := sq, complete := False, refCount := 1, evicted := False,
                     released := False\<rparr>))\<lparr>highestSeq := highest, gpos := pos\<rparr>);
          ring1 = (updCache a fresh ring)\<lparr>maxSeq := highest, ringPos := pos\<rparr>;
          old = caches ring1 ! idx;
          ring2 = ring1\<lparr>caches := (caches ring1)[idx := Some a]\<rparr>
      in (a, case old of None \<Rightarrow> ring2 | Some o' \<Rightarrow> markEvictedLocked o' ring2))"

definition get :: "nat \<Rightarrow> groupRing \<Rightarrow> (nat \<times> groupRing) option" where
  "get pos ring =
     (case caches ring ! (pos mod length (caches ring)) of
        None \<Rightarrow> None
      | Some a \<Rightarrow>
          if gpos (heap ring ! a) = pos \<and> \<not> released (heap ring ! a)
          then Some (a, updCache a incrRef ring) else None)"

text \<open>The two halves of \<open>decrRef\<close>: the decrement, and the check of the evicted flag after it.\<close>

definition decrRefAdd :: "nat \<Rightarrow> groupRing \<Rightarrow> bool \<times> groupRing" where
  "decrRefAdd a ring =
     (let ring1 = updCache a (\<lambda>gc. gc\<lparr>refCount := refCount gc - 1\<rparr>) ring
      in (refCount (heap ring1 ! a) = 0, ring1))"

definition decrRefCheck :: "nat \<Rightarrow> groupRing \<Rightarrow> groupRing" where
  "decrRefCheck a ring = (if evicted (heap ring ! a) then releaseCache a ring else ring)"

definition decrRef :: "nat \<Rightarrow> groupRing \<Rightarrow> groupRing" where
  "decrRef a ring = (let (zero, ring1) = decrRefAdd a ring in if zero then decrRefCheck a ring1 else ring1)"

definition fill :: "bytes list \<Rightarrow> nat \<Rightarrow> groupRing \<Rightarrow> groupRing" where
  "fill fs a ring = decrRef a (updCache a markComplete (fold (\<lambda>f. updCache a (appendFrame f)) fs ring))"

definition ringHead :: "groupRing \<Rightarrow> nat" where
  "ringHead ring = ringPos ring"

definition earliestAvailable :: "groupRing \<Rightarrow> nat" where
  "earliestAvailable ring =
     (if ringHead ring \<le> length (caches ring) then 1 else ringHead ring - length (caches ring) + 1)"

section \<open>Frames of one group\<close>

text \<open>The frames stored so far, and the shape of a cache filled by one writer.\<close>

definition stored :: "groupCache \<Rightarrow> bytes list" where
  "stored gc = map the (take (cnt gc) (slots gc))"

definition cacheOk :: "groupCache \<Rightarrow> bool" where
  "cacheOk gc \<longleftrightarrow> length (slots gc) = MaxFramesPerGroup \<and> cnt gc \<le> MaxFramesPerGroup
     \<and> (\<forall>i < MaxFramesPerGroup. slots gc ! i \<noteq> None \<longleftrightarrow> i < cnt gc)"

lemma new_cacheOk: "cacheOk (newGroupCache sq)"
  by (simp add: cacheOk_def newGroupCache_def)

lemma clearSlots_ok:
  assumes "cacheOk gc"
  shows "cacheOk (clearSlots gc)" and "stored (clearSlots gc) = []" and "cnt (clearSlots gc) = 0"
proof -
  have "(replicate (cnt gc) None @ drop (cnt gc) (slots gc)) ! i = None" if "i < MaxFramesPerGroup" for i
    using assms that by (cases "i < cnt gc") (auto simp: cacheOk_def nth_append)
  then show "cacheOk (clearSlots gc)" using assms by (simp add: cacheOk_def clearSlots_def)
qed (simp_all add: clearSlots_def stored_def)

lemma appendFrame_ok:
  assumes ok: "cacheOk gc"
  shows "cacheOk (appendFrame f gc)"
    and "stored (appendFrame f gc) = take MaxFramesPerGroup (stored gc @ [f])"
proof -
  have len: "length (slots gc) = MaxFramesPerGroup" "cnt gc \<le> MaxFramesPerGroup"
    using ok by (simp_all add: cacheOk_def)
  show "cacheOk (appendFrame f gc)"
    using ok by (auto simp: cacheOk_def appendFrame_def appendReserve_def appendStore_def nth_list_update)
  show "stored (appendFrame f gc) = take MaxFramesPerGroup (stored gc @ [f])"
  proof (cases "cnt gc = MaxFramesPerGroup")
    case True
    then show ?thesis using len by (simp add: appendFrame_def appendReserve_def stored_def)
  next
    case False
    with len have lt: "cnt gc < MaxFramesPerGroup" by simp
    with len have "take (Suc (cnt gc)) ((slots gc)[cnt gc := Some f]) = take (cnt gc) (slots gc) @ [Some f]"
      by (simp add: take_Suc_conv_app_nth)
    with lt len show ?thesis
      by (simp add: appendFrame_def appendReserve_def appendStore_def stored_def)
  qed
qed

lemma fold_append_ok:
  "cacheOk gc \<Longrightarrow> cacheOk (fold appendFrame fs gc)
     \<and> stored (fold appendFrame fs gc) = take MaxFramesPerGroup (stored gc @ fs)"
proof (induction fs arbitrary: gc)
  case Nil
  then have "length (stored gc) \<le> MaxFramesPerGroup" by (simp add: cacheOk_def stored_def)
  with Nil show ?case by simp
next
  case (Cons f fs)
  have "take n (take n xs @ ys) = take n (xs @ ys)" for n and xs ys :: "bytes list"
    by (simp add: min_def)
  from Cons.IH [OF appendFrame_ok(1) [OF Cons.prems]] this [of MaxFramesPerGroup "stored gc @ [f]" fs]
  show ?case unfolding appendFrame_ok(2) [OF Cons.prems] by simp
qed

lemma nextFrame_stored:
  assumes "cacheOk gc"
  shows "nextFrame (int i) gc = (if i < length (stored gc) then Some (stored gc ! i) else None)"
proof -
  have "length (stored gc) = cnt gc" "length (slots gc) = MaxFramesPerGroup"
    using assms by (simp_all add: stored_def cacheOk_def)
  moreover have "slots gc ! i = Some (stored gc ! i)" if "i < cnt gc"
    using assms that by (auto simp: stored_def cacheOk_def)
  moreover have "slots gc ! i = None" if "\<not> i < cnt gc" "i < MaxFramesPerGroup"
    using assms that by (auto simp: cacheOk_def)
  ultimately show ?thesis using assms by (auto simp: nextFrame_def cacheOk_def)
qed


subsection \<open>Reading while the group fills\<close>

definition prefixOf :: "'a list \<Rightarrow> 'a list \<Rightarrow> bool" where
  "prefixOf xs ys \<longleftrightarrow> xs = take (length xs) ys"

lemma frames_step:
  assumes "cacheOk (atNext p)" and "prefixOf (stored (atNext p)) F" and "i \<le> length F"
  shows "frames i (p # ps) = (if i < length (stored (atNext p)) then F ! i # frames (i + 1) ps
     else if isComplete (atComplete p) \<or> \<not> waited p then [] else frames i ps)"
proof -
  have "stored (atNext p) ! i = F ! i" if "i < length (stored (atNext p))"
    using assms(2) that by (metis nth_take prefixOf_def)
  then show ?thesis using nextFrame_stored [OF assms(1), of i] by simp
qed

lemma frames_prefix:
  assumes "\<forall>p \<in> set ps. cacheOk (atNext p) \<and> prefixOf (stored (atNext p)) F" and "i \<le> length F"
  shows "\<exists>k. frames i ps = take k (drop i F)"
  using assms
proof (induction ps arbitrary: i)
  case Nil
  then show ?case by (intro exI [of _ 0]) simp
next
  case (Cons p ps)
  have p: "cacheOk (atNext p)" "prefixOf (stored (atNext p)) F" using Cons.prems(1) by auto
  note step = frames_step [OF p Cons.prems(2), of ps]
  show ?case
  proof (cases "i < length (stored (atNext p))")
    case True
    then have "i < length F" using p(2) by (metis length_take min_less_iff_conj prefixOf_def)
    with Cons.IH [of "i + 1"] Cons.prems(1) obtain k where
      "frames (i + 1) ps = take k (drop (i + 1) F)" by auto
    with True step \<open>i < length F\<close> have "frames i (p # ps) = take (Suc k) (drop i F)"
      by (simp flip: Cons_nth_drop_Suc)
    then show ?thesis by blast
  next
    case False
    show ?thesis
    proof (cases "isComplete (atComplete p) \<or> \<not> waited p")
      case True
      with False step show ?thesis by (intro exI [of _ 0]) simp
    next
      case more: False
      with False step Cons.IH [of i] Cons.prems show ?thesis by simp
    qed
  qed
qed

section \<open>Invariant of the ring\<close>

text \<open>
  \<open>H a\<close> counts the references held on the cache at \<open>a\<close> (its filler and the subscribers
  reading it), \<open>sq\<close> are the sequences reserved so far, in order of arrival.
\<close>

definition maxOf :: "nat list \<Rightarrow> nat" where
  "maxOf xs = foldr max xs 0"

lemma maxOf_snoc [simp]: "maxOf (xs @ [x]) = max (maxOf xs) x" "maxOf [] = 0"
  by (induction xs) (auto simp: maxOf_def max.assoc)

text \<open>A cache in place \<open>idx\<close> of a ring of \<open>n\<close>.\<close>

definition liveOk :: "nat \<Rightarrow> nat list \<Rightarrow> nat \<Rightarrow> groupCache \<Rightarrow> bool" where
  "liveOk n sq idx gc \<longleftrightarrow> \<not> evicted gc \<and> gpos gc mod n = idx \<and> 1 \<le> gpos gc
     \<and> gpos gc \<le> length sq \<and> length sq < gpos gc + n
     \<and> gseq gc = sq ! (gpos gc - 1) \<and> highestSeq gc = maxOf (take (gpos gc) sq)"

definition placesOk :: "groupRing \<Rightarrow> nat list \<Rightarrow> bool" where
  "placesOk r sq \<longleftrightarrow> caches r \<noteq> [] \<and> ringPos r = length sq \<and> maxSeq r = maxOf sq
     \<and> (\<forall>idx < length (caches r). \<forall>a. caches r ! idx = Some a \<longrightarrow>
          a < length (heap r) \<and> liveOk (length (caches r)) sq idx (heap r ! a))
     \<and> (\<forall>p. 1 \<le> p \<longrightarrow> p \<le> length sq \<longrightarrow> length sq < p + length (caches r) \<longrightarrow>
          (\<exists>a. caches r ! (p mod length (caches r)) = Some a \<and> gpos (heap r ! a) = p))"

text \<open>
  One cache of the heap. \<open>owed\<close> caches may still have to be released: they are evicted and
  not referenced, and the release follows in the same operation.
\<close>

definition cacheInv :: "nat set \<Rightarrow> groupRing \<Rightarrow> (nat \<Rightarrow> nat) \<Rightarrow> nat \<Rightarrow> bool" where
  "cacheInv owed r H a \<longleftrightarrow> cacheOk (heap r ! a) \<and> refCount (heap r ! a) = int (H a)
     \<and> (released (heap r ! a) \<longrightarrow> H a = 0 \<and> evicted (heap r ! a))
     \<and> (released (heap r ! a) \<longleftrightarrow> a \<in> set (gcPool r))
     \<and> (evicted (heap r ! a) \<longrightarrow> H a = 0 \<longrightarrow> a \<notin> owed \<longrightarrow> released (heap r ! a))
     \<and> (\<not> evicted (heap r ! a) \<longrightarrow> Some a \<in> set (caches r))"

definition ringInvX :: "nat set \<Rightarrow> groupRing \<Rightarrow> (nat \<Rightarrow> nat) \<Rightarrow> nat list \<Rightarrow> bool" where
  "ringInvX owed r H sq \<longleftrightarrow> placesOk r sq \<and> (\<forall>a < length (heap r). cacheInv owed r H a)
     \<and> distinct (gcPool r) \<and> set (gcPool r) \<subseteq> {..<length (heap r)}
     \<and> (\<forall>a. length (heap r) \<le> a \<longrightarrow> H a = 0)"

definition ringInv :: "groupRing \<Rightarrow> (nat \<Rightarrow> nat) \<Rightarrow> nat list \<Rightarrow> bool" where
  "ringInv r H sq \<longleftrightarrow> ringInvX {} r H sq"

lemma updCache_simps [simp]:
  "caches (updCache a h r) = caches r" "gcPool (updCache a h r) = gcPool r"
  "ringPos (updCache a h r) = ringPos r" "maxSeq (updCache a h r) = maxSeq r"
  "length (heap (updCache a h r)) = length (heap r)"
  "a < length (heap r) \<Longrightarrow> heap (updCache a h r) ! b = (if b = a then h (heap r ! a) else heap r ! b)"
  by (simp_all add: updCache_def nth_list_update)

text \<open>Changing one cache without moving it.\<close>

lemma placesOk_upd:
  assumes "placesOk r sq" and "a < length (heap r)"
    and "gpos (h (heap r ! a)) = gpos (heap r ! a)" "gseq (h (heap r ! a)) = gseq (heap r ! a)"
      "highestSeq (h (heap r ! a)) = highestSeq (heap r ! a)"
    and "evicted (h (heap r ! a)) \<longrightarrow> evicted (heap r ! a) \<or> Some a \<notin> set (caches r)"
  shows "placesOk (updCache a h r) sq"
proof -
  have "liveOk n sq idx (heap (updCache a h r) ! b)"
    if "liveOk n sq idx (heap r ! b)" "Some b \<in> set (caches r)" for n idx b
    using that assms by (auto simp: liveOk_def)
  moreover have "gpos (heap (updCache a h r) ! b) = gpos (heap r ! b)" for b
    using assms by simp
  ultimately show ?thesis
    using assms(1) by (auto simp: placesOk_def) (metis nth_mem)+
qed

lemma ringInv_upd:
  assumes inv: "ringInvX X r H sq" and a: "a < length (heap r)"
    and "gpos (h (heap r ! a)) = gpos (heap r ! a)" "gseq (h (heap r ! a)) = gseq (heap r ! a)"
      "highestSeq (h (heap r ! a)) = highestSeq (heap r ! a)"
    and "evicted (h (heap r ! a)) = evicted (heap r ! a)" "released (h (heap r ! a)) = released (heap r ! a)"
    and "cacheOk (h (heap r ! a))" and "refCount (h (heap r ! a)) = int k"
    and "released (heap r ! a) \<longrightarrow> k = 0"
    and "evicted (heap r ! a) \<longrightarrow> k = 0 \<longrightarrow> a \<in> Y \<or> released (heap r ! a)" and "X - {a} \<subseteq> Y"
  shows "ringInvX Y (updCache a h r) (H(a := k)) sq"
proof -
  have "placesOk (updCache a h r) sq"
    using inv assms by (intro placesOk_upd) (auto simp: ringInvX_def)
  moreover have "cacheInv Y (updCache a h r) (H(a := k)) b" if "b < length (heap r)" for b
  proof (cases "b = a")
    case True
    have "cacheInv X r H a" using inv a by (simp add: ringInvX_def)
    with True assms show ?thesis by (auto simp: cacheInv_def)
  next
    case False
    have "cacheInv X r H b" using inv that by (simp add: ringInvX_def)
    with False a assms(12) show ?thesis by (auto simp: cacheInv_def)
  qed
  ultimately show ?thesis using inv a by (auto simp: ringInvX_def)
qed

text \<open>Releasing an evicted cache nobody refers to.\<close>

lemma releaseCache_inv:
  assumes inv: "ringInvX {a} r H sq" and a: "a < length (heap r)"
    and ev: "evicted (heap r ! a)" and no: "H a = 0"
  shows "ringInv (releaseCache a r) H sq"
proof (cases "released (heap r ! a)")
  case True
  with inv show ?thesis by (auto simp: releaseCache_def ringInv_def ringInvX_def cacheInv_def)
next
  case False
  let ?h = "\<lambda>gc. clearSlots (gc\<lparr>released := True\<rparr>)"
  let ?r = "(updCache a ?h r)\<lparr>gcPool := gcPool r @ [a]\<rparr>"
  have ca: "cacheInv {a} r H a" using inv a by (simp add: ringInvX_def)
  have ok: "cacheOk (?h (heap r ! a))"
    using ca by (intro clearSlots_ok) (simp add: cacheInv_def cacheOk_def)
  have "placesOk (updCache a ?h r) sq"
    using inv a ev by (intro placesOk_upd) (auto simp: ringInvX_def clearSlots_def)
  then have "placesOk ?r sq" by (simp add: placesOk_def)
  moreover have "cacheInv {} ?r H b" if "b < length (heap r)" for b
  proof (cases "b = a")
    case True
    with ca ok a ev no show ?thesis by (auto simp: cacheInv_def clearSlots_def)
  next
    case neq: False
    have "cacheInv {a} r H b" using inv that by (simp add: ringInvX_def)
    with neq a show ?thesis by (auto simp: cacheInv_def)
  qed
  moreover have "a \<notin> set (gcPool r)" using ca False by (simp add: cacheInv_def)
  ultimately have "ringInv ?r H sq" using inv a by (auto simp: ringInv_def ringInvX_def)
  with False show ?thesis by (simp add: releaseCache_def)
qed

lemma ringInvX_none: "ringInvX {a} r H sq \<Longrightarrow> H a \<noteq> 0 \<or> \<not> evicted (heap r ! a) \<Longrightarrow> ringInv r H sq"
  by (auto simp: ringInv_def ringInvX_def cacheInv_def)


lemma ringInv_cache: "ringInv r H sq \<Longrightarrow> a < length (heap r) \<Longrightarrow> cacheInv {} r H a"
  by (simp add: ringInv_def ringInvX_def)

lemma held_below: "ringInv r H sq \<Longrightarrow> 0 < H a \<Longrightarrow> a < length (heap r)"
  by (auto simp: ringInv_def ringInvX_def intro: ccontr)

text \<open>Filling a cache one holds a reference to.\<close>

lemma fill_step_inv:
  assumes inv: "ringInv r H sq" and held: "0 < H a"
    and h: "\<And>gc. gpos (h gc) = gpos gc \<and> gseq (h gc) = gseq gc \<and> highestSeq (h gc) = highestSeq gc
      \<and> evicted (h gc) = evicted gc \<and> released (h gc) = released gc \<and> refCount (h gc) = refCount gc"
    and ok: "\<And>gc. cacheOk gc \<Longrightarrow> cacheOk (h gc)"
  shows "ringInv (updCache a h r) H sq"
proof -
  note a = held_below [OF inv held]
  note ca = ringInv_cache [OF inv a, unfolded cacheInv_def]
  have "ringInvX {} (updCache a h r) (H(a := H a)) sq"
    using inv a ca h ok held by (intro ringInv_upd [where X = "{}"]) (auto simp: ringInv_def)
  then show ?thesis by (simp add: ringInv_def)
qed

lemma append_fields:
  "gpos (appendFrame f gc) = gpos gc" "gseq (appendFrame f gc) = gseq gc"
  "highestSeq (appendFrame f gc) = highestSeq gc" "evicted (appendFrame f gc) = evicted gc"
  "released (appendFrame f gc) = released gc" "refCount (appendFrame f gc) = refCount gc"
  "complete (appendFrame f gc) = complete gc"
  by (simp_all add: appendFrame_def appendReserve_def appendStore_def)

lemma append_inv: "ringInv r H sq \<Longrightarrow> 0 < H a \<Longrightarrow> ringInv (updCache a (appendFrame f) r) H sq"
  by (rule fill_step_inv) (simp_all add: append_fields appendFrame_ok)

lemma complete_inv: "ringInv r H sq \<Longrightarrow> 0 < H a \<Longrightarrow> ringInv (updCache a markComplete r) H sq"
  by (rule fill_step_inv) (simp_all add: markComplete_def cacheOk_def)

lemma place_of:
  assumes "ringInv r H sq" and "caches r ! (p mod length (caches r)) = Some a"
  shows "a < length (heap r)" and "\<not> evicted (heap r ! a)" and "\<not> released (heap r ! a)"
    and "liveOk (length (caches r)) sq (p mod length (caches r)) (heap r ! a)"
proof -
  have p: "p mod length (caches r) < length (caches r)"
    using assms(1) by (simp add: ringInv_def ringInvX_def placesOk_def)
  moreover have "\<forall>idx < length (caches r). \<forall>a. caches r ! idx = Some a \<longrightarrow>
      a < length (heap r) \<and> liveOk (length (caches r)) sq idx (heap r ! a)"
    using assms(1) by (simp add: ringInv_def ringInvX_def placesOk_def)
  ultimately show a: "a < length (heap r)"
    and l: "liveOk (length (caches r)) sq (p mod length (caches r)) (heap r ! a)"
    using assms(2) by blast+
  then show ev: "\<not> evicted (heap r ! a)" by (simp add: liveOk_def)
  with ringInv_cache [OF assms(1) a] show "\<not> released (heap r ! a)" by (auto simp: cacheInv_def)
qed

lemma get_inv:
  assumes inv: "ringInv r H sq" and g: "get p r = Some (a, r')"
  shows "ringInv r' (H(a := H a + 1)) sq"
proof -
  from g have c: "caches r ! (p mod length (caches r)) = Some a" and r': "r' = updCache a incrRef r"
    by (auto simp: get_def split: option.splits if_splits)
  note pl = place_of [OF inv c]
  note ca = ringInv_cache [OF inv pl(1), unfolded cacheInv_def]
  have "ringInvX {} (updCache a incrRef r) (H(a := H a + 1)) sq"
    using inv pl ca by (intro ringInv_upd [where X = "{}"])
      (auto simp: ringInv_def incrRef_def cacheOk_def)
  then show ?thesis by (simp add: ringInv_def r')
qed

lemma decrRef_inv:
  assumes inv: "ringInv r H sq" and held: "0 < H a"
  shows "ringInv (decrRef a r) (H(a := H a - 1)) sq"
proof -
  note a = held_below [OF inv held]
  note ca = ringInv_cache [OF inv a, unfolded cacheInv_def]
  let ?h = "\<lambda>gc. gc\<lparr>refCount := refCount gc - 1\<rparr>"
  let ?r = "updCache a ?h r"
  let ?H = "H(a := H a - 1)"
  have X: "ringInvX {a} ?r ?H sq"
    using inv a ca held by (intro ringInv_upd [where X = "{}"])
      (auto simp: ringInv_def cacheOk_def)
  have rc: "refCount (heap ?r ! a) = int (H a) - 1" using a ca by simp
  have ev: "evicted (heap ?r ! a) = evicted (heap r ! a)" using a by simp
  show ?thesis
  proof (cases "H a = 1 \<and> evicted (heap r ! a)")
    case True
    then have "decrRef a r = releaseCache a ?r"
      using rc ev by (simp add: decrRef_def decrRefAdd_def decrRefCheck_def Let_def)
    with releaseCache_inv [OF X] a True ev show ?thesis by simp
  next
    case False
    then have "decrRef a r = ?r"
      using rc ev by (auto simp: decrRef_def decrRefAdd_def decrRefCheck_def Let_def)
    with ringInvX_none [OF X] False ev held show ?thesis by auto
  qed
qed

subsection \<open>Reserving a place\<close>

text \<open>The pool hands out a cache that is not in use.\<close>

lemma poolGet_spec:
  assumes inv: "ringInv r H sq" and g: "poolGet ch r = (a, r')"
  shows "a < length (heap r') \<and> H a = 0 \<and> cacheOk (heap r' ! a) \<and> caches r' = caches r
    \<and> ringPos r' = ringPos r \<and> maxSeq r' = maxSeq r \<and> distinct (gcPool r')
    \<and> length (heap r) \<le> length (heap r') \<and> Some a \<notin> set (caches r)
    \<and> (\<forall>b < length (heap r'). b \<noteq> a \<longrightarrow> b < length (heap r) \<and> heap r' ! b = heap r ! b
         \<and> (b \<in> set (gcPool r') \<longleftrightarrow> b \<in> set (gcPool r)))
    \<and> a \<notin> set (gcPool r') \<and> set (gcPool r') \<subseteq> {..<length (heap r')}
    \<and> (\<forall>b. length (heap r') \<le> b \<longrightarrow> H b = 0)"
proof -
  have pool: "distinct (gcPool r)" "set (gcPool r) \<subseteq> {..<length (heap r)}"
    and H: "\<forall>b. length (heap r) \<le> b \<longrightarrow> H b = 0"
    using inv by (auto simp: ringInv_def ringInvX_def)
  have places: "b < length (heap r) \<and> \<not> evicted (heap r ! b)" if "Some b \<in> set (caches r)" for b
    using that inv by (auto simp: ringInv_def ringInvX_def placesOk_def liveOk_def in_set_conv_nth)
  show ?thesis
  proof (cases "\<exists>b. ch = Some b \<and> b \<in> set (gcPool r)")
    case True
    with g have a: "a \<in> set (gcPool r)" and r': "r' = r\<lparr>gcPool := remove1 a (gcPool r)\<rparr>"
      by (auto simp: poolGet_def)
    with pool have "a < length (heap r)" by auto
    from ringInv_cache [OF inv this] a have "H a = 0" "cacheOk (heap r ! a)" "evicted (heap r ! a)"
      by (auto simp: cacheInv_def)
    with a r' pool H places \<open>a < length (heap r)\<close> show ?thesis by auto
  next
    case False
    with g have a: "a = length (heap r)" and r': "r' = r\<lparr>heap := heap r @ [newGroupCache 0]\<rparr>"
      by (auto simp: poolGet_def split: option.splits if_splits)
    with pool H places show ?thesis
      by (auto simp: nth_append new_cacheOk less_Suc_eq)
  qed
qed


text \<open>The ring with the new cache in its place and the old one marked, before any release.\<close>

definition freshCache :: "nat \<Rightarrow> nat \<Rightarrow> nat \<Rightarrow> groupCache \<Rightarrow> groupCache" where
  "freshCache x highest pos gc =
     (resetForReuse (gc\<lparr>gseq := x, complete := False, refCount := 1, evicted := False,
        released := False\<rparr>))\<lparr>highestSeq := highest, gpos := pos\<rparr>"

definition reserved :: "nat \<Rightarrow> nat \<Rightarrow> groupRing \<Rightarrow> groupRing" where
  "reserved x a r =
     (let pos = ringPos r + 1; highest = max (maxSeq r) x; idx = pos mod length (caches r);
          r1 = (updCache a (freshCache x highest pos) r)\<lparr>maxSeq := highest, ringPos := pos,
                 caches := (caches r)[idx := Some a]\<rparr>
      in case caches r ! idx of None \<Rightarrow> r1 | Some o' \<Rightarrow> updCache o' (\<lambda>gc. gc\<lparr>evicted := True\<rparr>) r1)"

lemma reserve_reserved:
  assumes "poolGet ch r = (a, r1)"
  shows "reserve x ch r = (a, let old = caches r1 ! ((ringPos r1 + 1) mod length (caches r1));
      r2 = reserved x a r1
    in case old of Some o' \<Rightarrow> if refCount (heap r2 ! o') = 0 then releaseCache o' r2 else r2 | None \<Rightarrow> r2)"
  by (simp add: reserve_def reserved_def assms Let_def markEvictedLocked_def updCache_def freshCache_def
      split: option.split)

lemma freshCache_ok:
  assumes "cacheOk gc"
  shows "cacheOk (freshCache x h p gc)" and "stored (freshCache x h p gc) = []"
proof -
  have "cacheOk (gc\<lparr>gseq := x, complete := False, refCount := 1, evicted := False, released := False\<rparr>)"
    using assms by (simp add: cacheOk_def)
  from clearSlots_ok [OF this] show "cacheOk (freshCache x h p gc)" "stored (freshCache x h p gc) = []"
    by (simp_all add: freshCache_def resetForReuse_def cacheOk_def stored_def)
qed

lemma freshCache_fields [simp]:
  "gseq (freshCache x h p gc) = x" "refCount (freshCache x h p gc) = 1"
  "\<not> evicted (freshCache x h p gc)" "\<not> released (freshCache x h p gc)"
  "highestSeq (freshCache x h p gc) = h" "gpos (freshCache x h p gc) = p"
  "\<not> complete (freshCache x h p gc)"
  by (simp_all add: freshCache_def resetForReuse_def clearSlots_def)

lemma reserved_places:
  assumes pl: "placesOk r sq" and a: "a < length (heap r')" and na: "Some a \<notin> set (caches r)"
    and same: "caches r' = caches r" "ringPos r' = ringPos r" "maxSeq r' = maxSeq r"
      "length (heap r) \<le> length (heap r')" "\<forall>b < length (heap r'). b \<noteq> a \<longrightarrow> heap r' ! b = heap r ! b"
  shows "placesOk (reserved x a r') (sq @ [x])"
proof -
  let ?n = "length (caches r)"
  let ?m = "length sq"
  let ?idx = "Suc ?m mod ?n"
  let ?s = "reserved x a r'"
  have n: "0 < ?n" and pos: "ringPos r = ?m" and mx: "maxSeq r = maxOf sq"
    using pl by (auto simp: placesOk_def)
  then have idx: "?idx < ?n" by simp
  have live: "b < length (heap r) \<and> liveOk ?n sq j (heap r ! b)" if "j < ?n" "caches r ! j = Some b" for j b
    using pl that by (simp add: placesOk_def)
  have s: "caches ?s = (caches r)[?idx := Some a]" "ringPos ?s = Suc ?m" "maxSeq ?s = max (maxOf sq) x"
    "length (heap ?s) = length (heap r')"
    by (auto simp: reserved_def Let_def same pos mx split: option.split)
  have ha: "heap ?s ! a = freshCache x (max (maxOf sq) x) (Suc ?m) (heap r' ! a)"
    using a na idx by (auto simp: reserved_def Let_def same pos mx updCache_def nth_list_update
        in_set_conv_nth split: option.split)
  have hb: "heap ?s ! b = heap r ! b" if "j < ?n" "j \<noteq> ?idx" "caches r ! j = Some b" for j b
  proof -
    have "b \<noteq> a" using na that nth_mem by metis
    moreover have "caches r ! ?idx \<noteq> Some b"
      using live [OF that(1,3)] live [OF idx, of b] that(2) by (auto simp: liveOk_def)
    moreover have "b < length (heap r')" using live [OF that(1,3)] same(4) by simp
    ultimately show ?thesis
      using same(5) by (auto simp: reserved_def Let_def same(1-3) pos mx updCache_def nth_list_update
          split: option.split)
  qed
  have newpos: "\<not> gpos (heap r ! b) + ?n \<le> Suc ?m" if "j < ?n" "j \<noteq> ?idx" "caches r ! j = Some b" for j b
  proof
    assume "gpos (heap r ! b) + ?n \<le> Suc ?m"
    moreover have "?m < gpos (heap r ! b) + ?n" "gpos (heap r ! b) mod ?n = j"
      using live [OF that(1,3)] by (simp_all add: liveOk_def)
    ultimately have "Suc ?m = gpos (heap r ! b) + ?n" by simp
    then have "?idx = j" using \<open>gpos (heap r ! b) mod ?n = j\<close> by simp
    with that(2) show False by simp
  qed
  have "b < length (heap ?s) \<and> liveOk ?n (sq @ [x]) j (heap ?s ! b)"
    if j: "j < ?n" "caches ?s ! j = Some b" for j b
  proof (cases "j = ?idx")
    case True
    with j s(1) have "b = a" by simp
    then show ?thesis using True a n s(4) by (simp add: ha liveOk_def)
  next
    case False
    with j s(1) have c: "caches r ! j = Some b" by simp
    from live [OF j(1) c] newpos [OF j(1) False c] hb [OF j(1) False c] s(4) same(4)
    show ?thesis by (auto simp: liveOk_def nth_append)
  qed
  moreover have "\<exists>b. caches ?s ! (p mod ?n) = Some b \<and> gpos (heap ?s ! b) = p"
    if p: "1 \<le> p" "p \<le> Suc ?m" "Suc ?m < p + ?n" for p
  proof (cases "p = Suc ?m")
    case True
    then show ?thesis using idx by (simp add: s(1) ha)
  next
    case False
    then have ne: "p mod ?n \<noteq> ?idx" using p mod_collision [of p ?n "Suc ?m"] by auto
    moreover have "p mod ?n < ?n" using n by simp
    moreover obtain b where "caches r ! (p mod ?n) = Some b" "gpos (heap r ! b) = p"
      using pl p False by (auto simp: placesOk_def)
    ultimately show ?thesis using hb by (auto simp: s(1))
  qed
  moreover have "caches ?s \<noteq> []" using n by (simp add: s(1))
  ultimately show ?thesis unfolding placesOk_def using s by simp
qed


lemma reserved_inv:
  assumes inv: "ringInv r H sq" and g: "poolGet ch r = (a, r')"
  defines "old \<equiv> caches r' ! ((ringPos r' + 1) mod length (caches r'))"
  shows "ringInvX (set_option old) (reserved x a r') (H(a := 1)) (sq @ [x])"
    and "old = Some b \<Longrightarrow> b < length (heap (reserved x a r')) \<and> b \<noteq> a \<and> evicted (heap (reserved x a r') ! b)
      \<and> refCount (heap (reserved x a r') ! b) = int (H b)"
proof -
  note P = poolGet_spec [OF inv g]
  have pl: "placesOk r sq" using inv by (simp add: ringInv_def ringInvX_def)
  let ?s = "reserved x a r'"
  let ?n = "length (caches r)"
  let ?idx = "(ringPos r' + 1) mod ?n"
  have idx: "?idx < ?n" using pl by (simp add: placesOk_def)
  have caches: "caches ?s = (caches r)[?idx := Some a]" and pool: "gcPool ?s = gcPool r'"
    and len: "length (heap ?s) = length (heap r')"
    using P by (auto simp: reserved_def Let_def split: option.split)
  have oldr: "old = caches r ! ?idx" using P by (simp add: old_def)
  have oldfacts: "b < length (heap r) \<and> b \<noteq> a \<and> \<not> evicted (heap r ! b) \<and> b < length (heap r')" if "old = Some b" for b
  proof -
    have "Some b \<in> set (caches r)" using that idx oldr by (metis nth_mem)
    moreover have "b < length (heap r) \<and> \<not> evicted (heap r ! b)"
      using that oldr place_of(1,2) [OF inv, of "ringPos r' + 1" b] by simp
    ultimately show ?thesis using P by auto
  qed
  have ha: "heap ?s ! a = freshCache x (max (maxSeq r) x) (ringPos r + 1) (heap r' ! a)"
    using P oldfacts by (auto simp: reserved_def Let_def old_def updCache_def nth_list_update
        split: option.split)
  have hb: "heap ?s ! b = (if old = Some b then (heap r ! b)\<lparr>evicted := True\<rparr> else heap r ! b)"
    if "b < length (heap r')" "b \<noteq> a" for b
    using P oldfacts that by (auto simp: reserved_def Let_def old_def updCache_def nth_list_update
        split: option.split)
  have ca: "cacheInv {} r H b" if "b < length (heap r')" "b \<noteq> a" for b
    using that P ringInv_cache [OF inv] by auto
  have "cacheInv (set_option old) ?s (H(a := 1)) b" if b: "b < length (heap r')" for b
  proof (cases "b = a")
    case True
    have "Some a \<in> set (caches ?s)" using idx by (simp add: caches set_update_memI)
    with True P show ?thesis by (simp add: cacheInv_def ha freshCache_ok pool)
  next
    case False
    note c = ca [OF b False, unfolded cacheInv_def] and h = hb [OF b False]
    have inpool: "b \<in> set (gcPool r') \<longleftrightarrow> b \<in> set (gcPool r)" using P b False by blast
    show ?thesis
    proof (cases "old = Some b")
      case True
      with c h False oldfacts inpool show ?thesis by (auto simp: cacheInv_def cacheOk_def pool)
    next
      case other: False
      have "Some b \<in> set (caches ?s)" if "Some b \<in> set (caches r)"
        using that other oldr by (auto simp: caches in_set_conv_nth nth_list_update)
          (metis nth_list_update_neq)
      with c h False other inpool show ?thesis by (auto simp: cacheInv_def pool)
    qed
  qed
  moreover have "placesOk ?s (sq @ [x])"
    using P pl by (intro reserved_places) auto
  ultimately show "ringInvX (set_option old) ?s (H(a := 1)) (sq @ [x])"
    using P by (auto simp: ringInvX_def len pool)
  show "old = Some b \<Longrightarrow> b < length (heap ?s) \<and> b \<noteq> a \<and> evicted (heap ?s ! b) \<and> refCount (heap ?s ! b) = int (H b)"
    using oldfacts [of b] hb [of b] ca [of b] by (auto simp: len cacheInv_def)
qed

lemma reserve_inv:
  assumes inv: "ringInv r H sq" and res: "reserve x ch r = (a, r')"
  shows "ringInv r' (H(a := 1)) (sq @ [x])"
proof -
  obtain a' r1 where g: "poolGet ch r = (a', r1)" by (cases "poolGet ch r")
  with res have [simp]: "a' = a" by (simp add: reserve_reserved [OF g])
  let ?old = "caches r1 ! ((ringPos r1 + 1) mod length (caches r1))"
  let ?s = "reserved x a r1"
  note X = reserved_inv(1) [OF inv g, of x] and O = reserved_inv(2) [OF inv g, of _ x]
  show ?thesis
  proof (cases ?old)
    case None
    with X res reserve_reserved [OF g, of x] show ?thesis by (simp add: ringInv_def)
  next
    case (Some b)
    from O [OF Some] have b: "b < length (heap ?s)" "b \<noteq> a" "evicted (heap ?s ! b)"
      "refCount (heap ?s ! b) = int (H b)" by auto
    from X Some have X': "ringInvX {b} ?s (H(a := 1)) (sq @ [x])" by simp
    show ?thesis
    proof (cases "H b = 0")
      case True
      with b res Some reserve_reserved [OF g, of x] have "r' = releaseCache b ?s" by simp
      with releaseCache_inv [OF X' b(1,3)] True b(2) show ?thesis by simp
    next
      case False
      with b res Some reserve_reserved [OF g, of x] have "r' = ?s" by simp
      with ringInvX_none [OF X'] False b(2) show ?thesis by simp
    qed
  qed
qed

section \<open>Runs of the ring\<close>

text \<open>
  What ingest, the fill workers and the subscribers do with the ring, one method at a time.
  Only a holder of a reference appends, completes or gives it back.
\<close>

inductive ring_run :: "groupRing \<Rightarrow> (nat \<Rightarrow> nat) \<Rightarrow> nat list \<Rightarrow> bool" where
  new: "0 < n \<Longrightarrow> ring_run (newGroupRing n) (\<lambda>_. 0) []"
| reserve: "ring_run r H sq \<Longrightarrow> reserve x ch r = (a, r') \<Longrightarrow> ring_run r' (H(a := 1)) (sq @ [x])"
| get: "ring_run r H sq \<Longrightarrow> get p r = Some (a, r') \<Longrightarrow> ring_run r' (H(a := H a + 1)) sq"
| append: "ring_run r H sq \<Longrightarrow> 0 < H a \<Longrightarrow> ring_run (updCache a (appendFrame f) r) H sq"
| finish: "ring_run r H sq \<Longrightarrow> 0 < H a \<Longrightarrow> ring_run (updCache a markComplete r) H sq"
| decr: "ring_run r H sq \<Longrightarrow> 0 < H a \<Longrightarrow> ring_run (decrRef a r) (H(a := H a - 1)) sq"

lemma newGroupRing_inv: "0 < n \<Longrightarrow> ringInv (newGroupRing n) (\<lambda>_. 0) []"
  by (simp add: ringInv_def ringInvX_def placesOk_def newGroupRing_def)

lemma ring_run_inv: "ring_run r H sq \<Longrightarrow> ringInv r H sq"
  by (induction rule: ring_run.induct)
    (assumption | rule newGroupRing_inv reserve_inv get_inv append_inv complete_inv decrRef_inv)+

lemma get_spec:
  assumes inv: "ringInv r H sq"
  shows "get p r = None \<longleftrightarrow> \<not> (1 \<le> p \<and> p \<le> length sq \<and> length sq < p + length (caches r))"
    and "get p r = Some (a, r') \<Longrightarrow> \<not> released (heap r ! a) \<and> a < length (heap r)
      \<and> gseq (heap r' ! a) = sq ! (p - 1) \<and> gpos (heap r' ! a) = p
      \<and> highestSeq (heap r' ! a) = maxOf (take p sq) \<and> stored (heap r' ! a) = stored (heap r ! a)"
proof -
  let ?c = "caches r ! (p mod length (caches r))"
  have "\<exists>a. ?c = Some a \<and> gpos (heap r ! a) = p"
    if "1 \<le> p" "p \<le> length sq" "length sq < p + length (caches r)"
    using inv that by (auto simp: ringInv_def ringInvX_def placesOk_def)
  moreover have "1 \<le> p \<and> p \<le> length sq \<and> length sq < p + length (caches r)"
    if "?c = Some a" "gpos (heap r ! a) = p" for a
    using place_of(4) [OF inv that(1)] that(2) by (simp add: liveOk_def)
  ultimately show "get p r = None \<longleftrightarrow> \<not> (1 \<le> p \<and> p \<le> length sq \<and> length sq < p + length (caches r))"
    using place_of(3) [OF inv, of p] by (fastforce simp: get_def split: option.splits)
  assume "get p r = Some (a, r')"
  then have c: "?c = Some a" and p: "gpos (heap r ! a) = p" and r': "r' = updCache a incrRef r"
    by (auto simp: get_def split: option.splits if_splits)
  from place_of [OF inv c] p show "\<not> released (heap r ! a) \<and> a < length (heap r)
      \<and> gseq (heap r' ! a) = sq ! (p - 1) \<and> gpos (heap r' ! a) = p
      \<and> highestSeq (heap r' ! a) = maxOf (take p sq) \<and> stored (heap r' ! a) = stored (heap r ! a)"
    by (auto simp: r' incrRef_def liveOk_def stored_def)
qed


lemma get_result: "get p r = Some (a, r') \<Longrightarrow> r' = updCache a incrRef r"
  by (auto simp: get_def split: option.splits if_splits)

lemma available_iff:
  assumes "ringInv r H sq"
  shows "1 \<le> p \<and> p \<le> length sq \<and> length sq < p + length (caches r)
    \<longleftrightarrow> earliestAvailable r \<le> p \<and> p \<le> ringHead r"
proof -
  have "ringPos r = length sq" using assms by (simp add: ringInv_def ringInvX_def placesOk_def)
  then show ?thesis by (auto simp: earliestAvailable_def ringHead_def)
qed

subsection \<open>Filling a reserved group\<close>

lemma fold_upd:
  assumes "a < length (heap r)"
  shows "length (heap (fold (\<lambda>f. updCache a (appendFrame f)) fs r)) = length (heap r)
    \<and> caches (fold (\<lambda>f. updCache a (appendFrame f)) fs r) = caches r
    \<and> ringPos (fold (\<lambda>f. updCache a (appendFrame f)) fs r) = ringPos r
    \<and> heap (fold (\<lambda>f. updCache a (appendFrame f)) fs r) ! a = fold appendFrame fs (heap r ! a)"
  using assms by (induction fs arbitrary: r) auto

lemma fold_append_fields:
  "gpos (fold appendFrame fs gc) = gpos gc" "evicted (fold appendFrame fs gc) = evicted gc"
  "released (fold appendFrame fs gc) = released gc" "gseq (fold appendFrame fs gc) = gseq gc"
  by (induction fs arbitrary: gc) (simp_all add: append_fields)

lemma fill_live:
  assumes a: "a < length (heap r)" and live: "\<not> evicted (heap r ! a)"
  shows "caches (fill fs a r) = caches r \<and> ringPos (fill fs a r) = ringPos r
    \<and> heap (fill fs a r) ! a = (markComplete (fold appendFrame fs (heap r ! a)))
         \<lparr>refCount := refCount (fold appendFrame fs (heap r ! a)) - 1\<rparr>"
proof -
  let ?r = "updCache a markComplete (fold (\<lambda>f. updCache a (appendFrame f)) fs r)"
  note F = fold_upd [OF a, of fs]
  have "\<not> evicted (heap ?r ! a)" using F a live by (simp add: markComplete_def fold_append_fields)
  then have "fill fs a r = updCache a (\<lambda>gc. gc\<lparr>refCount := refCount gc - 1\<rparr>) ?r"
    using F a by (auto simp: fill_def decrRef_def decrRefAdd_def decrRefCheck_def Let_def)
  then show ?thesis using F a by (simp add: markComplete_def)
qed

lemma reserve_fresh:
  assumes inv: "ringInv r H sq" and res: "reserve x ch r = (a, r')"
  shows "a < length (heap r') \<and> caches r' ! (Suc (length sq) mod length (caches r')) = Some a
    \<and> cacheOk (heap r' ! a) \<and> stored (heap r' ! a) = [] \<and> gpos (heap r' ! a) = Suc (length sq)
    \<and> ringPos r' = Suc (length sq)"
proof -
  obtain a' r1 where g: "poolGet ch r = (a', r1)" by (cases "poolGet ch r")
  with res have [simp]: "a' = a" by (simp add: reserve_reserved [OF g])
  note P = poolGet_spec [OF inv g, simplified]
  have pl: "caches r \<noteq> []" "ringPos r = length sq"
    using inv by (simp_all add: ringInv_def ringInvX_def placesOk_def)
  let ?idx = "Suc (length sq) mod length (caches r)"
  have idx: "?idx < length (caches r)" using pl by simp
  have o: "o' \<noteq> a" if "caches r ! ?idx = Some o'" for o'
    using P idx that by (metis nth_mem)
  have "heap (reserved x a r1) ! a = freshCache x (max (maxSeq r) x) (Suc (length sq)) (heap r1 ! a)
    \<and> caches (reserved x a r1) = (caches r)[?idx := Some a] \<and> ringPos (reserved x a r1) = Suc (length sq)
    \<and> length (heap (reserved x a r1)) = length (heap r1)"
    using P pl o by (auto simp: reserved_def Let_def updCache_def nth_list_update split: option.split)
  moreover have "heap r' ! a = heap (reserved x a r1) ! a \<and> caches r' = caches (reserved x a r1)
    \<and> ringPos r' = ringPos (reserved x a r1) \<and> length (heap r') = length (heap (reserved x a r1))"
    using res P pl o by (auto simp: reserve_reserved [OF g] Let_def releaseCache_def updCache_def
        nth_list_update split: option.splits if_splits)
  ultimately show ?thesis using P idx by (simp add: freshCache_ok)
qed

section \<open>Two goroutines in decrRef\<close>

text \<open>
  The runs of the ring when \<open>decrRef\<close> can be interrupted between its decrement and its check.
  \<open>P\<close> are the caches whose check is still to come.
\<close>

inductive racing :: "groupRing \<Rightarrow> (nat \<Rightarrow> nat) \<Rightarrow> nat list \<Rightarrow> bool" where
  new: "0 < n \<Longrightarrow> racing (newGroupRing n) (\<lambda>_. 0) []"
| reserve: "racing r H P \<Longrightarrow> reserve x ch r = (a, r') \<Longrightarrow> racing r' (H(a := 1)) P"
| get: "racing r H P \<Longrightarrow> get p r = Some (a, r') \<Longrightarrow> racing r' (H(a := H a + 1)) P"
| append: "racing r H P \<Longrightarrow> 0 < H a \<Longrightarrow> racing (updCache a (appendFrame f) r) H P"
| finish: "racing r H P \<Longrightarrow> 0 < H a \<Longrightarrow> racing (updCache a markComplete r) H P"
| decrement: "racing r H P \<Longrightarrow> 0 < H a \<Longrightarrow> decrRefAdd a r = (zero, r') \<Longrightarrow>
    racing r' (H(a := H a - 1)) (if zero then a # P else P)"
| check: "racing r H P \<Longrightarrow> a \<in> set P \<Longrightarrow> racing (decrRefCheck a r) H (remove1 a P)"

section \<open>Properties\<close>

text \<open>
  C4: The ring holds exactly the latest groups: after any history of reservations, fills,
  reads and releases, asking for a position returns a group if and only if the position lies
  between the earliest available one and the head; the group returned is the one reserved
  there, with its publisher's sequence and the highest sequence reserved up to it, and is not
  a recycled one.
\<close>

theorem ring_get_correct:
  assumes "ring_run r H sq"
  shows "(get p r = None \<longleftrightarrow> \<not> (earliestAvailable r \<le> p \<and> p \<le> ringHead r))
    \<and> (\<forall>a r'. get p r = Some (a, r') \<longrightarrow> \<not> released (heap r' ! a)
         \<and> gpos (heap r' ! a) = p \<and> gseq (heap r' ! a) = sq ! (p - 1)
         \<and> highestSeq (heap r' ! a) = maxOf (take p sq))"
proof -
  note inv = ring_run_inv [OF assms]
  have "\<not> released (heap r' ! a)" if g: "get p r = Some (a, r')" for a r'
    using get_spec(2) [OF inv g] get_result [OF g] by (simp add: incrRef_def)
  with get_spec [OF inv, of p] available_iff [OF inv, of p] show ?thesis by blast
qed

text \<open>
  C5: As long as each method runs alone, references protect groups and nothing leaks: the
  counter of every cache is the number of references held, a cache with a holder is never
  released or in the pool, and every cache allocated is in the ring, held, or back in the pool.
\<close>

theorem ring_references_safe:
  assumes "ring_run r H sq"
  shows "(\<forall>a. 0 < H a \<longrightarrow> a < length (heap r) \<and> \<not> released (heap r ! a) \<and> a \<notin> set (gcPool r))
    \<and> (\<forall>a < length (heap r). refCount (heap r ! a) = int (H a)
         \<and> (Some a \<in> set (caches r) \<or> 0 < H a \<or> a \<in> set (gcPool r)))"
proof -
  note inv = ring_run_inv [OF assms]
  have "a < length (heap r) \<and> \<not> released (heap r ! a) \<and> a \<notin> set (gcPool r)" if "0 < H a" for a
    using held_below [OF inv that] ringInv_cache [OF inv, of a] that by (auto simp: cacheInv_def)
  moreover have "refCount (heap r ! a) = int (H a)
      \<and> (Some a \<in> set (caches r) \<or> 0 < H a \<or> a \<in> set (gcPool r))" if "a < length (heap r)" for a
    using ringInv_cache [OF inv that] by (auto simp: cacheInv_def)
  ultimately show ?thesis by blast
qed

text \<open>
  C9: A group is what its frames were: after a place is reserved and the group filled, the
  ring's head returns that group, complete, with its first 256 frames in order (any further
  ones are dropped), whatever the recycled cache held before.
\<close>

theorem ring_fill_correct:
  assumes "ring_run r H sq" and res: "reserve x ch r = (a, r1)"
  shows "\<exists>r2. get (ringHead (fill fs a r1)) (fill fs a r1) = Some (a, r2)
    \<and> stored (heap r2 ! a) = take MaxFramesPerGroup fs \<and> isComplete (heap r2 ! a)
    \<and> (\<forall>i. nextFrame (int i) (heap r2 ! a)
          = (if i < length fs \<and> i < MaxFramesPerGroup then Some (fs ! i) else None))"
proof -
  note inv = ring_run_inv [OF assms(1)]
  note F = reserve_fresh [OF inv res]
  note inv1 = reserve_inv [OF inv res]
  have n: "caches r1 \<noteq> []" using inv1 by (simp add: ringInv_def ringInvX_def placesOk_def)
  have live: "\<not> evicted (heap r1 ! a)" "\<not> released (heap r1 ! a)"
    using place_of(2,3) [OF inv1, of "Suc (length sq)" a] F by auto
  note L = fill_live [of a r1 fs] F live
  let ?gc = "heap (fill fs a r1) ! a"
  have gc: "gpos ?gc = Suc (length sq)" "\<not> released ?gc"
    using L by (simp_all add: markComplete_def fold_append_fields)
  have len: "a < length (heap (fill fs a r1))"
    using F live fold_upd [of a r1 fs]
    by (simp add: fill_def decrRef_def decrRefAdd_def decrRefCheck_def releaseCache_def Let_def)
  let ?r2 = "updCache a incrRef (fill fs a r1)"
  have g: "get (ringHead (fill fs a r1)) (fill fs a r1) = Some (a, ?r2)"
    using L gc by (simp add: get_def ringHead_def)
  have "cacheOk (fold appendFrame fs (heap r1 ! a))"
    "stored (fold appendFrame fs (heap r1 ! a)) = take MaxFramesPerGroup fs"
    using fold_append_ok [of "heap r1 ! a" fs] F by simp_all
  then have s: "cacheOk (heap ?r2 ! a)" "stored (heap ?r2 ! a) = take MaxFramesPerGroup fs"
    "isComplete (heap ?r2 ! a)"
    using L len by (simp_all add: incrRef_def markComplete_def stored_def cacheOk_def isComplete_def)
  with nextFrame_stored [OF s(1)] g show ?thesis by auto
qed

text \<open>A short run of a ring of two places, for the witnesses.\<close>

definition sampleRing :: "nat \<times> groupRing" where
  "sampleRing = reserve 7 None (newGroupRing 2)"

lemma sampleRing_run: "ring_run (snd sampleRing) ((\<lambda>_. 0)(fst sampleRing := 1)) [7]"
  using ring_run.reserve [OF ring_run.new [of 2], of 7 None "fst sampleRing" "snd sampleRing"]
  by (simp add: sampleRing_def)

lemma sampleRing_fst: "fst sampleRing = 0"
  by (simp add: sampleRing_def reserve_def poolGet_def newGroupRing_def Let_def)

lemma sampleRing_snd: "ringPos (snd sampleRing) = 1" "caches (snd sampleRing) = [None, Some 0]"
  "length (heap (snd sampleRing)) = 1"
  by (simp_all add: sampleRing_def reserve_def poolGet_def newGroupRing_def Let_def numeral_2_eq_2)

theorem ring_get_correct_witness: "get 1 (snd sampleRing) \<noteq> None \<and> get 2 (snd sampleRing) = None"
  using ring_get_correct [OF sampleRing_run, of 1] ring_get_correct [OF sampleRing_run, of 2]
  by (simp add: earliestAvailable_def ringHead_def sampleRing_snd)

theorem ring_references_safe_witness:
  "refCount (heap (snd sampleRing) ! 0) = 1 \<and> \<not> released (heap (snd sampleRing) ! 0)"
  using ring_references_safe [OF sampleRing_run] by (simp add: sampleRing_fst sampleRing_snd)

theorem ring_fill_correct_witness:
  "\<exists>a r1 r2. reserve 9 None (snd sampleRing) = (a, r1)
    \<and> get (ringHead (fill [[1], [2]] a r1)) (fill [[1], [2]] a r1) = Some (a, r2)
    \<and> nextFrame 1 (heap r2 ! a) = Some [2] \<and> isComplete (heap r2 ! a)"
proof -
  obtain a r1 where r: "reserve 9 None (snd sampleRing) = (a, r1)" by (cases "reserve 9 None (snd sampleRing)")
  from ring_fill_correct [OF sampleRing_run r, of "[[1], [2]]"] obtain r2 where
    g: "get (ringHead (fill [[1], [2]] a r1)) (fill [[1], [2]] a r1) = Some (a, r2)"
    and c: "isComplete (heap r2 ! a)"
    and n: "\<forall>i. nextFrame (int i) (heap r2 ! a) = (if i < length [[1], [2 :: byte]] \<and> i < MaxFramesPerGroup
      then Some ([[1], [2]] ! i) else None)" by blast
  from n [rule_format, of 1] have "nextFrame 1 (heap r2 ! a) = Some [2]" by (simp add: MaxFramesPerGroup_def)
  with r g c show ?thesis by blast
qed

definition samplePasses :: "pass list" where
  "samplePasses =
     (let g0 = newGroupCache 1; g1 = appendFrame [1] g0
      in [\<lparr>atNext = g0, atComplete = g0, waited = True\<rparr>, \<lparr>atNext = g1, atComplete = g1, waited = True\<rparr>])"

lemma stored_new: "stored (newGroupCache sq) = []"
  by (simp add: stored_def newGroupCache_def)

text \<open>
  The end of a group can be lost: when the filler stores the last frame and marks the
  group complete between a reader's load of the slot and its load of the complete flag, the
  reader's loop ends as if the group had been sent, without the stored frame.
\<close>

theorem frames_tail_lost:
  assumes "cacheOk gc" and "cnt gc < MaxFramesPerGroup"
  shows "stored (markComplete (appendFrame f gc)) = stored gc @ [f]
    \<and> frames (cnt gc) (\<lparr>atNext = gc, atComplete = markComplete (appendFrame f gc), waited = True\<rparr> # ps) = []"
proof -
  have len: "length (stored gc) = cnt gc" using assms by (simp add: stored_def cacheOk_def)
  with nextFrame_stored [OF assms(1), of "cnt gc"] have "nextFrame (int (cnt gc)) gc = None" by simp
  moreover have "stored (markComplete (appendFrame f gc)) = stored (appendFrame f gc)"
    by (simp add: markComplete_def stored_def)
  ultimately show ?thesis using appendFrame_ok(2) [OF assms(1), of f] assms(2) len
    by (simp add: isComplete_def markComplete_def)
qed

text \<open>
  C37: \<open>decrRef\<close> races with \<open>get\<close> and \<open>reserve\<close>: there is a run in which a cache is released,
  its frames given back and itself pooled for reuse, while a subscriber holds a reference to it.
\<close>

theorem decrRef_races_with_get:
  "\<exists>r H P a. racing r H P \<and> 0 < H a \<and> released (heap r ! a) \<and> a \<in> set (gcPool r)"
proof -
  let ?r0 = "newGroupRing 1"
  let ?r1 = "snd (reserve 1 None ?r0)"
  let ?r2 = "snd (decrRefAdd 0 ?r1)"
  let ?r3 = "snd (the (get 1 ?r2))"
  let ?r4 = "snd (reserve 2 None ?r3)"
  let ?r5 = "decrRefCheck 0 ?r4"
  note defs = reserve_def poolGet_def newGroupRing_def Let_def updCache_def decrRefAdd_def get_def
    incrRef_def resetForReuse_def clearSlots_def newGroupCache_def markEvictedLocked_def decrRefCheck_def
    releaseCache_def
  have f1: "fst (reserve 1 None ?r0) = 0" by (simp add: defs)
  have z: "decrRefAdd 0 ?r1 = (True, ?r2)" by (simp add: defs)
  have g: "get 1 ?r2 = Some (0, ?r3)" by (simp add: defs)
  have f4: "fst (reserve 2 None ?r3) = 1" by (simp add: defs)
  have r: "released (heap ?r5 ! 0)" "0 \<in> set (gcPool ?r5)" by (simp_all add: defs)
  have "racing ?r1 ((\<lambda>_. 0)(0 := 1)) []"
    using racing.reserve [OF racing.new [of 1], of 1 None 0 ?r1] f1 by (simp add: prod_eq_iff)
  from racing.decrement [OF this _ z] have "racing ?r2 ((\<lambda>_. 0)(0 := 1, 0 := 0)) [0]" by simp
  from racing.get [OF this g] have "racing ?r3 ((\<lambda>_. 0)(0 := 1, 0 := 0, 0 := 1)) [0]" by simp
  from racing.reserve [OF this, of 2 None 1 ?r4] f4
  have "racing ?r4 ((\<lambda>_. 0)(0 := 1, 0 := 0, 0 := 1, 1 := 1)) [0]" by (simp add: prod_eq_iff)
  from racing.check [OF this, of 0] have "racing ?r5 ((\<lambda>_. 0)(0 := 1, 0 := 0, 0 := 1, 1 := 1)) []" by simp
  moreover have "0 < ((\<lambda>_. 0 :: nat)(0 := 1, 0 := 0, 0 := 1, 1 := 1)) (0 :: nat)" by simp
  ultimately show ?thesis using r by blast
qed

end
