(* ===== verification/Notify.thy ===== *)
theory Notify
  imports Prelude
begin

text \<open>
  The relay's wakeup mechanism, \<^verbatim>\<open>src/internal/relay/broadcast_notify.go\<close>: a sequence number and a
  channel that is closed when the number advances. Channels are numbered in the order they are
  made; \<open>doubleClose\<close> records the closing of a closed channel, which panics in Go. \<open>notify\<close> runs
  under its mutex and \<open>listen\<close> is one atomic load, so both are single steps; the lazy
  initialisation is a check and a store, which other goroutines may separate.
\<close>

record notifyState =
  nseq :: nat
  nch :: nat

record broadcastNotify =
  bstate :: "notifyState option"
  closedChs :: "nat set"
  madeChs :: nat
  doubleClose :: bool

definition zeroNotify :: broadcastNotify where
  "zeroNotify = \<lparr>bstate = None, closedChs = {}, madeChs = 0, doubleClose = False\<rparr>"

definition initNotify :: "broadcastNotify \<Rightarrow> broadcastNotify" where
  "initNotify b = b\<lparr>bstate := Some \<lparr>nseq = 0, nch = madeChs b\<rparr>, madeChs := madeChs b + 1\<rparr>"

definition lazyInit :: "broadcastNotify \<Rightarrow> broadcastNotify" where
  "lazyInit b = (if bstate b = None then initNotify b else b)"

definition closeCh :: "nat \<Rightarrow> broadcastNotify \<Rightarrow> broadcastNotify" where
  "closeCh c b = b\<lparr>closedChs := insert c (closedChs b), doubleClose := doubleClose b \<or> c \<in> closedChs b\<rparr>"

definition notify :: "broadcastNotify \<Rightarrow> broadcastNotify" where
  "notify b0 =
     (let b = lazyInit b0;
          old = the (bstate b);
          n = \<lparr>nseq = nseq old + 1, nch = madeChs b\<rparr>
      in closeCh (nch old) (b\<lparr>bstate := Some n, madeChs := madeChs b + 1\<rparr>))"

definition listen :: "broadcastNotify \<Rightarrow> notifyState \<times> broadcastNotify" where
  "listen b0 = (let b = lazyInit b0 in (the (bstate b), b))"

text \<open>Whether a receive from the channel of a state returns.\<close>

definition isClosed :: "notifyState \<Rightarrow> broadcastNotify \<Rightarrow> bool" where
  "isClosed s b \<longleftrightarrow> nch s \<in> closedChs b"

section \<open>What a waiter relies on\<close>

text \<open>
  A wakeup source is a counter: \<open>listen\<close> gives the count with a handle to wait on, and the
  handle of a count is ready exactly when the counter has moved on. \<open>captured s b\<close>: \<open>s\<close> was
  returned by an earlier \<open>listen\<close>.
\<close>

locale wakeup_source =
  fixes inv :: "'b \<Rightarrow> bool" and cur :: "'b \<Rightarrow> nat"
    and advance :: "'b \<Rightarrow> 'b" and look :: "'b \<Rightarrow> 's \<times> 'b"
    and seqOf :: "'s \<Rightarrow> nat" and ready :: "'s \<Rightarrow> 'b \<Rightarrow> bool" and captured :: "'s \<Rightarrow> 'b \<Rightarrow> bool"
  assumes advance_ok: "inv b \<Longrightarrow> inv (advance b) \<and> cur (advance b) = Suc (cur b)"
    and look_ok: "inv b \<Longrightarrow> look b = (s, b') \<Longrightarrow>
      inv b' \<and> cur b' = cur b \<and> seqOf s = cur b \<and> captured s b'"
    and captured_advance: "inv b \<Longrightarrow> captured s b \<Longrightarrow> captured s (advance b)"
    and captured_look: "inv b \<Longrightarrow> captured s b \<Longrightarrow> look b = (s', b') \<Longrightarrow> captured s b'"
    and captured_le: "inv b \<Longrightarrow> captured s b \<Longrightarrow> seqOf s \<le> cur b"
    and ready_iff: "inv b \<Longrightarrow> captured s b \<Longrightarrow> ready s b \<longleftrightarrow> seqOf s < cur b"
begin

text \<open>Any interleaving: \<open>True\<close> advances, \<open>False\<close> listens and keeps the handle.\<close>

fun watch :: "bool list \<Rightarrow> 'b \<Rightarrow> 's list \<Rightarrow> 'b \<times> 's list" where
  "watch [] b hs = (b, hs)"
| "watch (True # es) b hs = watch es (advance b) hs"
| "watch (False # es) b hs = (let (s, b') = look b in watch es b' (hs @ [s]))"

lemma watch_run:
  assumes "inv b" and "\<forall>s \<in> set hs. captured s b" and "watch es b hs = (b', hs')"
  shows "inv b' \<and> (\<forall>s \<in> set hs'. captured s b') \<and> cur b' = cur b + length (filter id es)"
  using assms
proof (induction es b hs rule: watch.induct)
  case (2 es b hs)
  then show ?case using advance_ok captured_advance by simp
next
  case (3 es b hs)
  obtain s c where l: "look b = (s, c)" by (cases "look b")
  with "3.IH" [OF l [symmetric] refl] "3.prems" look_ok [OF "3.prems"(1) l]
    captured_look [OF "3.prems"(1) _ l] show ?case by auto
qed simp

lemma watch_ready:
  assumes "inv b" and "watch es b [] = (b', hs)" and "s \<in> set hs"
  shows "ready s b' \<longleftrightarrow> seqOf s < cur b'" and "inv b'"
  using watch_run [OF assms(1) _ assms(2)] ready_iff assms(3) by auto

end

text \<open>
  After one initialisation and \<open>k\<close> notifications: the channel of a count is the one made for it.
\<close>

definition countedTo :: "nat \<Rightarrow> broadcastNotify" where
  "countedTo k = \<lparr>bstate = Some \<lparr>nseq = k, nch = k\<rparr>, closedChs = {..<k}, madeChs = Suc k, doubleClose = False\<rparr>"

definition curSeq :: "broadcastNotify \<Rightarrow> nat" where
  "curSeq b = nseq (the (bstate b))"

definition notifyInv :: "broadcastNotify \<Rightarrow> bool" where
  "notifyInv b \<longleftrightarrow> b = countedTo (curSeq b)"

definition stateOf :: "notifyState \<Rightarrow> broadcastNotify \<Rightarrow> bool" where
  "stateOf s b \<longleftrightarrow> nch s = nseq s \<and> nseq s \<le> curSeq b"

lemmas notify_defs = notify_def listen_def lazyInit_def initNotify_def closeCh_def Let_def

lemma countedTo_simps [simp]:
  "curSeq (countedTo k) = k" "notifyInv (countedTo k)" "\<not> doubleClose (countedTo k)"
  "listen (countedTo k) = (\<lparr>nseq = k, nch = k\<rparr>, countedTo k)"
  "isClosed s (countedTo k) \<longleftrightarrow> nch s < k"
  by (simp_all add: curSeq_def notifyInv_def countedTo_def notify_defs isClosed_def)

lemma notify_countedTo [simp]: "notify (countedTo k) = countedTo (Suc k)"
  by (simp add: countedTo_def notify_defs lessThan_Suc)

lemma notifyInvE: "notifyInv b \<Longrightarrow> (\<And>k. b = countedTo k \<Longrightarrow> P) \<Longrightarrow> P"
  unfolding notifyInv_def by blast

interpretation wakeups: wakeup_source notifyInv curSeq notify listen nseq isClosed stateOf
  by standard (auto simp: stateOf_def elim!: notifyInvE)

lemma initNotify_zero: "initNotify zeroNotify = countedTo 0"
  by (simp add: countedTo_def initNotify_def zeroNotify_def)

section \<open>Properties\<close>

text \<open>
  No wakeup is lost: whatever the interleaving of notifications with the listening of any
  number of goroutines, the channel a goroutine captured is closed if and only if the sequence
  has advanced since, and no channel is closed twice.
\<close>

theorem notify_wakes_listeners:
  assumes "wakeups.watch es (initNotify zeroNotify) [] = (b, ss)" and "s \<in> set ss"
  shows "(isClosed s b \<longleftrightarrow> nseq s < nseq (fst (listen b))) \<and> \<not> doubleClose b"
proof -
  have "notifyInv (initNotify zeroNotify)" by (simp add: initNotify_zero)
  from wakeups.watch_ready [OF this assms] show ?thesis by (auto elim!: notifyInvE)
qed

text \<open>
  The lazy initialisation can strand a waiter: when a goroutine is stopped between seeing no
  state and storing one, while another notifies and a third starts waiting, the store replaces
  the state the third one waits on, and no later notification ever closes its channel.
\<close>

theorem lazyInit_strands_waiter:
  assumes "bstate b0 = None" and "closedChs b0 \<subseteq> {..<madeChs b0}" and "listen (notify b0) = (s, b1)"
  shows "\<not> isClosed s ((notify ^^ k) (initNotify b1))"
proof -
  have s: "nch s = Suc (madeChs b0)" and b1: "madeChs b1 = Suc (Suc (madeChs b0))"
    "closedChs b1 = insert (madeChs b0) (closedChs b0)"
    using assms by (auto simp: notify_defs)
  let ?ok = "\<lambda>b. nch s \<notin> closedChs b \<and> (\<exists>st. bstate b = Some st \<and> nch s < nch st) \<and> nch s < madeChs b"
  have step: "?ok (notify b)" if "?ok b" for b using that by (auto simp: notify_defs)
  have "?ok ((notify ^^ k) (initNotify b1))"
  proof (induction k)
    case 0
    show ?case using s b1 assms(2) by (auto simp: initNotify_def)
  next
    case (Suc k)
    from step [OF this] show ?case by simp
  qed
  then show ?thesis by (simp add: isClosed_def)
qed

end
