(* ===== verification/Egress.thy ===== *)
theory Egress
  imports Drop_Report Group_Ring Notify
begin

text \<open>
  The delivery of a track to one subscriber, \<^verbatim>\<open>src/internal/relay/handler.go\<close>: \<open>egress\<close>,
  \<open>startPosition\<close> and \<open>deliverGroup\<close>, over the group ring, the drop reporter and the wakeup
  mechanism. The subscriber's stream is the third-party track writer: the outcome of opening a
  group and of writing its frames are arguments. The error codes it defines are arguments too.
\<close>

section \<open>Delivering one group\<close>

datatype deliverResult = groupSent | groupTimedOut | deliveryStopped

text \<open>
  How the loop over \<open>frames\<close> ended: \<open>Some True\<close> the group was complete, \<open>Some False\<close> the wait was
  cancelled, \<open>None\<close> the loop is still running after these passes.
\<close>

fun framesEnd :: "nat \<Rightarrow> pass list \<Rightarrow> bool option" where
  "framesEnd i [] = None"
| "framesEnd i (p # ps) =
     (case nextFrame (int i) (atNext p) of
        Some f \<Rightarrow> framesEnd (i + 1) ps
      | None \<Rightarrow> if isComplete (atComplete p) then Some True
                else if \<not> waited p then Some False else framesEnd i ps)"

text \<open>The result of \<open>OpenGroupAt\<close>: whether it failed, its timer fired, the subscriber is gone.\<close>

record openResult =
  openFailed :: bool
  timedOut :: bool
  ctxDone :: bool

text \<open>
  \<open>failAt\<close> is the index of the first frame whose write fails. The result comes with the frames
  written and the ring after the reference is given back; \<open>None\<close> while the delivery goes on.
\<close>

definition deliverGroup :: "openResult \<Rightarrow> nat option \<Rightarrow> pass list \<Rightarrow> nat \<Rightarrow> groupRing
    \<Rightarrow> (deliverResult \<times> bytes list \<times> groupRing) option" where
  "deliverGroup opn failAt ps a ring =
     (if openFailed opn then
        Some (if timedOut opn \<and> \<not> ctxDone opn then groupTimedOut else deliveryStopped, [], decrRef a ring)
      else let fs = frames 0 ps
           in case failAt of
                Some k \<Rightarrow> if k < length fs then Some (deliveryStopped, take k fs, decrRef a ring)
                          else map_option (\<lambda>done. (if done then groupSent else deliveryStopped, fs, decrRef a ring))
                                 (framesEnd 0 ps)
              | None \<Rightarrow> map_option (\<lambda>done. (if done then groupSent else deliveryStopped, fs, decrRef a ring))
                          (framesEnd 0 ps))"

section \<open>The egress loop\<close>

text \<open>Where the goroutine is: in the loop, before its last check for news, waiting, or back.\<close>

datatype egressPc = AtLoop | AtListen | Parked notifyState | Finished | Stopped

text \<open>\<open>deliveredPos\<close> records the positions of the groups sent, in order.\<close>

record egress =
  reporter :: dropReporter
  lastState :: notifyState
  lastPos :: nat
  skipped :: bool
  pc :: egressPc
  deliveredPos :: "nat list"

definition startPosition :: "bool \<Rightarrow> groupRing \<Rightarrow> nat" where
  "startPosition fromStart ring =
     (if fromStart then earliestAvailable ring - 1
      else if ringHead ring > 0 then ringHead ring - 1 else ringHead ring)"

definition newEgress :: "bool \<Rightarrow> groupRing \<Rightarrow> dropDistributor \<Rightarrow> notifyState \<Rightarrow> egress" where
  "newEgress fromStart ring dd s = \<lparr>reporter = newDropReporter dd, lastState = s,
     lastPos = startPosition fromStart ring, skipped = False, pc = AtLoop, deliveredPos = []\<rparr>"

text \<open>
  Choosing the next group. \<open>head\<close>, \<open>earliestAvailable\<close> and \<open>get\<close> are three accesses, so each has
  the ring it sees.
\<close>

definition egressPick :: "groupRing \<Rightarrow> groupRing \<Rightarrow> groupRing \<Rightarrow> egress \<Rightarrow> egress \<times> (nat \<times> groupRing) option" where
  "egressPick r0 r1 r2 e =
     (let latest = ringHead r0
      in if lastPos e < latest then
           let l = lastPos e + 1;
               e' = (if l < earliestAvailable r1 then e\<lparr>lastPos := latest, skipped := True\<rparr>
                     else e\<lparr>lastPos := l\<rparr>)
           in (e', get (lastPos e') r2)
         else (e, None))"

text \<open>
  What follows for a group with sequence \<open>sq\<close>, the highest sequence reserved up to it and the
  outcome \<open>res\<close> of its delivery.
\<close>

definition egressGroup :: "nat \<Rightarrow> nat \<Rightarrow> dropDistributor \<Rightarrow> deliverResult \<Rightarrow> nat \<Rightarrow> nat \<Rightarrow> egress \<Rightarrow> egress" where
  "egressGroup codeInternal codeTimeout dd res sq highest e0 =
     (let e = (if skipped e0 then e0\<lparr>reporter := reportSkipped sq highest codeInternal (reporter e0),
                 skipped := False\<rparr> else e0)
      in if isHandled sq (reporter e) then e
         else case res of
           deliveryStopped \<Rightarrow> e\<lparr>pc := Stopped\<rparr>
         | groupTimedOut \<Rightarrow> e\<lparr>reporter := report \<lparr>StartGroup = sq, EndGroup = sq, ErrorCode = codeTimeout\<rparr> (reporter e)\<rparr>
         | groupSent \<Rightarrow> e\<lparr>reporter := flush dd (sent sq (reporter e)),
                        deliveredPos := deliveredPos e @ [lastPos e]\<rparr>)"

definition egressIdle :: "dropDistributor \<Rightarrow> egress \<Rightarrow> egress" where
  "egressIdle dd e = e\<lparr>reporter := flush dd (reporter e), pc := AtListen\<rparr>"

definition egressCheck :: "notifyState \<Rightarrow> egress \<Rightarrow> egress" where
  "egressCheck s e = (if nseq s > nseq (lastState e) then e\<lparr>lastState := s, pc := AtLoop\<rparr>
     else e\<lparr>pc := Parked s\<rparr>)"

definition egressWoken :: "notifyState \<Rightarrow> egress \<Rightarrow> egress" where
  "egressWoken s e = e\<lparr>lastState := s, pc := AtLoop\<rparr>"

definition egressDone :: "dropDistributor \<Rightarrow> egress \<Rightarrow> egress" where
  "egressDone dd e = e\<lparr>reporter := flush dd (reporter e), pc := Finished\<rparr>"

section \<open>Runs\<close>

text \<open>
  The track around the subscriber: the ring with the references held and the sequences
  reserved, the drops, the wakeups, whether ingest has ended, and how many groups had been
  reserved when it last notified.
\<close>

record track =
  tring :: groupRing
  theld :: "nat \<Rightarrow> nat"
  tseqs :: "nat list"
  tdrops :: dropDistributor
  tnotify :: broadcastNotify
  tdone :: bool
  announced :: nat

definition trackOk :: "track \<Rightarrow> bool" where
  "trackOk t \<longleftrightarrow> ring_run (tring t) (theld t) (tseqs t) \<and> (\<forall>x \<in> set (tseqs t). x < 2 ^ 64 - 1)
     \<and> drops (tdrops t) \<noteq> [] \<and> (\<forall>d \<in> set (drops (tdrops t)). dropOk d)
     \<and> notifyInv (tnotify t) \<and> announced t \<le> length (tseqs t)"

text \<open>
  Ingest, the fill workers and the other subscribers bring the ring to any later state of its
  own between two steps of the subscriber. Here the three accesses of a pick see the same ring.
\<close>

inductive egress_run :: "track \<Rightarrow> egress \<Rightarrow> bool" where
  start: "trackOk t \<Longrightarrow> listen (tnotify t) = (s, b) \<Longrightarrow>
    egress_run (t\<lparr>tnotify := b\<rparr>) (newEgress fromStart (tring t) (tdrops t) s)"
| ring: "egress_run t e \<Longrightarrow> ring_run r' H' (tseqs t @ xs) \<Longrightarrow>
    length (caches r') = length (caches (tring t)) \<Longrightarrow> \<forall>x \<in> set xs. x < 2 ^ 64 - 1 \<Longrightarrow>
    egress_run (t\<lparr>tring := r', theld := H', tseqs := tseqs t @ xs\<rparr>) e"
| broadcast: "egress_run t e \<Longrightarrow>
    egress_run (t\<lparr>tnotify := notify (tnotify t), announced := length (tseqs t)\<rparr>) e"
| upstream: "egress_run t e \<Longrightarrow> dropOk d \<Longrightarrow> egress_run (t\<lparr>tdrops := recordDrop d (tdrops t)\<rparr>) e"
| ended: "egress_run t e \<Longrightarrow> egress_run (t\<lparr>tdone := True\<rparr>) e"
| group: "egress_run t e \<Longrightarrow> pc e = AtLoop \<Longrightarrow>
    egressPick (tring t) (tring t) (tring t) e = (e', Some (a, r')) \<Longrightarrow>
    egress_run t (egressGroup ci ct (tdrops t) res (gseq (heap r' ! a)) (highestSeq (heap r' ! a)) e')"
| idle: "egress_run t e \<Longrightarrow> pc e = AtLoop \<Longrightarrow>
    egressPick (tring t) (tring t) (tring t) e = (e', None) \<Longrightarrow> egress_run t (egressIdle (tdrops t) e')"
| check: "egress_run t e \<Longrightarrow> pc e = AtListen \<Longrightarrow> listen (tnotify t) = (s, b) \<Longrightarrow>
    egress_run (t\<lparr>tnotify := b\<rparr>) (egressCheck s e)"
| woken: "egress_run t e \<Longrightarrow> pc e = Parked s \<Longrightarrow> isClosed s (tnotify t) \<Longrightarrow>
    listen (tnotify t) = (s', b) \<Longrightarrow> egress_run (t\<lparr>tnotify := b\<rparr>) (egressWoken s' e)"
| finish: "egress_run t e \<Longrightarrow> pc e = Parked s \<Longrightarrow> tdone t \<Longrightarrow> egress_run t (egressDone (tdrops t) e)"
| cancel: "egress_run t e \<Longrightarrow> pc e = Parked s \<Longrightarrow> egress_run t (e\<lparr>pc := Stopped\<rparr>)"

section \<open>The ring as a source of groups\<close>

text \<open>
  What egress needs of the ring: the positions it holds end at its head, and a held position
  gives the sequence reserved there and the highest one reserved up to it.
\<close>

locale group_source =
  fixes inv :: "'r \<Rightarrow> nat list \<Rightarrow> bool" and head :: "'r \<Rightarrow> nat" and earliest :: "'r \<Rightarrow> nat"
    and lookup :: "nat \<Rightarrow> 'r \<Rightarrow> (nat \<times> nat) option"
  assumes head_eq: "inv r sq \<Longrightarrow> head r = length sq"
    and earliest_pos: "inv r sq \<Longrightarrow> 1 \<le> earliest r"
    and earliest_le: "inv r sq \<Longrightarrow> sq \<noteq> [] \<Longrightarrow> earliest r \<le> length sq"
    and lookup_held: "inv r sq \<Longrightarrow> earliest r \<le> p \<Longrightarrow> p \<le> head r \<Longrightarrow>
      lookup p r = Some (sq ! (p - 1), maxOf (take p sq))"
begin

text \<open>The position after \<open>l\<close> that a reader takes.\<close>

definition nextPosition :: "'r \<Rightarrow> nat \<Rightarrow> nat" where
  "nextPosition r l = (if l + 1 < earliest r then head r else l + 1)"

lemma nextPosition_found:
  assumes inv: "inv r sq" and l: "l < head r"
  shows "l < nextPosition r l" and "nextPosition r l \<le> length sq"
    and "lookup (nextPosition r l) r
      = Some (sq ! (nextPosition r l - 1), maxOf (take (nextPosition r l) sq))"
proof -
  from inv l have "sq \<noteq> []" by (auto simp: head_eq)
  with inv have "earliest r \<le> length sq" by (rule earliest_le)
  moreover note head_eq [OF inv]
  ultimately have "earliest r \<le> nextPosition r l" "nextPosition r l \<le> head r" "l < nextPosition r l"
    using l by (auto simp: nextPosition_def)
  with lookup_held [OF inv] head_eq [OF inv] show "l < nextPosition r l" "nextPosition r l \<le> length sq"
    "lookup (nextPosition r l) r = Some (sq ! (nextPosition r l - 1), maxOf (take (nextPosition r l) sq))"
    by simp_all
qed

end

definition ringLookup :: "nat \<Rightarrow> groupRing \<Rightarrow> (nat \<times> nat) option" where
  "ringLookup p r = map_option (\<lambda>(a, r'). (gseq (heap r' ! a), highestSeq (heap r' ! a))) (get p r)"

interpretation held_groups: group_source "\<lambda>r sq. \<exists>H. ringInv r H sq" ringHead earliestAvailable ringLookup
proof
  fix r sq p
  assume "\<exists>H. ringInv r H sq"
  then obtain H where inv: "ringInv r H sq" ..
  then have pos: "ringPos r = length sq" and n: "caches r \<noteq> []"
    by (simp_all add: ringInv_def ringInvX_def placesOk_def)
  show "ringHead r = length sq" by (simp add: ringHead_def pos)
  show "1 \<le> earliestAvailable r" by (simp add: earliestAvailable_def)
  show "sq \<noteq> [] \<Longrightarrow> earliestAvailable r \<le> length sq"
    using n by (cases sq; cases "caches r") (auto simp: earliestAvailable_def ringHead_def pos)
  assume "earliestAvailable r \<le> p" "p \<le> ringHead r"
  with available_iff [OF inv, of p] get_spec(1) [OF inv, of p] obtain a r' where g: "get p r = Some (a, r')"
    by fastforce
  from get_spec(2) [OF inv g] g show "ringLookup p r = Some (sq ! (p - 1), maxOf (take p sq))"
    by (simp add: ringLookup_def)
qed

text \<open>What a pick in one step finds.\<close>

lemma egressPick_behind:
  assumes run: "ring_run r H sq" and l: "lastPos e < ringHead r"
  shows "\<exists>p a r'. egressPick r r r e = (e\<lparr>lastPos := p, skipped := skipped e \<or> lastPos e + 1 < p\<rparr>, Some (a, r'))
    \<and> lastPos e < p \<and> p \<le> length sq \<and> gseq (heap r' ! a) = sq ! (p - 1)
    \<and> highestSeq (heap r' ! a) = maxOf (take p sq)"
proof -
  have inv: "\<exists>H. ringInv r H sq" using ring_run_inv [OF run] by blast
  let ?p = "held_groups.nextPosition r (lastPos e)"
  note P = held_groups.nextPosition_found [OF inv l]
  from P(3) obtain a r' where g: "get ?p r = Some (a, r')" "gseq (heap r' ! a) = sq ! (?p - 1)"
    "highestSeq (heap r' ! a) = maxOf (take ?p sq)" by (auto simp: ringLookup_def)
  have "lastPos e + 1 < earliestAvailable r \<longrightarrow> lastPos e + 1 < ringHead r"
    using held_groups.earliest_le [OF inv] held_groups.head_eq [OF inv] l by (cases sq) auto
  then have "egressPick r r r e
      = (e\<lparr>lastPos := ?p, skipped := skipped e \<or> lastPos e + 1 < ?p\<rparr>, Some (a, r'))"
    using l g(1) by (auto simp: egressPick_def held_groups.nextPosition_def Let_def)
  with g P show ?thesis by blast
qed

lemma egressPick_level: "\<not> lastPos e < ringHead r \<Longrightarrow> egressPick r r1 r2 e = (e, None)"
  by (simp add: egressPick_def)

section \<open>Invariant\<close>

lemma maxOf_ge: "x \<in> set xs \<Longrightarrow> x \<le> maxOf xs"
  by (induction xs) (auto simp: maxOf_def)

lemma maxOf_less: "0 < n \<Longrightarrow> \<forall>x \<in> set xs. x < n \<Longrightarrow> maxOf xs < n"
  by (induction xs) (auto simp: maxOf_def)

text \<open>
  The group at position \<open>p\<close> needs no more attention: it was sent or reported, or it lies before
  the subscription's start, or it is group 0, which cannot be reported.
\<close>

definition accounted :: "nat list \<Rightarrow> dropReporter \<Rightarrow> nat \<Rightarrow> bool" where
  "accounted sq r p \<longleftrightarrow> sq ! (p - 1) \<in> handledSet r \<or> sq ! (p - 1) < rstart r \<or> sq ! (p - 1) = 0"

lemma accounted_keeps: "reporterKeeps r r' \<Longrightarrow> accounted sq r p \<Longrightarrow> accounted sq r' p"
  by (auto simp: accounted_def reporterKeeps_def)

definition deliveredSeqs :: "track \<Rightarrow> egress \<Rightarrow> nat list" where
  "deliveredSeqs t e = map (\<lambda>p. tseqs t ! (p - 1)) (deliveredPos e)"

definition deliveryOk :: "track \<Rightarrow> egress \<Rightarrow> bool" where
  "deliveryOk t e \<longleftrightarrow> runInv (reporter e) (deliveredSeqs t e) \<and> \<not> skipped e
     \<and> lastPos e \<le> length (tseqs t) \<and> sorted_wrt (<) (deliveredPos e)
     \<and> (\<forall>p \<in> set (deliveredPos e). 1 \<le> p \<and> p \<le> lastPos e)
     \<and> (pc e \<noteq> Stopped \<longrightarrow> deliveredPos e \<noteq> [] \<longrightarrow>
          (\<forall>p. hd (deliveredPos e) \<le> p \<longrightarrow> p \<le> lastPos e \<longrightarrow> accounted (tseqs t) (reporter e) p))"

text \<open>Unless something was notified since, a waiting subscriber has seen all announced groups.\<close>

definition wakeOk :: "track \<Rightarrow> egress \<Rightarrow> bool" where
  "wakeOk t e \<longleftrightarrow> stateOf (lastState e) (tnotify t)
     \<and> (pc e = AtListen \<longrightarrow> nseq (lastState e) = curSeq (tnotify t) \<longrightarrow> announced t \<le> lastPos e)
     \<and> (\<forall>s. pc e = Parked s \<longrightarrow> stateOf s (tnotify t)
          \<and> (nseq s = curSeq (tnotify t) \<longrightarrow> announced t \<le> lastPos e))"

lemma reporter_of: "deliveryOk t e \<Longrightarrow> reporterOk (reporter e)"
  "deliveryOk t e \<Longrightarrow> started (reporter e) \<longleftrightarrow> deliveredPos e \<noteq> []"
  by (auto simp: deliveryOk_def runInv_def deliveredSeqs_def)

text \<open>Skipping to position \<open>p\<close>: what lies between is accounted for, or has the sequence sent next.\<close>

lemma skipped_accounted:
  assumes ok: "reporterOk r" and st: "started r" and seqs: "\<forall>x \<in> set sq. x < 2 ^ 64 - 1"
    and p: "1 \<le> q" "q < p" "p \<le> length sq"
  shows "accounted sq (reportSkipped (sq ! (p - 1)) (maxOf (take p sq)) code r) q \<or> sq ! (q - 1) = sq ! (p - 1)"
proof -
  let ?n = "sq ! (p - 1)" and ?h = "maxOf (take p sq)"
  have b: "?n < 2 ^ 64 - 1" "?h < 2 ^ 64 - 1"
    using seqs p by (auto intro!: maxOf_less dest: in_set_takeD)
  have "sq ! (q - 1) = take p sq ! (q - 1)" "q - 1 < length (take p sq)" using p by auto
  then have "sq ! (q - 1) \<in> set (take p sq)" by (metis nth_mem)
  then have "sq ! (q - 1) \<le> ?h" by (rule maxOf_ge)
  then have "sq ! (q - 1) \<in> skippedGroups ?n ?h r \<or> sq ! (q - 1) = ?n
      \<or> sq ! (q - 1) < rstart r \<or> sq ! (q - 1) = 0"
    by (auto simp: skippedGroups_def)
  with reporterKeeps_skipped [OF ok b, of code] st show ?thesis
    by (auto simp: accounted_def reporterKeeps_def)
qed

subsection \<open>One group\<close>

text \<open>The reporter after the possible skip to position \<open>p\<close>.\<close>

definition afterSkip :: "nat \<Rightarrow> nat list \<Rightarrow> nat \<Rightarrow> egress \<Rightarrow> dropReporter" where
  "afterSkip ci sq p e = (if lastPos e + 1 < p
     then reportSkipped (sq ! (p - 1)) (maxOf (take p sq)) ci (reporter e) else reporter e)"

lemma afterSkip_ok:
  assumes ok: "deliveryOk t e" and t: "trackOk t" and p: "lastPos e < p" "p \<le> length (tseqs t)"
  shows "runInv (afterSkip ci (tseqs t) p e) (deliveredSeqs t e)"
    and "reporterKeeps (reporter e) (afterSkip ci (tseqs t) p e)"
    and "started (reporter e) \<Longrightarrow> lastPos e < q \<Longrightarrow> q \<le> p \<Longrightarrow>
      accounted (tseqs t) (afterSkip ci (tseqs t) p e) q \<or> tseqs t ! (q - 1) = tseqs t ! (p - 1)"
proof -
  have run: "runInv (reporter e) (deliveredSeqs t e)" using ok by (simp add: deliveryOk_def)
  have seqs: "\<forall>x \<in> set (tseqs t). x < 2 ^ 64 - 1" using t by (simp add: trackOk_def)
  have b: "tseqs t ! (p - 1) < 2 ^ 64 - 1" "maxOf (take p (tseqs t)) < 2 ^ 64 - 1"
    using seqs p by (auto intro!: maxOf_less dest: in_set_takeD)
  note rok = reporter_of(1) [OF ok]
  show "runInv (afterSkip ci (tseqs t) p e) (deliveredSeqs t e)"
    using run runInv_skipped [OF run b] by (simp add: afterSkip_def)
  show "reporterKeeps (reporter e) (afterSkip ci (tseqs t) p e)"
    using rok reporterKeeps_skipped(1) [OF rok b] by (simp add: afterSkip_def reporterKeeps_def)
  assume st: "started (reporter e)" and q: "lastPos e < q" "q \<le> p"
  show "accounted (tseqs t) (afterSkip ci (tseqs t) p e) q \<or> tseqs t ! (q - 1) = tseqs t ! (p - 1)"
  proof (cases "q = p")
    case False
    with q skipped_accounted [OF rok st seqs _ _ p(2), of q ci] show ?thesis by (simp add: afterSkip_def)
  qed simp
qed

text \<open>Moving on to position \<open>p\<close> with a reporter in which the group there is accounted for.\<close>

lemma deliveryOk_advance:
  assumes ok: "deliveryOk t e" and t: "trackOk t" and p: "lastPos e < p" "p \<le> length (tseqs t)"
    and pc: "pc e = AtLoop"
    and e': "lastPos e' = p" "\<not> skipped e'" "deliveredPos e' = deliveredPos e"
    and run: "runInv (reporter e') (deliveredSeqs t e)"
    and rep: "pc e' \<noteq> Stopped \<Longrightarrow> started (reporter e) \<Longrightarrow>
       reporterKeeps (afterSkip ci (tseqs t) p e) (reporter e') \<and> accounted (tseqs t) (reporter e') p"
  shows "deliveryOk t e'"
proof -
  have "accounted (tseqs t) (reporter e') q"
    if st: "pc e' \<noteq> Stopped" "deliveredPos e \<noteq> []" and q: "hd (deliveredPos e) \<le> q" "q \<le> p" for q
  proof -
    have started: "started (reporter e)" using reporter_of(2) [OF ok] st(2) by simp
    note r = rep [OF st(1) started]
    show ?thesis
    proof (cases "q \<le> lastPos e")
      case True
      with ok pc st q have "accounted (tseqs t) (reporter e) q" by (simp add: deliveryOk_def)
      then show ?thesis
        using accounted_keeps afterSkip_ok(2) [OF ok t p, of ci] r by blast
    next
      case False
      with afterSkip_ok(3) [OF ok t p started, of q ci] q(2)
      have "accounted (tseqs t) (afterSkip ci (tseqs t) p e) q \<or> tseqs t ! (q - 1) = tseqs t ! (p - 1)"
        by simp
      then have "accounted (tseqs t) (reporter e') q \<or> tseqs t ! (q - 1) = tseqs t ! (p - 1)"
        using accounted_keeps r by blast
      with r show ?thesis by (auto simp: accounted_def)
    qed
  qed
  with ok e' p run show ?thesis by (auto simp: deliveryOk_def deliveredSeqs_def)
qed

lemma egressGroup_afterSkip:
  assumes "\<not> skipped e"
  shows "egressGroup ci ct dd res (sq ! (p - 1)) (maxOf (take p sq)) (e\<lparr>lastPos := p, skipped := skipped e \<or> lastPos e + 1 < p\<rparr>)
    = (let r = afterSkip ci sq p e;
           e1 = e\<lparr>reporter := r, lastPos := p\<rparr>
       in if isHandled (sq ! (p - 1)) r then e1
          else case res of
            deliveryStopped \<Rightarrow> e1\<lparr>pc := Stopped\<rparr>
          | groupTimedOut \<Rightarrow> e1\<lparr>reporter := report \<lparr>StartGroup = sq ! (p - 1), EndGroup = sq ! (p - 1), ErrorCode = ct\<rparr> r\<rparr>
          | groupSent \<Rightarrow> e1\<lparr>reporter := flush dd (sent (sq ! (p - 1)) r), deliveredPos := deliveredPos e @ [p]\<rparr>)"
  using assms by (cases e; cases res) (simp_all add: egressGroup_def afterSkip_def Let_def)

lemma handled_accounted:
  "reporterOk r \<Longrightarrow> isHandled (sq ! (p - 1)) r \<Longrightarrow> accounted sq r p"
  by (simp add: accounted_def isHandled_iff reporterOk_def)

lemma reported_accounted:
  assumes "reporterOk r" and "started r" and "sq ! (p - 1) < 2 ^ 64 - 1"
  shows "accounted sq (report \<lparr>StartGroup = sq ! (p - 1), EndGroup = sq ! (p - 1), ErrorCode = c\<rparr> r) p"
  using report_spec [OF assms(1), of "\<lparr>StartGroup = sq ! (p - 1), EndGroup = sq ! (p - 1), ErrorCode = c\<rparr>"] assms
  by (auto simp: accounted_def dropOk_def relevant_def dropSet_def)

lemma sentGroup_ok:
  assumes ok: "deliveryOk t e" and t: "trackOk t" and p: "lastPos e < p" "p \<le> length (tseqs t)"
    and pc: "pc e = AtLoop" and r: "r = afterSkip ci (tseqs t) p e" and new: "\<not> isHandled (tseqs t ! (p - 1)) r"
    and e': "e' = e\<lparr>reporter := flush (tdrops t) (sent (tseqs t ! (p - 1)) r), lastPos := p,
      deliveredPos := deliveredPos e @ [p]\<rparr>"
  shows "deliveryOk t e'"
proof -
  let ?n = "tseqs t ! (p - 1)" and ?r' = "reporter e'"
  note A = afterSkip_ok [OF ok t p, of ci, folded r]
  have rok: "reporterOk r" "started r = started (reporter e)" using A(2) by (simp_all add: reporterKeeps_def)
  have n: "?n < 2 ^ 64 - 1" using t p by (simp add: trackOk_def)
  note S = sent_handled [OF rok(1) n]
  have dd: "\<forall>d \<in> set (drops (tdrops t)). dropOk d" "drops (tdrops t) \<noteq> []" using t by (simp_all add: trackOk_def)
  have K: "reporterKeeps (sent ?n r) ?r'" using reporterKeeps_flush [OF S(1) dd] by (simp add: e')
  have gs: "deliveredSeqs t e' = deliveredSeqs t e @ [?n]" by (simp add: deliveredSeqs_def e')
  have run: "runInv ?r' (deliveredSeqs t e')"
    using runInv_flush [OF runInv_sent [OF A(1) new n] dd] unfolding gs by (simp add: e')
  have acc: "accounted (tseqs t) ?r' p" using S(2) K by (auto simp: accounted_def reporterKeeps_def)
  have "accounted (tseqs t) ?r' q" if st: "deliveredPos e \<noteq> []" and q: "hd (deliveredPos e) \<le> q" "q \<le> p" for q
  proof -
    have started: "started (reporter e)" using reporter_of(2) [OF ok] st by simp
    then have keep: "reporterKeeps r ?r'" using S K rok(2) by (auto simp: reporterKeeps_def)
    show ?thesis
    proof (cases "q \<le> lastPos e")
      case True
      with ok pc st q have "accounted (tseqs t) (reporter e) q" by (simp add: deliveryOk_def)
      then show ?thesis using accounted_keeps A(2) keep by blast
    next
      case False
      then have "accounted (tseqs t) ?r' q \<or> tseqs t ! (q - 1) = ?n"
        using afterSkip_ok(3) [OF ok t p started, of q ci, folded r] q(2) accounted_keeps [OF keep] by auto
      with acc show ?thesis by (auto simp: accounted_def)
    qed
  qed
  moreover have "accounted (tseqs t) ?r' q" if "deliveredPos e = []" "p \<le> q" "q \<le> p" for q
    using that acc by simp
  ultimately have "\<forall>q. hd (deliveredPos e') \<le> q \<longrightarrow> q \<le> lastPos e' \<longrightarrow> accounted (tseqs t) ?r' q"
    by (cases "deliveredPos e = []") (simp_all add: e')
  moreover have "sorted_wrt (<) (deliveredPos e')" "\<forall>q \<in> set (deliveredPos e'). 1 \<le> q \<and> q \<le> lastPos e'"
    using ok p by (auto simp: deliveryOk_def e' sorted_wrt_append)
  ultimately show ?thesis using ok p run by (simp add: deliveryOk_def e')
qed

lemma egressGroup_ok:
  assumes ok: "deliveryOk t e" and t: "trackOk t" and p: "lastPos e < p" "p \<le> length (tseqs t)"
    and pc: "pc e = AtLoop"
    and e': "e' = egressGroup ci ct (tdrops t) res (tseqs t ! (p - 1)) (maxOf (take p (tseqs t)))
      (e\<lparr>lastPos := p, skipped := skipped e \<or> lastPos e + 1 < p\<rparr>)"
  shows "deliveryOk t e'" and "lastState e' = lastState e" and "pc e' = AtLoop \<or> pc e' = Stopped"
proof -
  define r where "r = afterSkip ci (tseqs t) p e"
  let ?n = "tseqs t ! (p - 1)"
  let ?d = "\<lparr>StartGroup = ?n, EndGroup = ?n, ErrorCode = ct\<rparr>"
  note A = afterSkip_ok [OF ok t p, of ci, folded r_def]
  have run: "runInv r (deliveredSeqs t e)" by (rule A(1))
  have rok: "reporterOk r" "started r = started (reporter e)" using A(2) by (simp_all add: reporterKeeps_def)
  have n: "?n < 2 ^ 64 - 1" using t p by (simp add: trackOk_def)
  have d: "dropOk ?d" using n by (simp add: dropOk_def)
  have sk: "\<not> skipped e" using ok by (simp add: deliveryOk_def)
  note E = e' [unfolded egressGroup_afterSkip [OF sk], folded r_def, unfolded Let_def]
  show "lastState e' = lastState e" and "pc e' = AtLoop \<or> pc e' = Stopped"
    using pc by (simp_all add: E split: deliverResult.split)
  note adv = deliveryOk_advance [OF ok t p pc, of e' ci, folded r_def]
  show "deliveryOk t e'"
  proof (cases "isHandled ?n r \<or> res \<noteq> groupSent")
    case True
    have keep: "reporterKeeps r r" "reporterKeeps r (report ?d r)"
      using rok reporterKeeps_report [OF rok(1) d] by (simp_all add: reporterKeeps_def)
    have f: "lastPos e' = p" "\<not> skipped e'" "deliveredPos e' = deliveredPos e"
      using True sk by (auto simp: E split: deliverResult.split)
    show ?thesis
    proof (rule adv [OF f])
      show "runInv (reporter e') (deliveredSeqs t e)"
        using True run runInv_report [OF run d] by (auto simp: E split: deliverResult.split)
      show "reporterKeeps r (reporter e') \<and> accounted (tseqs t) (reporter e') p"
        if "pc e' \<noteq> Stopped" "started (reporter e)"
        using True that keep handled_accounted [OF rok(1), of "tseqs t" p]
          reported_accounted [OF rok(1) _ n, of ct] rok(2)
        by (cases res) (auto simp: E)
    qed
  next
    case False
    then have new: "\<not> isHandled ?n r" and res: "res = groupSent" by auto
    have e'': "e' = e\<lparr>reporter := flush (tdrops t) (sent ?n r), lastPos := p, deliveredPos := deliveredPos e @ [p]\<rparr>"
      using new by (simp add: E res)
    from sentGroup_ok [OF ok t p pc r_def new e''] show ?thesis .
  qed
qed

subsection \<open>Every step\<close>

lemma deliveryOk_same:
  assumes "deliveryOk t e" and "lastPos e' = lastPos e" "skipped e' = skipped e" "deliveredPos e' = deliveredPos e"
    and "tseqs t' = tseqs t" and "runInv (reporter e') (deliveredSeqs t e)"
    and "reporterKeeps (reporter e) (reporter e')" and "pc e \<noteq> Stopped"
  shows "deliveryOk t' e'"
  using assms accounted_keeps by (auto simp: deliveryOk_def deliveredSeqs_def)

lemma reporterKeeps_refl: "deliveryOk t e \<Longrightarrow> reporterKeeps (reporter e) (reporter e)"
  using reporter_of by (simp add: reporterKeeps_def)

lemma deliveryOk_flush:
  assumes "deliveryOk t e" and "trackOk t" and "pc e \<noteq> Stopped"
  shows "deliveryOk t (e\<lparr>reporter := flush (tdrops t) (reporter e), pc := c\<rparr>)"
proof (rule deliveryOk_same [OF assms(1)])
  have dd: "\<forall>d \<in> set (drops (tdrops t)). dropOk d" "drops (tdrops t) \<noteq> []"
    using assms(2) by (simp_all add: trackOk_def)
  show "runInv (reporter (e\<lparr>reporter := flush (tdrops t) (reporter e), pc := c\<rparr>)) (deliveredSeqs t e)"
    using assms(1) dd by (simp add: deliveryOk_def runInv_flush)
  show "reporterKeeps (reporter e) (reporter (e\<lparr>reporter := flush (tdrops t) (reporter e), pc := c\<rparr>))"
    using reporterKeeps_flush [OF reporter_of(1) [OF assms(1)] dd] by simp
qed (use assms(3) in simp_all)

lemma deliveryOk_pc:
  assumes "deliveryOk t e" and "pc e \<noteq> Stopped"
  shows "deliveryOk t (e\<lparr>pc := c\<rparr>)" and "deliveryOk t (e\<lparr>lastState := s, pc := c\<rparr>)"
  using assms by (simp_all add: deliveryOk_def deliveredSeqs_def)

lemma deliveryOk_track [simp]: "deliveryOk (t\<lparr>tnotify := b\<rparr>) e = deliveryOk t e"
  by (simp add: deliveryOk_def deliveredSeqs_def)

lemma deliveryOk_extend:
  assumes "deliveryOk t e"
  shows "deliveryOk (t\<lparr>tring := r, theld := H, tseqs := tseqs t @ xs\<rparr>) e"
proof -
  have nth: "(tseqs t @ xs) ! (p - 1) = tseqs t ! (p - 1)" if "1 \<le> p" "p \<le> lastPos e" for p
    using assms that by (auto simp: deliveryOk_def nth_append)
  then have gs: "deliveredSeqs (t\<lparr>tring := r, theld := H, tseqs := tseqs t @ xs\<rparr>) e = deliveredSeqs t e"
    using assms by (auto simp: deliveryOk_def deliveredSeqs_def)
  have "accounted (tseqs t @ xs) (reporter e) p"
    if p: "pc e \<noteq> Stopped" "deliveredPos e \<noteq> []" "hd (deliveredPos e) \<le> p" "p \<le> lastPos e" for p
  proof -
    have "1 \<le> hd (deliveredPos e)" using assms p(2) by (simp add: deliveryOk_def)
    with assms p nth [of p] show ?thesis by (simp add: deliveryOk_def accounted_def)
  qed
  with assms gs show ?thesis by (auto simp: deliveryOk_def)
qed

lemma recordDrop_ok:
  "drops dd \<noteq> [] \<Longrightarrow> \<forall>d \<in> set (drops dd). dropOk d \<Longrightarrow> dropOk d \<Longrightarrow>
     drops (recordDrop d dd) \<noteq> [] \<and> (\<forall>d \<in> set (drops (recordDrop d dd)). dropOk d)"
  by (auto simp: recordDrop_def Let_def dest!: set_update_subset_insert [THEN subsetD])

lemma startPosition_le: "ring_run r H sq \<Longrightarrow> startPosition fromStart r \<le> length sq"
proof -
  assume run: "ring_run r H sq"
  then have inv: "\<exists>H. ringInv r H sq" using ring_run_inv by blast
  show ?thesis using held_groups.head_eq [OF inv] held_groups.earliest_le [OF inv]
    by (cases "sq = []") (auto simp: startPosition_def earliestAvailable_def)
qed

lemma newEgress_ok:
  assumes t: "trackOk t" and l: "listen (tnotify t) = (s, b)"
  shows "deliveryOk (t\<lparr>tnotify := b\<rparr>) (newEgress fromStart (tring t) (tdrops t) s)"
    and "wakeOk (t\<lparr>tnotify := b\<rparr>) (newEgress fromStart (tring t) (tdrops t) s)"
proof -
  have "startPosition fromStart (tring t) \<le> length (tseqs t)" using t startPosition_le by (auto simp: trackOk_def)
  then show "deliveryOk (t\<lparr>tnotify := b\<rparr>) (newEgress fromStart (tring t) (tdrops t) s)"
    using newDropReporter_inv by (simp add: deliveryOk_def newEgress_def deliveredSeqs_def)
  show "wakeOk (t\<lparr>tnotify := b\<rparr>) (newEgress fromStart (tring t) (tdrops t) s)"
    using wakeups.look_ok [OF _ l] t by (simp add: wakeOk_def newEgress_def trackOk_def)
qed

lemma wakeOk_step:
  assumes "wakeOk t e" and "notifyInv (tnotify t)"
  shows "wakeOk (t\<lparr>tnotify := notify (tnotify t), announced := n\<rparr>) e"
    and "listen (tnotify t) = (s, b) \<Longrightarrow> pc e = AtListen \<Longrightarrow> wakeOk (t\<lparr>tnotify := b\<rparr>) (egressCheck s e)"
    and "listen (tnotify t) = (s, b) \<Longrightarrow> wakeOk (t\<lparr>tnotify := b\<rparr>) (egressWoken s e)"
proof -
  show "wakeOk (t\<lparr>tnotify := notify (tnotify t), announced := n\<rparr>) e"
    using assms wakeups.advance_ok [OF assms(2)] by (auto simp: wakeOk_def stateOf_def)
next
  assume l: "listen (tnotify t) = (s, b)"
  note L = wakeups.look_ok [OF assms(2) l]
  show "wakeOk (t\<lparr>tnotify := b\<rparr>) (egressWoken s e)" using L by (simp add: wakeOk_def egressWoken_def)
  assume "pc e = AtListen"
  with assms(1) L show "wakeOk (t\<lparr>tnotify := b\<rparr>) (egressCheck s e)"
    by (auto simp: wakeOk_def egressCheck_def stateOf_def)
qed

lemma wakeOk_pc:
  assumes "wakeOk t e" and "lastState e' = lastState e" and "pc e' \<in> {AtLoop, Stopped, Finished}"
  shows "wakeOk t e'"
  using assms by (auto simp: wakeOk_def)

lemmas egress_step_defs = egressIdle_def egressCheck_def egressWoken_def egressDone_def

lemma egress_run_inv: "egress_run t e \<Longrightarrow> trackOk t \<and> deliveryOk t e \<and> wakeOk t e"
proof (induction rule: egress_run.induct)
  case (start t s b fromStart)
  with newEgress_ok [OF start, of fromStart] wakeups.look_ok [of "tnotify t" s b] show ?case
    by (simp add: trackOk_def)
next
  case (ring t e r' H' xs)
  then show ?case using deliveryOk_extend [of t e] by (auto simp: trackOk_def wakeOk_def)
next
  case (broadcast t e)
  then have "notifyInv (tnotify t)" by (simp add: trackOk_def)
  with broadcast wakeOk_step(1) [of t e "length (tseqs t)"] wakeups.advance_ok [OF this] show ?case
    by (simp add: trackOk_def deliveryOk_def deliveredSeqs_def)
next
  case (upstream t e d)
  then show ?case using recordDrop_ok [of "tdrops t" d]
    by (simp add: trackOk_def deliveryOk_def deliveredSeqs_def wakeOk_def)
next
  case (ended t e)
  then show ?case by (simp add: trackOk_def deliveryOk_def deliveredSeqs_def wakeOk_def)
next
  case (group t e e' a r' ci ct res)
  have run: "ring_run (tring t) (theld t) (tseqs t)" using group.IH by (simp add: trackOk_def)
  have l: "lastPos e < ringHead (tring t)" using group.hyps(3) egressPick_level by (metis option.discI prod.inject)
  from egressPick_behind [OF run l] group.hyps(3) obtain p where
    p: "lastPos e < p" "p \<le> length (tseqs t)"
    and e': "e' = e\<lparr>lastPos := p, skipped := skipped e \<or> lastPos e + 1 < p\<rparr>"
    and c: "gseq (heap r' ! a) = tseqs t ! (p - 1)" "highestSeq (heap r' ! a) = maxOf (take p (tseqs t))" by auto
  let ?e = "egressGroup ci ct (tdrops t) res (gseq (heap r' ! a)) (highestSeq (heap r' ! a)) e'"
  have "?e = egressGroup ci ct (tdrops t) res (tseqs t ! (p - 1)) (maxOf (take p (tseqs t)))
      (e\<lparr>lastPos := p, skipped := skipped e \<or> lastPos e + 1 < p\<rparr>)" by (simp add: c e')
  from egressGroup_ok [OF _ _ p group.hyps(2) this] group.IH
  have "deliveryOk t ?e" "lastState ?e = lastState e" "pc ?e \<in> {AtLoop, Stopped, Finished}" by auto
  then show ?case using group.IH wakeOk_pc by blast
next
  case (idle t e e')
  have run: "ring_run (tring t) (theld t) (tseqs t)" using idle.IH by (simp add: trackOk_def)
  have l: "\<not> lastPos e < ringHead (tring t)" using egressPick_behind [OF run] idle.hyps(3) by fastforce
  with idle.hyps(3) have e': "e' = e" by (simp add: egressPick_level)
  have "length (tseqs t) \<le> lastPos e"
    using l held_groups.head_eq [of "tring t" "tseqs t"] ring_run_inv [OF run] by force
  then have "wakeOk t (egressIdle (tdrops t) e)"
    using idle.IH idle.hyps(2) by (simp add: wakeOk_def egressIdle_def trackOk_def)
  with idle.IH idle.hyps(2) deliveryOk_flush [of t e AtListen] show ?case by (simp add: e' egressIdle_def)
next
  case (check t e s b)
  have d: "deliveryOk (t\<lparr>tnotify := b\<rparr>) (egressCheck s e)"
    using check.IH check.hyps(2) deliveryOk_pc [of t e] by (simp add: egressCheck_def)
  have n: "notifyInv (tnotify t)" using check.IH by (simp add: trackOk_def)
  from check.IH have "wakeOk t e" by simp
  with d check.IH wakeOk_step(2) [OF _ n check.hyps(3,2)] wakeups.look_ok [OF n check.hyps(3)] show ?case
    by (simp add: trackOk_def)
next
  case (woken t e s s' b)
  have d: "deliveryOk (t\<lparr>tnotify := b\<rparr>) (egressWoken s' e)"
    using woken.IH woken.hyps(2) deliveryOk_pc [of t e] by (simp add: egressWoken_def)
  have n: "notifyInv (tnotify t)" using woken.IH by (simp add: trackOk_def)
  from woken.IH have "wakeOk t e" by simp
  with d woken.IH wakeOk_step(3) [OF _ n woken.hyps(4)] wakeups.look_ok [OF n woken.hyps(4)] show ?case
    by (simp add: trackOk_def)
next
  case (finish t e s)
  then show ?case using deliveryOk_flush [of t e Finished] wakeOk_pc [of t e "egressDone (tdrops t) e"]
    by (simp add: egressDone_def)
next
  case (cancel t e s)
  then show ?case using deliveryOk_pc(1) [of t e Stopped] wakeOk_pc [of t e "e\<lparr>pc := Stopped\<rparr>"] by simp
qed

section \<open>Frames of a delivered group\<close>

text \<open>
  \<open>F\<close> are the frames of the group when it is complete. A pass is regular when the reader sees a
  part of them, and the complete flag only when that part was all of them.
\<close>

definition passOk :: "bytes list \<Rightarrow> pass \<Rightarrow> bool" where
  "passOk F p \<longleftrightarrow> cacheOk (atNext p) \<and> prefixOf (stored (atNext p)) F
     \<and> (isComplete (atComplete p) \<longrightarrow> stored (atNext p) = F)"

lemma framesEnd_complete:
  assumes "\<forall>p \<in> set ps. passOk F p" and "i \<le> length F" and "framesEnd i ps = Some True"
  shows "frames i ps = drop i F"
  using assms
proof (induction ps arbitrary: i)
  case Nil
  then show ?case by simp
next
  case (Cons p ps)
  have p: "cacheOk (atNext p)" "prefixOf (stored (atNext p)) F"
    "isComplete (atComplete p) \<longrightarrow> stored (atNext p) = F" using Cons.prems(1) by (auto simp: passOk_def)
  note step = frames_step [OF p(1,2) Cons.prems(2), of ps]
  show ?case
  proof (cases "i < length (stored (atNext p))")
    case True
    then have "i < length F" using p(2) by (metis length_take min_less_iff_conj prefixOf_def)
    with True Cons.IH [of "i + 1"] Cons.prems step nextFrame_stored [OF p(1), of i] show ?thesis
      by (simp add: Cons_nth_drop_Suc)
  next
    case False
    with Cons.IH [of i] Cons.prems step p(3) nextFrame_stored [OF p(1), of i] show ?thesis
      by (auto split: if_splits)
  qed
qed

section \<open>A small run\<close>

text \<open>A subscriber of an empty track, and the track after one group was reserved.\<close>

definition emptyTrack :: track where
  "emptyTrack = \<lparr>tring = newGroupRing 2, theld = \<lambda>_. 0, tseqs = [], tdrops = newDropDistributor 4,
     tnotify = countedTo 0, tdone = False, announced = 0\<rparr>"

definition firstEgress :: egress where
  "firstEgress = newEgress True (newGroupRing 2) (newDropDistributor 4) \<lparr>nseq = 0, nch = 0\<rparr>"

definition oneGroup :: "track \<Rightarrow> track" where
  "oneGroup t = t\<lparr>tring := snd sampleRing, theld := (\<lambda>_. 0)(fst sampleRing := 1), tseqs := tseqs t @ [7]\<rparr>"

lemma emptyTrack_ok: "trackOk emptyTrack"
  by (auto simp: trackOk_def emptyTrack_def newDropDistributor_def dropOk_def noDrop_def intro: ring_run.new)

lemma first_run: "egress_run emptyTrack firstEgress"
  using egress_run.start [OF emptyTrack_ok, of "\<lparr>nseq = 0, nch = 0\<rparr>" "countedTo 0" True]
  by (simp add: emptyTrack_def firstEgress_def)

lemma oneGroup_run:
  assumes "egress_run t e" and "tseqs t = []" and "length (caches (tring t)) = 2"
  shows "egress_run (oneGroup t) e"
  using egress_run.ring [OF assms(1), of "snd sampleRing" "(\<lambda>_. 0)(fst sampleRing := 1)" "[7]"]
    sampleRing_run assms(2,3) by (simp add: oneGroup_def sampleRing_snd)

lemma firstEgress_fields:
  "pc firstEgress = AtLoop" "lastPos firstEgress = 0" "deliveredPos firstEgress = []" "\<not> skipped firstEgress"
  "lastState firstEgress = \<lparr>nseq = 0, nch = 0\<rparr>" "reporter firstEgress = newDropReporter (newDropDistributor 4)"
  by (simp_all add: firstEgress_def newEgress_def startPosition_def earliestAvailable_def ringHead_def newGroupRing_def)

lemma oneGroup_delivered:
  "\<exists>e. egress_run (oneGroup emptyTrack) e \<and> pc e = AtLoop \<and> deliveredPos e = [1] \<and> lastPos e = 1"
proof -
  let ?t = "oneGroup emptyTrack"
  have run: "egress_run ?t firstEgress"
    by (rule oneGroup_run [OF first_run]) (simp_all add: emptyTrack_def newGroupRing_def)
  have t: "tring ?t = snd sampleRing" "tseqs ?t = [7]" by (simp_all add: oneGroup_def emptyTrack_def)
  have "lastPos firstEgress < ringHead (snd sampleRing)"
    by (simp add: firstEgress_fields ringHead_def sampleRing_snd)
  from egressPick_behind [OF sampleRing_run this] obtain p a r' where
    pick: "egressPick (snd sampleRing) (snd sampleRing) (snd sampleRing) firstEgress
      = (firstEgress\<lparr>lastPos := p, skipped := skipped firstEgress \<or> lastPos firstEgress + 1 < p\<rparr>, Some (a, r'))"
    and p: "lastPos firstEgress < p" "p \<le> length [7 :: nat]" and seq: "gseq (heap r' ! a) = [7] ! (p - 1)" by blast
  have p1: "p = 1" using p by (simp add: firstEgress_fields)
  let ?e = "egressGroup 0 0 (tdrops ?t) groupSent (gseq (heap r' ! a)) (highestSeq (heap r' ! a))
    (firstEgress\<lparr>lastPos := p, skipped := skipped firstEgress \<or> lastPos firstEgress + 1 < p\<rparr>)"
  have "egress_run ?t ?e"
    by (rule egress_run.group [OF run]) (simp_all add: firstEgress_fields t pick)
  moreover have "pc ?e = AtLoop" "deliveredPos ?e = [1]" "lastPos ?e = 1"
    by (simp_all add: egressGroup_def Let_def p1 seq firstEgress_fields isHandled_def newDropReporter_def)
  ultimately show ?thesis by blast
qed

section \<open>Properties\<close>







text \<open>
  C38: A group can be missed while it is being reserved: \<open>reserve\<close> advances the head before it
  stores the cache, and a subscriber that looks in between moves past the new position without
  finding the group and without noting a skip; no later pick returns to it.
\<close>

theorem group_missed_while_reserved:
  assumes "ring_run r H sq" and "lastPos e = length sq" and "r' = r\<lparr>ringPos := ringPos r + 1\<rparr>"
  shows "egressPick r' r' r' e = (e\<lparr>lastPos := length sq + 1\<rparr>, None)
    \<and> (\<forall>e1 e2 r0 r1 r2 x. length sq + 1 \<le> lastPos e1 \<longrightarrow> egressPick r0 r1 r2 e1 = (e2, Some x) \<longrightarrow>
         length sq + 1 < lastPos e2)"
proof -
  have inv: "ringInv r H sq" using ring_run_inv [OF assms(1)] .
  then have pos: "ringPos r = length sq" and n: "caches r \<noteq> []"
    by (simp_all add: ringInv_def ringInvX_def placesOk_def)
  have "get (length sq + 1) r = None" using get_spec(1) [OF inv, of "length sq + 1"] by simp
  then have "get (length sq + 1) r' = None" by (auto simp: assms(3) get_def split: option.splits if_splits)
  moreover have "\<not> length sq + 1 < earliestAvailable r'"
    using n pos by (cases "caches r") (auto simp: earliestAvailable_def ringHead_def assms(3))
  ultimately have "egressPick r' r' r' e = (e\<lparr>lastPos := length sq + 1\<rparr>, None)"
    using assms(2) pos by (simp add: egressPick_def ringHead_def assms(3) Let_def)
  moreover have "lastPos e1 < lastPos e2" if "egressPick r0 r1 r2 e1 = (e2, Some x)" for e1 e2 r0 r1 r2 x
    using that by (auto simp: egressPick_def Let_def split: if_splits)
  ultimately show ?thesis by (meson le_less_trans)
qed

theorem group_missed_while_reserved_witness:
  "egressPick ((newGroupRing 2)\<lparr>ringPos := 1\<rparr>) ((newGroupRing 2)\<lparr>ringPos := 1\<rparr>) ((newGroupRing 2)\<lparr>ringPos := 1\<rparr>)
     firstEgress = (firstEgress\<lparr>lastPos := 1\<rparr>, None)"
  using group_missed_while_reserved [OF ring_run.new [of 2], of firstEgress "(newGroupRing 2)\<lparr>ringPos := 1\<rparr>"]
  by (simp add: firstEgress_fields newGroupRing_def)

text \<open>
  The end of a track can cost its last groups: when ingest stores and announces a group and
  ends between a subscriber's last check and its wait, both the news and the end are ready, and
  the subscriber may take the end: it returns without having looked at an announced group.
\<close>

theorem egress_end_loses_group:
  "\<exists>t e. egress_run t e \<and> pc e = Finished \<and> lastPos e < announced t"
proof -
  let ?s = "\<lparr>nseq = 0, nch = 0\<rparr>"
  have drops: "tdrops emptyTrack = newDropDistributor 4" by (simp add: emptyTrack_def)
  have "egressPick (tring emptyTrack) (tring emptyTrack) (tring emptyTrack) firstEgress = (firstEgress, None)"
    by (rule egressPick_level) (simp add: firstEgress_fields emptyTrack_def ringHead_def newGroupRing_def)
  from egress_run.idle [OF first_run _ this]
  have "egress_run emptyTrack (egressIdle (newDropDistributor 4) firstEgress)"
    by (simp add: firstEgress_fields drops)
  from egress_run.check [OF this, of ?s "countedTo 0"]
  have "egress_run emptyTrack (egressCheck ?s (egressIdle (newDropDistributor 4) firstEgress))"
    by (simp add: egressIdle_def emptyTrack_def)
  moreover define e where "e = egressCheck ?s (egressIdle (newDropDistributor 4) firstEgress)"
  ultimately have "egress_run (oneGroup emptyTrack) e"
    by (intro oneGroup_run) (simp_all add: emptyTrack_def newGroupRing_def)
  from egress_run.ended [OF egress_run.broadcast [OF this]] obtain t where
    t: "egress_run t e" "tdone t" "announced t = 1" by (force simp: oneGroup_def emptyTrack_def)
  have e: "pc e = Parked ?s" "lastPos e = 0"
    by (simp_all add: e_def egressCheck_def egressIdle_def firstEgress_fields)
  from egress_run.finish [OF t(1) e(1) t(2)] have "egress_run t (egressDone (tdrops t) e)" .
  moreover have "pc (egressDone (tdrops t) e) = Finished" "lastPos (egressDone (tdrops t) e) = 0"
    by (simp_all add: egressDone_def e)
  ultimately show ?thesis using t(3) by (intro exI [of _ t]) force
qed

end
