(* ===== verification/Routing.thy ===== *)
theory Routing
  imports Float64 "HOL-Library.AList"
begin

text \<open>
  The relay's route choice and track serving, \<^verbatim>\<open>src/internal/relay/handler.go\<close>: \<open>compareRoutes\<close>
  decides whether a new route to a broadcast replaces the current one; \<open>ServeTrack\<close>, \<open>subscribe\<close>,
  \<open>passRedirect\<close> and the redirect cache connect a subscriber to a track's distributor. The
  upstream session and the subscriber's track writer are third-party code: their answers are
  arguments.
\<close>

section \<open>Arithmetic on float64 values\<close>

text \<open>
  The quotient of two positive numbers \<open>a \<le> b\<close>: 53 significant bits \<open>m\<close> with scale \<open>k\<close>, for
  the value \<open>m / 2 ^ k\<close>.
\<close>

definition fquot :: "nat \<Rightarrow> nat \<Rightarrow> nat \<times> nat" where
  "fquot a b =
     (let k1 = 52 + ilog2 b - ilog2 a;
          k = (if a * 2 ^ k1 < 2 ^ 52 * b then k1 + 1 else k1);
          q = a * 2 ^ k div b; r = a * 2 ^ k mod b
      in (if 2 * r > b \<or> (2 * r = b \<and> odd q) then q + 1 else q, k))"

section \<open>Route comparison\<close>

record RouteStats =
  Alive :: bool
  Hops :: nat
  EstimatedBitrate :: nat
  RTT :: nat

datatype routeDecision =
    decisionAlive | decisionHops | decisionBitrate | decisionRTT
  | decisionDeadCandidate | decisionInferiorHops | decisionInferiorBitrate | decisionInferiorRTT
  | decisionEqualOrUnknown | decisionLowBitrateMargin | decisionLowRTTMargin

definition accepted :: "routeDecision \<Rightarrow> bool" where
  "accepted d \<longleftrightarrow> d \<in> {decisionAlive, decisionHops, decisionBitrate, decisionRTT}"

text \<open>
  \<^verbatim>\<open>bitrateMargin\<close> is the \<open>float64\<close> nearest 1.2, \<open>5404319552844595 / 2 ^ 52\<close>, \<^verbatim>\<open>rttMarginRel\<close> the one
  nearest 0.8, \<open>7205759403792794 / 2 ^ 53\<close>; \<^verbatim>\<open>rttMarginAbs\<close> is five milliseconds.
\<close>

definition bitrateMargin :: nat where
  "bitrateMargin = 5404319552844595"

definition rttMarginRel :: nat where
  "rttMarginRel = 7205759403792794"

definition rttMarginAbs :: nat where
  "rttMarginAbs = 5000000"

definition compareRoutes :: "RouteStats \<Rightarrow> RouteStats \<Rightarrow> routeDecision" where
  "compareRoutes candidate current =
     (if Alive candidate \<noteq> Alive current then
        (if Alive candidate then decisionAlive else decisionDeadCandidate)
      else if \<not> Alive candidate then decisionDeadCandidate
      else if Hops candidate < Hops current then decisionHops
      else if Hops candidate > Hops current then decisionInferiorHops
      else if EstimatedBitrate candidate \<noteq> EstimatedBitrate current then
        (if fround (EstimatedBitrate candidate) * 2 ^ 52 \<ge> fround (fround (EstimatedBitrate current) * bitrateMargin)
         then decisionBitrate
         else if EstimatedBitrate candidate > EstimatedBitrate current then decisionLowBitrateMargin
         else decisionInferiorBitrate)
      else if RTT candidate = 0 \<or> RTT current = 0 then decisionEqualOrUnknown
      else let candidateBetter = RTT candidate < RTT current;
               (m, k) = fquot (fround (RTT candidate)) (fround (RTT current))
           in if candidateBetter \<and> (RTT current - RTT candidate \<ge> rttMarginAbs \<or> m * 2 ^ 53 \<le> rttMarginRel * 2 ^ k)
              then decisionRTT
              else if candidateBetter then decisionLowRTTMargin
              else decisionInferiorRTT)"

lemma bitrate_margin:
  assumes "fround a * 2 ^ 52 \<ge> fround (fround b * bitrateMargin)" and "a \<noteq> b"
  shows "b < a"
proof -
  let ?A = "fround a" and ?B = "fround b"
  have "(2 ^ 53 - 1) * (?B * bitrateMargin) \<le> 2 ^ 53 * fround (?B * bitrateMargin)" using fround_err by blast
  also have "\<dots> \<le> 2 ^ 53 * (?A * 2 ^ 52)" using assms(1) by simp
  finally have "(2 ^ 53 - 1) * bitrateMargin * ?B \<le> 2 ^ 105 * ?A" by (simp add: algebra_simps)
  moreover have "2 ^ 53 * ?A \<le> (2 ^ 53 + 1) * a" "(2 ^ 53 - 1) * b \<le> 2 ^ 53 * ?B" using fround_err by blast+
  ultimately have "b \<le> a \<and> (b = a \<longrightarrow> a = 0 \<and> b = 0)"
    by (simp add: bitrateMargin_def)
  with assms(2) show ?thesis by simp
qed

text \<open>What it takes to displace a route.\<close>

definition betterRoute :: "RouteStats \<Rightarrow> RouteStats \<Rightarrow> bool" where
  "betterRoute c r \<longleftrightarrow> Alive c \<and> (\<not> Alive r \<or> Hops c < Hops r
     \<or> Hops c = Hops r \<and> (EstimatedBitrate c > EstimatedBitrate r
        \<or> EstimatedBitrate c = EstimatedBitrate r \<and> 0 < RTT c \<and> RTT c < RTT r))"

lemma accepted_better: "accepted (compareRoutes c r) \<Longrightarrow> betterRoute c r"
  using bitrate_margin [of "EstimatedBitrate r" "EstimatedBitrate c"]
  by (auto simp: compareRoutes_def accepted_def betterRoute_def Let_def split: if_splits prod.splits)



section \<open>Redirects\<close>

record redirect =
  URI :: string
  toPath :: string
  toTrack :: string

definition maxCachedRedirects :: nat where
  "maxCachedRedirects = 64"

type_synonym redirectCache = "(string \<times> redirect) list"

definition loadRedirect :: "string \<Rightarrow> redirectCache \<Rightarrow> redirect option" where
  "loadRedirect name c = map_of c name"

text \<open>A full cache gives up the entry at which the iteration over the map happens to start.\<close>

definition storeRedirect :: "nat \<Rightarrow> string \<Rightarrow> redirect \<Rightarrow> redirectCache \<Rightarrow> redirectCache" where
  "storeRedirect choice name to c =
     (let c1 = (if map_of c name = None \<and> length c \<ge> maxCachedRedirects
                then AList.delete (fst (c ! (choice mod length c))) c else c)
      in AList.update name to c1)"

datatype redirectResult = refused | notPassed | passed

text \<open>\<open>writerOk\<close>: the track writer sent the redirect. Otherwise it is closed with NotFound.\<close>

definition passRedirect :: "redirect \<Rightarrow> bool \<Rightarrow> redirectResult" where
  "passRedirect to writerOk = (if URI to \<noteq> [] then refused else if writerOk then passed else notPassed)"

section \<open>Serving tracks\<close>

text \<open>
  A handler always has its announcement and session. \<open>tracks\<close> names the running distributors by
  number; \<open>asked\<close> records the upstream subscriptions made.
\<close>

record relayHandler =
  nodeID :: string
  broadcastPath :: string
  annActive :: bool
  tracks :: "string \<rightharpoonup> nat"
  redirects :: redirectCache
  nextDistributor :: nat
  asked :: "string list"

definition trackID :: "relayHandler \<Rightarrow> string \<Rightarrow> string \<Rightarrow> string" where
  "trackID h path name = ''['' @ nodeID h @ '']'' @ path @ ''/'' @ name"

datatype upstreamAnswer = Subscribed | Redirected redirect | SubscribeFailed

datatype subscribeResult = UpstreamTrack nat bool | RedirectError redirect | ErrTrackNotFound

definition subscribe :: "upstreamAnswer \<Rightarrow> nat \<Rightarrow> string \<Rightarrow> relayHandler \<Rightarrow> subscribeResult \<times> relayHandler" where
  "subscribe answer choice name h =
     (case tracks h (trackID h (broadcastPath h) name) of
        Some d \<Rightarrow> (UpstreamTrack d False, h)
      | None \<Rightarrow>
          if \<not> annActive h then (ErrTrackNotFound, h)
          else case loadRedirect name (redirects h) of
            Some to \<Rightarrow> (RedirectError to, h)
          | None \<Rightarrow>
              let h1 = h\<lparr>asked := asked h @ [name]\<rparr>
              in case answer of
                   Redirected to \<Rightarrow> (RedirectError to, h1\<lparr>redirects := storeRedirect choice name to (redirects h1)\<rparr>)
                 | SubscribeFailed \<Rightarrow> (ErrTrackNotFound, h1)
                 | Subscribed \<Rightarrow> (UpstreamTrack (nextDistributor h1) True,
                     h1\<lparr>tracks := (tracks h1)(trackID h1 (broadcastPath h1) name \<mapsto> nextDistributor h1),
                        nextDistributor := nextDistributor h1 + 1\<rparr>))"

datatype served = EgressFrom nat bool | Redirecting redirectResult redirect | ClosedNotFound | Unsubscribed

text \<open>\<open>gone\<close>: the subscriber left while the upstream subscription was being made.\<close>

definition ServeTrack :: "upstreamAnswer \<Rightarrow> nat \<Rightarrow> bool \<Rightarrow> bool \<Rightarrow> string \<Rightarrow> string \<Rightarrow> relayHandler
    \<Rightarrow> served \<times> relayHandler" where
  "ServeTrack answer choice writerOk gone path name h =
     (case tracks h (trackID h path name) of
        Some d \<Rightarrow> (EgressFrom d False, h)
      | None \<Rightarrow>
          case (loadRedirect name (redirects h), annActive h) of
            (Some to, True) \<Rightarrow> (Redirecting (passRedirect to writerOk) to, h)
          | _ \<Rightarrow>
              let (result, h') = subscribe answer choice name h
              in if gone then (Unsubscribed, h')
                 else case result of
                   RedirectError to \<Rightarrow> (Redirecting (passRedirect to writerOk) to, h')
                 | ErrTrackNotFound \<Rightarrow> (ClosedNotFound, h')
                 | UpstreamTrack d opened \<Rightarrow> (EgressFrom d opened, h'))"

text \<open>Ingest ends: the distributor is removed if it is still the one registered.\<close>

definition removeTrack :: "string \<Rightarrow> nat \<Rightarrow> relayHandler \<Rightarrow> relayHandler" where
  "removeTrack tid d h = (if tracks h tid = Some d then h\<lparr>tracks := (tracks h)(tid := None)\<rparr> else h)"

definition cacheBounded :: "relayHandler \<Rightarrow> bool" where
  "cacheBounded h \<longleftrightarrow> length (redirects h) \<le> maxCachedRedirects \<and> distinct (map fst (redirects h))"

lemma update_length:
  "length (AList.update k v al) = (if k \<in> fst ` set al then length al else Suc (length al))"
  by (induction al) auto

lemma delete_length: "k \<in> fst ` set al \<Longrightarrow> length (AList.delete k al) < length al"
  by (induction al) (auto simp: AList.delete_eq le_imp_less_Suc length_filter_le)

lemma storeRedirect_ok:
  assumes "length c \<le> maxCachedRedirects" and "distinct (map fst c)"
  shows "length (storeRedirect i name to c) \<le> maxCachedRedirects"
    and "distinct (map fst (storeRedirect i name to c))"
    and "loadRedirect name (storeRedirect i name to c) = Some to"
proof -
  let ?k = "fst (c ! (i mod length c))"
  let ?c1 = "if map_of c name = None \<and> length c \<ge> maxCachedRedirects then AList.delete ?k c else c"
  have d: "distinct (map fst ?c1)" using assms(2) by (simp add: distinct_delete)
  then show "distinct (map fst (storeRedirect i name to c))"
    by (simp add: storeRedirect_def Let_def distinct_update)
  show "loadRedirect name (storeRedirect i name to c) = Some to"
    by (simp add: storeRedirect_def Let_def loadRedirect_def update_conv')
  have "?k \<in> fst ` set c" if "length c \<ge> maxCachedRedirects"
  proof -
    have "c \<noteq> []" using that by (auto simp: maxCachedRedirects_def)
    then have "i mod length c < length c" by simp
    then show ?thesis by (intro imageI nth_mem)
  qed
  from delete_length [OF this] assms(1) show "length (storeRedirect i name to c) \<le> maxCachedRedirects"
    by (auto simp: storeRedirect_def Let_def update_length map_of_eq_None_iff)
qed


definition sampleHandler :: relayHandler where
  "sampleHandler = \<lparr>nodeID = ''n'', broadcastPath = ''/live'', annActive = True, tracks = Map.empty,
     redirects = [], nextDistributor = 0, asked = []\<rparr>"


end
