(* ===== verification/Lease.thy ===== *)
theory Lease
  imports Float64
begin

text \<open>
  The lease of an admitted session and the backoff of outbound dials
  (\<^verbatim>\<open>src/internal/relay/lease.go\<close>, \<^verbatim>\<open>src/internal/relay/backoff.go\<close>). A duration is a number of
  nanoseconds. A lease is its record and the delay its timer is armed with; \<open>check\<close> runs in two
  parts, before and after the call to the authorization service, between which the session may
  stop the lease. The reply of that call and the random numbers are arguments.
\<close>

section \<open>Outcomes of a check\<close>

text \<open>
  A reply of \<open>Authorize\<close>: a grant, of which a lease reads the revalidate cadence, or none, or an error,
  which is a \<open>RefusedError\<close> or another one.
\<close>

datatype authReply = noGrant | aGrant int | refusedError | otherError

datatype authResult = authUnchecked | authAdmitted | authRefused | authError

fun authOutcome :: "authReply \<Rightarrow> authResult" where
  "authOutcome noGrant = authUnchecked"
| "authOutcome (aGrant _) = authAdmitted"
| "authOutcome refusedError = authRefused"
| "authOutcome otherError = authError"

datatype endCause = endRefused | endClosed | endDropped

section \<open>The lease\<close>

definition revalidateRetryBase :: int where "revalidateRetryBase = 1000000000"

definition revalidateRetryMax :: int where "revalidateRetryMax = 30 * 1000000000"

text \<open>\<open>retryDelay\<close>, with \<open>rnd n\<close> the number \<^verbatim>\<open>rand.N(n)\<close> gives; the shift is of an \<open>int64\<close>.\<close>

definition retryDelay :: "(int \<Rightarrow> int) \<Rightarrow> nat \<Rightarrow> int" where
  "retryDelay rnd attempt =
     (let d = min (wrap64 (revalidateRetryBase * 2 ^ min (attempt - 1) 30)) revalidateRetryMax
      in d div 2 + rnd (d div 2 + 1))"

record lease =
  timer :: "int option"
  cadence :: int
  failures :: nat
  stopped :: bool
  ended :: "endCause option"

definition startLease :: "int \<Rightarrow> lease option" where
  "startLease cad =
     (if cad \<le> 0 then None
      else Some \<lparr>timer = Some cad, cadence = cad, failures = 0, stopped = False, ended = None\<rparr>)"

definition stop :: "lease \<Rightarrow> lease" where
  "stop l = l \<lparr>stopped := True, timer := None\<rparr>"

definition endedBy :: "lease option \<Rightarrow> endCause option" where
  "endedBy l = (case l of None \<Rightarrow> None | Some l \<Rightarrow> ended l)"

text \<open>
  The first part of \<open>check\<close>: the timer has fired, and whether there is anything to do; and the second,
  with the reply of \<open>revalidate\<close>. It returns the reason to end the session, or none.
\<close>

definition checkBegin :: "lease \<Rightarrow> lease \<times> bool" where
  "checkBegin l = (l \<lparr>timer := None\<rparr>, \<not> stopped l)"

definition checkReply :: "(int \<Rightarrow> int) \<Rightarrow> authReply \<Rightarrow> lease \<Rightarrow> lease \<times> endCause option" where
  "checkReply rnd reply l =
     (if stopped l then (l, None)
      else case authOutcome reply of
          authRefused \<Rightarrow> (l \<lparr>stopped := True, ended := Some endRefused\<rparr>, Some endRefused)
        | authError \<Rightarrow>
            let l1 = l \<lparr>failures := failures l + 1\<rparr>; n = retryDelay rnd (failures l1)
            in (if n > 0 then l1 \<lparr>timer := Some n\<rparr> else l1, None)
        | authAdmitted \<Rightarrow>
            let n = (case reply of aGrant c \<Rightarrow> c | _ \<Rightarrow> 0); l1 = l \<lparr>failures := 0, cadence := n\<rparr>
            in (if n > 0 then l1 \<lparr>timer := Some n\<rparr> else l1, None)
        | authUnchecked \<Rightarrow>
            let l1 = l \<lparr>failures := 0\<rparr>
            in (if cadence l > 0 then l1 \<lparr>timer := Some (cadence l)\<rparr> else l1, None))"

text \<open>What closed a session, as the chain of errors its close cause wraps.\<close>

datatype errorKind = IdleTimeoutError | StatelessResetError | ioEOF | ioErrUnexpectedEOF | OpError | otherCause

definition lostStream :: "errorKind list \<Rightarrow> bool" where
  "lostStream cause \<longleftrightarrow>
     (ioEOF \<in> set cause \<or> ioErrUnexpectedEOF \<in> set cause) \<or> OpError \<in> set cause"

definition endReason :: "lease option \<Rightarrow> errorKind list \<Rightarrow> endCause" where
  "endReason l cause =
     (case endedBy l of
        Some reason \<Rightarrow> reason
      | None \<Rightarrow>
          if IdleTimeoutError \<in> set cause then endDropped
          else if StatelessResetError \<in> set cause then endDropped
          else if lostStream cause then endDropped
          else endClosed)"

section \<open>A session under a lease\<close>

text \<open>
  The goroutines: the timer's, which is idle or waits for a reply, and the session's, which may stop
  the lease at any moment. \<open>closes\<close> counts the calls of \<open>CloseWithError\<close> that \<open>fire\<close> makes.
\<close>

record leaseRun =
  theLease :: lease
  inCheck :: bool
  closes :: nat

inductive lease_step :: "(int \<Rightarrow> int) \<Rightarrow> leaseRun \<Rightarrow> leaseRun \<Rightarrow> bool" for rnd where
  fires: "timer (theLease r) = Some d \<Longrightarrow> \<not> inCheck r \<Longrightarrow> checkBegin (theLease r) = (l, go) \<Longrightarrow>
    lease_step rnd r (r \<lparr>theLease := l, inCheck := go\<rparr>)"
| replies: "inCheck r \<Longrightarrow> checkReply rnd reply (theLease r) = (l, reason) \<Longrightarrow>
    lease_step rnd r (r \<lparr>theLease := l, inCheck := False,
      closes := closes r + (if reason = None then 0 else 1)\<rparr>)"
| stops: "lease_step rnd r (r \<lparr>theLease := stop (theLease r)\<rparr>)"

inductive lease_reach :: "(int \<Rightarrow> int) \<Rightarrow> int \<Rightarrow> leaseRun \<Rightarrow> bool" for rnd cad where
  start: "startLease cad = Some l \<Longrightarrow> lease_reach rnd cad \<lparr>theLease = l, inCheck = False, closes = 0\<rparr>"
| step: "lease_reach rnd cad r \<Longrightarrow> lease_step rnd r r' \<Longrightarrow> lease_reach rnd cad r'"

text \<open>\<^verbatim>\<open>rand.N(n)\<close> is in \<open>[0, n)\<close>.\<close>

definition uniform :: "(int \<Rightarrow> int) \<Rightarrow> bool" where
  "uniform rnd \<longleftrightarrow> (\<forall>n > 0. 0 \<le> rnd n \<and> rnd n < n)"

lemma retryDelay_bounds:
  assumes "uniform rnd" and "0 < attempt"
  shows "let d = min (1000000000 * 2 ^ (attempt - 1)) 30000000000
         in d div 2 \<le> retryDelay rnd attempt \<and> retryDelay rnd attempt \<le> d \<and> 500000000 \<le> retryDelay rnd attempt"
proof -
  define e where "e = min (attempt - 1) 30"
  define x where "x = (2 :: int) ^ e"
  have "x \<le> 2 ^ 30" unfolding x_def by (rule power_increasing) (simp_all add: e_def)
  moreover have "1 \<le> x" by (simp add: x_def)
  ultimately have w: "wrap64 (1000000000 * 2 ^ e) = 1000000000 * 2 ^ e"
    unfolding x_def [symmetric] by (intro wrap64_id) simp_all
  have d: "min (1000000000 * (2 :: int) ^ e) 30000000000 = min (1000000000 * 2 ^ (attempt - 1)) 30000000000"
  proof (cases "attempt - 1 \<le> 30")
    case False
    then have "(2 :: int) ^ 30 \<le> 2 ^ (attempt - 1)" by (intro power_increasing) auto
    moreover from False have "e = 30" by (simp add: e_def)
    ultimately show ?thesis by simp
  qed (simp add: e_def)
  let ?d = "min (1000000000 * (2 :: int) ^ (attempt - 1)) 30000000000"
  have ge: "1000000000 \<le> ?d" by simp
  then have "0 < ?d div 2 + 1" by linarith
  with assms(1) have "0 \<le> rnd (?d div 2 + 1) \<and> rnd (?d div 2 + 1) < ?d div 2 + 1"
    unfolding uniform_def by blast
  moreover have "retryDelay rnd attempt = ?d div 2 + rnd (?d div 2 + 1)"
    by (simp only: retryDelay_def Let_def revalidateRetryBase_def revalidateRetryMax_def e_def [symmetric] w)
      (simp add: d [simplified])
  ultimately show ?thesis using ge unfolding Let_def by linarith
qed

section \<open>What a lease guarantees\<close>

definition leaseOk :: "leaseRun \<Rightarrow> bool" where
  "leaseOk r \<longleftrightarrow>
     (let l = theLease r
      in closes r = (if ended l = None then 0 else 1)
         \<and> (ended l \<noteq> None \<longrightarrow> stopped l \<and> ended l = Some endRefused)
         \<and> (timer l \<noteq> None \<longrightarrow> \<not> stopped l \<and> \<not> inCheck r)
         \<and> (\<forall>d. timer l = Some d \<longrightarrow> 0 < d \<and> d \<le> max (cadence l) revalidateRetryMax)
         \<and> (stopped l \<or> inCheck r \<or> timer l \<noteq> None \<or> cadence l \<le> 0))"

lemma checkReply_ok:
  assumes "leaseOk r" and "inCheck r" and "uniform rnd" and "checkReply rnd reply (theLease r) = (l, reason)"
  shows "leaseOk (r \<lparr>theLease := l, inCheck := False, closes := closes r + (if reason = None then 0 else 1)\<rparr>)"
proof -
  have retry: "0 < retryDelay rnd (Suc n) \<and> retryDelay rnd (Suc n) \<le> revalidateRetryMax" for n
    using retryDelay_bounds [OF assms(3), of "Suc n"] by (simp add: Let_def revalidateRetryMax_def)
  show ?thesis
  proof (cases "stopped (theLease r)")
    case True
    with assms show ?thesis by (auto simp: leaseOk_def checkReply_def Let_def)
  next
    case False
    with assms retry [of "failures (theLease r)"] show ?thesis
      by (cases reply) (auto simp: leaseOk_def checkReply_def Let_def split: if_splits)
  qed
qed

lemma lease_step_ok:
  assumes "lease_step rnd r r'" and "leaseOk r" and "uniform rnd"
  shows "leaseOk r'"
  using assms
proof (induction rule: lease_step.induct)
  case (fires r d l go)
  then show ?case by (auto simp: leaseOk_def checkBegin_def Let_def)
next
  case (replies r reply l reason)
  then show ?case by (blast intro: checkReply_ok)
next
  case (stops r)
  then show ?case by (auto simp: leaseOk_def stop_def Let_def)
qed



text \<open>
  The retry of a revalidate that could not be answered is a jittered exponential backoff: before
  the \<open>n\<close>-th retry in a row the lease waits at least half and at most all of \<open>2 ^ (n - 1)\<close> seconds, capped
  at half a minute, however large \<open>n\<close> is (the shift never overflows).
\<close>

theorem retryDelay_backoff:
  assumes "uniform rnd" and "0 < n"
  shows "let d = min (revalidateRetryBase * 2 ^ (n - 1)) revalidateRetryMax
     in d div 2 \<le> retryDelay rnd n \<and> retryDelay rnd n \<le> d"
  using retryDelay_bounds [OF assms]
  by (simp add: Let_def revalidateRetryBase_def revalidateRetryMax_def)

section \<open>Dial backoff\<close>

record DialBackoff =
  Base :: int
  Max :: int
  MaxAttempts :: int
  attempt :: nat

text \<open>
  The jittered delay: \<^verbatim>\<open>rand.Float64()\<close> is \<open>n / 2 ^ 53\<close> for an \<open>n\<close> below \<open>2 ^ 53\<close>, so that \<open>0.75 + 0.5 * r\<close> is
  \<open>3 * 2 ^ 52 + n\<close> rounded to 53 bits, over \<open>2 ^ 54\<close>.
\<close>

definition jitter :: "int \<Rightarrow> nat \<Rightarrow> int" where
  "jitter delay n =
     (let v = int (fround (fround (nat \<bar>delay\<bar>) * fround (3 * 2 ^ 52 + n)) div 2 ^ 54)
      in if delay < 0 then - v else v)"

text \<open>\<open>Wait\<close>: the delay its timer is set to, and the advanced state; \<open>None\<close> when the attempts are used up.\<close>

definition Wait :: "nat \<Rightarrow> DialBackoff \<Rightarrow> int option \<times> DialBackoff" where
  "Wait n b =
     (if MaxAttempts b > 0 \<and> int (attempt b) \<ge> MaxAttempts b then (None, b)
      else let exp = (if attempt b < 10 then 2 ^ attempt b else 2 ^ 9);
               delay = wrap64 (Base b * exp);
               delay = (if Max b > 0 \<and> delay > Max b then Max b else delay)
           in (Some (jitter delay n), b \<lparr>attempt := attempt b + 1\<rparr>))"

definition Attempts :: "DialBackoff \<Rightarrow> nat" where
  "Attempts b = attempt b"

definition Reset :: "DialBackoff \<Rightarrow> DialBackoff" where
  "Reset b = b \<lparr>attempt := 0\<rparr>"

text \<open>\<open>jitterDelay\<close>: the duration it waits, \<^verbatim>\<open>rand.Float64() * float64(max)\<close>.\<close>

definition jitterDelay :: "nat \<Rightarrow> int \<Rightarrow> int" where
  "jitterDelay n m =
     (let v = int (fround (n * fround (nat \<bar>m\<bar>)) div 2 ^ 53) in if m < 0 then - v else v)"

lemma fround_small: "n < 2 ^ 53 \<Longrightarrow> fround n = n"
proof (cases "n = 0")
  case True
  then show ?thesis by (simp add: fround_def ilog2.simps)
next
  case False
  assume "n < 2 ^ 53"
  with False have "ilog2 n < 53" by (intro ilog2_less) auto
  then show ?thesis by (simp add: fround_def)
qed

lemma jitter_bounds:
  assumes "0 \<le> delay" and "delay < 2 ^ 51" and "n < 2 ^ 53"
  shows "3 * delay - 8 \<le> 4 * jitter delay n \<and> 4 * jitter delay n \<le> 5 * delay + 4"
proof -
  define d where "d = nat delay"
  have d: "delay = int d" "d < 2 ^ 51" using assms by (auto simp: d_def)
  define F where "F = fround (3 * 2 ^ 52 + n)"
  define P where "P = fround (d * F)"
  have "2 ^ 53 * F \<le> (2 ^ 53 + 1) * (3 * 2 ^ 52 + n)" "(2 ^ 53 - 1) * (3 * 2 ^ 52 + n) \<le> 2 ^ 53 * F"
    unfolding F_def using fround_err by blast+
  then have F: "3 * 2 ^ 52 - 2 \<le> F" "F \<le> 5 * 2 ^ 52 + 2"
    using assms(3) by simp_all
  have dF: "d * (3 * 2 ^ 52 - 2) \<le> d * F" "d * F \<le> d * (5 * 2 ^ 52 + 2)"
    using F by (simp_all only: mult_le_mono2)
  have err: "2 ^ 53 * P \<le> (2 ^ 53 + 1) * (d * F)" "(2 ^ 53 - 1) * (d * F) \<le> 2 ^ 53 * P"
    unfolding P_def using fround_err by blast+
  note P = order_trans [OF err(1) mult_le_mono2 [OF dF(2)]] order_trans [OF mult_le_mono2 [OF dF(1)] err(2)]
  have J: "jitter (int d) n = int (P div 2 ^ 54)"
    using fround_small [of d] d by (simp add: jitter_def P_def F_def)
  have "P div 2 ^ 54 * 2 ^ 54 \<le> P" "P < (P div 2 ^ 54 + 1) * 2 ^ 54"
    using div_mult_mod_eq [of P "2 ^ 54"] mod_less_divisor [of "2 ^ 54" P] by simp_all
  then have "3 * d \<le> 4 * (P div 2 ^ 54) + 8 \<and> 4 * (P div 2 ^ 54) \<le> 5 * d + 4"
    using P d(2) by simp
  then have "3 * int d - 8 \<le> 4 * int (P div 2 ^ 54) \<and> 4 * int (P div 2 ^ 54) \<le> 5 * int d + 4" by linarith
  then show ?thesis unfolding d(1) J .
qed

text \<open>
  The dial backoff doubles and is bounded: the timer of the \<open>k\<close>-th wait is set to within a quarter (and
  the rounding of the \<open>float64\<close> product) of the base times \<open>2 ^ k\<close>, at most \<open>2 ^ 9\<close>, or of the ceiling where that is smaller;
  each wait counts one attempt, and with a limit exactly that many waits are granted.
\<close>

theorem dial_backoff_bounds:
  assumes "0 < Base b" and "Base b * 512 < 2 ^ 51" and "n < 2 ^ 53"
  shows "let k = min (attempt b) 9;
             full = (if Max b > 0 then min (Base b * 2 ^ k) (Max b) else Base b * 2 ^ k)
         in case Wait n b of
              (None, b') \<Rightarrow> 0 < MaxAttempts b \<and> MaxAttempts b \<le> int (Attempts b) \<and> b' = b
            | (Some d, b') \<Rightarrow> 3 * full - 8 \<le> 4 * d \<and> 4 * d \<le> 5 * full + 4 \<and> Attempts b' = Attempts b + 1
                \<and> Attempts (Reset b') = 0 \<and> (0 < MaxAttempts b \<longrightarrow> int (Attempts b') \<le> MaxAttempts b)"
proof -
  define k where "k = min (attempt b) 9"
  define full where "full = (if Max b > 0 then min (Base b * 2 ^ k) (Max b) else Base b * 2 ^ k)"
  have exp: "(if attempt b < 10 then 2 ^ attempt b else 2 ^ 9) = (2 :: int) ^ k"
    by (auto simp: k_def min_def)
  have "(2 :: int) ^ k \<le> 2 ^ 9" by (rule power_increasing) (simp_all add: k_def)
  then have "Base b * 2 ^ k \<le> Base b * 512" using assms(1) by (intro mult_left_mono) auto
  moreover have "0 < Base b * 2 ^ k" using assms(1) by simp
  ultimately have small: "0 < Base b * 2 ^ k" "Base b * 2 ^ k < 2 ^ 51" using assms(2) by auto
  then have "wrap64 (Base b * 2 ^ k) = Base b * 2 ^ k" by (intro wrap64_id) auto
  then have wait: "Wait n b = (if MaxAttempts b > 0 \<and> int (attempt b) \<ge> MaxAttempts b then (None, b)
      else (Some (jitter full n), b \<lparr>attempt := attempt b + 1\<rparr>))"
    unfolding Wait_def Let_def exp full_def by (auto simp: min_def)
  have "0 \<le> full" "full < 2 ^ 51" using small by (auto simp: full_def)
  from jitter_bounds [OF this assms(3)] show ?thesis
    unfolding Let_def k_def [symmetric] full_def [symmetric] wait
    by (auto simp: Attempts_def Reset_def)
qed

end
