(* ===== verification/Token_Path.thy ===== *)
theory Token_Path
  imports Prelude "HOL-Library.Sublist"
begin

text \<open>
  The paths and grants of capability tokens (\<^verbatim>\<open>src/token/path.go\<close>, \<^verbatim>\<open>src/token/grant.go\<close>). A Go
  string is a \<^typ>\<open>string\<close>, a list of bytes. The pattern language of MoQ grants belongs to the
  module \<^verbatim>\<open>gomoqt\<close>: \<open>ParseGrantPattern\<close> and \<open>Validate\<close> are parameters, a pattern being the
  predicate its \<open>Match\<close> computes. The lemmas read a directory as the list of its segments:
  \<open>Directory\<close> returns one spelling for every list of segments, and the prefix comparison of
  \<open>within\<close> is the prefix order on segments.
\<close>

section \<open>Package strings\<close>

text \<open>\<^verbatim>\<open>strings.Split\<close> and \<^verbatim>\<open>strings.SplitSeq\<close> with a separator of one byte.\<close>

fun splitOn :: "char \<Rightarrow> string \<Rightarrow> string list" where
  "splitOn c [] = [[]]"
| "splitOn c (x # xs) =
     (if x = c then [] # splitOn c xs
      else (x # hd (splitOn c xs)) # tl (splitOn c xs))"

fun joinWith :: "string \<Rightarrow> string list \<Rightarrow> string" where
  "joinWith sep [] = []"
| "joinWith sep [s] = s"
| "joinWith sep (s # t # ss) = s @ sep @ joinWith sep (t # ss)"

definition HasPrefix :: "string \<Rightarrow> string \<Rightarrow> bool" where
  "HasPrefix s p \<longleftrightarrow> prefix p s"

definition TrimPrefix :: "string \<Rightarrow> string \<Rightarrow> string" where
  "TrimPrefix s p = (if HasPrefix s p then drop (length p) s else s)"

definition ContainsAny :: "string \<Rightarrow> string \<Rightarrow> bool" where
  "ContainsAny s chars \<longleftrightarrow> (\<exists>c \<in> set s. c \<in> set chars)"

section \<open>Paths\<close>

datatype pathError = dotSegment string | patternSegment string

text \<open>The loop of \<open>normalizePath\<close> over the segments, returning those it keeps.\<close>

fun keepSegments :: "string list \<Rightarrow> pathError + string list" where
  "keepSegments [] = Inr []"
| "keepSegments (seg # segs) =
     (if seg = [] then keepSegments segs
      else if seg = ''.'' \<or> seg = ''..'' then Inl (dotSegment seg)
      else if ContainsAny seg ''*{}'' then Inl (patternSegment seg)
      else bindE (keepSegments segs) (\<lambda>kept. Inr (seg # kept)))"

definition normalizePath :: "string \<Rightarrow> pathError + string" where
  "normalizePath p = bindE (keepSegments (splitOn (CHR ''/'') p)) (\<lambda>kept. Inr (joinWith ''/'' kept))"

definition Directory :: "string \<Rightarrow> pathError + string" where
  "Directory p = bindE (normalizePath p) (\<lambda>n. if n = [] then Inr ''/'' else Inr (''/'' @ n @ ''/''))"

definition atAndBeneath :: "string \<Rightarrow> pathError + string list" where
  "atAndBeneath sfx = bindE (normalizePath sfx) (\<lambda>s.
     if s = [] then Inr [''/''] else Inr [''/'' @ s, ''/'' @ s @ ''/''])"

definition HLSDirectory :: string where
  "HLSDirectory = ''/.hls/''"

definition within :: "string \<Rightarrow> string \<Rightarrow> bool" where
  "within root pre \<longleftrightarrow> HasPrefix root pre \<or> HasPrefix root (HLSDirectory @ TrimPrefix pre ''/'')"

section \<open>Grants\<close>

type_synonym Action = string

definition ActionPublish :: Action where "ActionPublish = ''publish''"
definition ActionSubscribe :: Action where "ActionSubscribe = ''subscribe''"
definition ActionPost :: Action where "ActionPost = ''post''"
definition ActionRedact :: Action where "ActionRedact = ''redact''"
definition ActionCreate :: Action where "ActionCreate = ''create''"

lemmas action_defs =
  ActionPublish_def ActionSubscribe_def ActionPost_def ActionRedact_def ActionCreate_def

text \<open>
  The embedded \<^verbatim>\<open>moqt.Grant\<close> gives the fields \<open>Root\<close>, \<open>Publish\<close>, \<open>Subscribe\<close> and \<open>MaxAge\<close>; the rest
  are the token's own. \<open>MaxAge\<close> is a duration in nanoseconds.
\<close>

record Grant =
  Root :: string
  Publish :: "string list"
  Subscribe :: "string list"
  MaxAge :: int
  Create :: "string list"
  Post :: "string list"
  Redact :: "string list"
  Subject :: string

definition Patterns :: "Grant \<Rightarrow> Action \<Rightarrow> string list" where
  "Patterns g action =
     (if action = ActionPublish then Publish g
      else if action = ActionSubscribe then Subscribe g
      else if action = ActionCreate then Create g
      else if action = ActionPost then Post g
      else if action = ActionRedact then Redact g
      else [])"

definition Actions :: "Action list" where
  "Actions = [ActionPublish, ActionSubscribe, ActionCreate, ActionPost, ActionRedact]"

text \<open>
  What the token package calls of \<^verbatim>\<open>gomoqt\<close>: \<open>ParseGrantPattern root s\<close> is the predicate the
  pattern's \<open>Match\<close> decides, or \<open>None\<close> for a pattern it refuses; \<open>Validate\<close> accepts a grant.
\<close>

record moqt =
  ParseGrantPattern :: "string \<Rightarrow> string \<Rightarrow> (string \<Rightarrow> bool) option"
  Validate :: "Grant \<Rightarrow> bool"

definition Allows :: "moqt \<Rightarrow> Grant \<Rightarrow> Action \<Rightarrow> string \<Rightarrow> bool" where
  "Allows mq g action path =
     (case normalizePath path of
        Inl _ \<Rightarrow> False
      | Inr p \<Rightarrow>
          if p \<noteq> TrimPrefix path ''/'' then False
          else list_ex (\<lambda>s. case ParseGrantPattern mq (Root g) s of
                              None \<Rightarrow> False
                            | Some pat \<Rightarrow> pat (''/'' @ p)) (Patterns g action))"

text \<open>\<open>ErrInvalid\<close> and \<open>ErrForbidden\<close>, without the text of the message.\<close>

datatype tokenError = ErrInvalid | ErrForbidden

definition checkPattern :: "moqt \<Rightarrow> string \<Rightarrow> string \<Rightarrow> bool" where
  "checkPattern mq root s \<longleftrightarrow>
     ParseGrantPattern mq root s \<noteq> None
     \<and> list_all (\<lambda>seg. seg \<noteq> ''.'' \<and> seg \<noteq> ''..'') (splitOn (CHR ''/'') s)"

definition checked :: "moqt \<Rightarrow> Grant \<Rightarrow> string \<Rightarrow> tokenError + Grant" where
  "checked mq g pre =
     (if MaxAge g \<noteq> 0 then Inl ErrInvalid
      else if Root g = [] then
        (if list_ex (\<lambda>a. Patterns g a \<noteq> []) Actions then Inl ErrInvalid else Inr g)
      else if Directory (Root g) \<noteq> Inr (Root g) then Inl ErrInvalid
      else if \<not> list_all (\<lambda>a. list_all (checkPattern mq (Root g)) (Patterns g a)) Actions then Inl ErrInvalid
      else if \<not> Validate mq g then Inl ErrInvalid
      else if \<not> within (Root g) pre then Inl ErrForbidden
      else Inr g)"

section \<open>Splitting and joining\<close>

lemma splitOn_not_Nil [simp]: "splitOn c s \<noteq> []"
  by (cases s) auto

lemma splitOn_segment: "seg \<in> set (splitOn c s) \<Longrightarrow> c \<notin> set seg"
proof (induction s arbitrary: seg)
  case (Cons x xs)
  obtain h t where e: "splitOn c xs = h # t" by (cases "splitOn c xs") auto
  with Cons show ?case by (auto split: if_splits)
qed simp

lemma splitOn_plain: "c \<notin> set s \<Longrightarrow> splitOn c s = [s]"
  by (induction s) auto

lemma splitOn_append: "c \<notin> set s \<Longrightarrow> splitOn c (s @ c # t) = s # splitOn c t"
  by (induction s) auto

lemma splitOn_join:
  "\<forall>s \<in> set ss. c \<notin> set s \<Longrightarrow> splitOn c (joinWith [c] ss) = (if ss = [] then [[]] else ss)"
  by (induction ss rule: induct_list012) (auto simp: splitOn_plain splitOn_append)

lemma join_splitOn: "joinWith [c] (splitOn c s) = s"
proof (induction s)
  case (Cons x xs)
  obtain h t where e: "splitOn c xs = h # t" by (cases "splitOn c xs") auto
  with Cons show ?case by (cases t) auto
qed simp

section \<open>Directories as segments\<close>

text \<open>A segment a path may have, and the segments a path names.\<close>

definition plainSeg :: "string \<Rightarrow> bool" where
  "plainSeg s \<longleftrightarrow> s \<noteq> [] \<and> CHR ''/'' \<notin> set s \<and> s \<noteq> ''.'' \<and> s \<noteq> ''..'' \<and> \<not> ContainsAny s ''*{}''"

definition segments :: "string \<Rightarrow> string list" where
  "segments p = filter (\<lambda>s. s \<noteq> []) (splitOn (CHR ''/'') p)"

text \<open>The directory of a list of segments, one \<open>/\<close> after each and one in front.\<close>

definition dirOf :: "string list \<Rightarrow> string" where
  "dirOf ss = CHR ''/'' # concat (map (\<lambda>s. s @ ''/'') ss)"

lemma keepSegments_iff:
  "keepSegments ss = Inr kept \<longleftrightarrow>
     kept = filter (\<lambda>s. s \<noteq> []) ss
     \<and> (\<forall>s \<in> set kept. s \<noteq> ''.'' \<and> s \<noteq> ''..'' \<and> \<not> ContainsAny s ''*{}'')"
  by (induction ss arbitrary: kept) (auto simp: bindE_Inr_iff)

lemma normalizePath_iff:
  "normalizePath p = Inr n \<longleftrightarrow> n = joinWith ''/'' (segments p) \<and> list_all plainSeg (segments p)"
  using splitOn_segment [of _ "CHR ''/''" p]
  by (auto simp: normalizePath_def bindE_Inr_iff keepSegments_iff segments_def plainSeg_def list_all_iff)

lemma joinWith_Nil: "list_all plainSeg ss \<Longrightarrow> joinWith ''/'' ss = [] \<longleftrightarrow> ss = []"
  by (cases ss; cases "tl ss") (auto simp: plainSeg_def)

lemma dirOf_join: "ss \<noteq> [] \<Longrightarrow> dirOf ss = ''/'' @ joinWith ''/'' ss @ ''/''"
proof -
  have "ss \<noteq> [] \<Longrightarrow> concat (map (\<lambda>s. s @ ''/'') ss) = joinWith ''/'' ss @ ''/''"
    by (induction ss rule: induct_list012) auto
  then show "ss \<noteq> [] \<Longrightarrow> dirOf ss = ''/'' @ joinWith ''/'' ss @ ''/''" by (simp add: dirOf_def)
qed

lemma Directory_iff:
  "Directory p = Inr d \<longleftrightarrow> d = dirOf (segments p) \<and> list_all plainSeg (segments p)"
  by (cases "segments p = []")
    (auto simp: Directory_def bindE_Inr_iff normalizePath_iff joinWith_Nil dirOf_join, auto simp: dirOf_def)

lemma segments_dirOf: "list_all plainSeg ss \<Longrightarrow> segments (dirOf ss) = ss"
  by (induction ss) (auto simp: segments_def dirOf_def splitOn_append plainSeg_def)

lemma segments_plain: "list_all plainSeg ss \<Longrightarrow> segments (joinWith ''/'' ss) = ss"
  by (auto simp: segments_def splitOn_join plainSeg_def list_all_iff)

lemma separator_first:
  "c \<notin> set a \<Longrightarrow> c \<notin> set b \<Longrightarrow> a @ c # x = b @ c # y \<longleftrightarrow> a = b \<and> x = y"
proof (induction a arbitrary: b)
  case Nil
  then show ?case by (cases b) auto
next
  case (Cons h t)
  then show ?case by (cases b) auto
qed

lemma dirOf_prefix:
  assumes "list_all plainSeg as" and "list_all plainSeg bs"
  shows "prefix (dirOf as) (dirOf bs) \<longleftrightarrow> prefix as bs"
  using assms
proof (induction as arbitrary: bs)
  case Nil
  then show ?case by (simp add: dirOf_def)
next
  case (Cons a as)
  show ?case
  proof (cases bs)
    case Nil
    with Cons.prems show ?thesis by (cases a) (auto simp: dirOf_def plainSeg_def)
  next
    case bs: (Cons b cs)
    with Cons.prems have "CHR ''/'' \<notin> set a" "CHR ''/'' \<notin> set b" by (auto simp: plainSeg_def)
    from separator_first [OF this(2,1)]
    have "prefix (a @ CHR ''/'' # x) (b @ CHR ''/'' # y) \<longleftrightarrow> a = b \<and> prefix x y" for x y
      by (auto simp: prefix_def)
    with bs Cons.prems Cons.IH [of cs] show ?thesis by (simp add: dirOf_def)
  qed
qed

lemma within_dirOf:
  assumes "list_all plainSeg rs" and "list_all plainSeg ps"
  shows "within (dirOf rs) (dirOf ps) \<longleftrightarrow> prefix ps rs \<or> prefix (''.hls'' # ps) rs"
proof -
  have "HLSDirectory @ TrimPrefix (dirOf ps) ''/'' = dirOf (''.hls'' # ps)"
    by (simp add: HLSDirectory_def TrimPrefix_def HasPrefix_def dirOf_def)
  moreover have "list_all plainSeg (''.hls'' # ps)"
    using assms(2) by (simp add: plainSeg_def ContainsAny_def)
  ultimately show ?thesis
    using dirOf_prefix [OF assms(2,1)] dirOf_prefix [of "''.hls'' # ps" rs] assms(1)
    by (simp add: within_def HasPrefix_def)
qed

text \<open>
  \<open>Directory\<close> gives every path the one spelling of its segments. It accepts a path exactly
  when no segment is \<open>.\<close>, \<open>..\<close> or contains \<open>*\<close>, \<open>{\<close> or \<open>}\<close>; what it returns has the same segments and is
  returned unchanged by a second call, and two accepted paths have the same directory exactly
  when they have the same segments, however many slashes they are written with.
\<close>

theorem Directory_canonical:
  "case Directory p of
     Inl _ \<Rightarrow> \<exists>s \<in> set (segments p). s = ''.'' \<or> s = ''..'' \<or> ContainsAny s ''*{}''
   | Inr d \<Rightarrow> Directory d = Inr d \<and> segments d = segments p \<and> list_all plainSeg (segments p)
       \<and> (\<forall>q. Directory q = Inr d \<longleftrightarrow> segments q = segments p)"
proof (cases "list_all plainSeg (segments p)")
  case True
  then have d: "Directory p = Inr (dirOf (segments p))" by (simp add: Directory_iff)
  have "Directory q = Inr (dirOf (segments p)) \<longleftrightarrow> segments q = segments p" for q
    using True by (metis Directory_iff segments_dirOf)
  with True segments_dirOf [OF True] show ?thesis unfolding d by auto
next
  case False
  then obtain e where "Directory p = Inl e" by (cases "Directory p") (auto simp: Directory_iff)
  moreover from False obtain s where s: "s \<in> set (segments p)" "\<not> plainSeg s"
    by (auto simp: list_all_iff)
  ultimately show ?thesis
    using splitOn_segment [of s "CHR ''/''" p] by (auto simp: segments_def plainSeg_def)
qed

section \<open>Confinement\<close>

text \<open>A grant a token may carry under a key confined to the segments \<open>ps\<close>.\<close>

definition confined :: "moqt \<Rightarrow> string list \<Rightarrow> Grant \<Rightarrow> bool" where
  "confined mq ps g \<longleftrightarrow>
     (Root g = [] \<and> list_all (\<lambda>a. Patterns g a = []) Actions)
     \<or> (\<exists>rs. Root g = dirOf rs \<and> list_all plainSeg rs \<and> (prefix ps rs \<or> prefix (''.hls'' # ps) rs))"

lemma Directory_self: "Directory d = Inr d \<Longrightarrow> \<exists>rs. d = dirOf rs \<and> list_all plainSeg rs"
  by (auto simp: Directory_iff)

lemma checked_confined:
  assumes "checked mq g (dirOf ps) = Inr h" and "list_all plainSeg ps"
  shows "h = g \<and> confined mq ps h"
proof (cases "Root g = []")
  case True
  with assms(1) show ?thesis
    by (auto simp: checked_def confined_def list_ex_iff list_all_iff split: if_splits)
next
  case False
  with assms(1) have h: "h = g" and d: "Directory (Root g) = Inr (Root g)" and wi: "within (Root g) (dirOf ps)"
    by (auto simp: checked_def split: if_splits)
  from Directory_self [OF d] obtain rs where "Root g = dirOf rs" "list_all plainSeg rs" by blast
  with within_dirOf [OF _ assms(2), of rs] wi h show ?thesis by (auto simp: confined_def)
qed

lemma Patterns_Nil: "list_all (\<lambda>a. Patterns g a = []) Actions \<Longrightarrow> Patterns g a = []"
  by (auto simp: Actions_def Patterns_def)

lemma dirOf_of_path:
  assumes "prefix (dirOf rs) (''/'' @ joinWith ''/'' ss)" and "list_all plainSeg rs" and "list_all plainSeg ss"
  shows "prefix rs ss"
proof -
  have "prefix (dirOf rs) (dirOf ss)"
  proof (cases "ss = []")
    case True
    then show ?thesis using assms(1) by (simp add: dirOf_def)
  next
    case False
    then have "prefix (''/'' @ joinWith ''/'' ss) (dirOf ss)" by (simp add: dirOf_join)
    with assms(1) show ?thesis by (rule prefix_order.trans)
  qed
  with assms(2,3) show ?thesis by (simp add: dirOf_prefix)
qed

text \<open>
  What the client of \<^verbatim>\<open>gomoqt\<close> relies on: a pattern is relative to its root, so that it matches
  only paths beneath the root.
\<close>

definition patternsRelative :: "moqt \<Rightarrow> bool" where
  "patternsRelative mq \<longleftrightarrow>
     (\<forall>root s pat p. ParseGrantPattern mq root s = Some pat \<longrightarrow> pat p \<longrightarrow> HasPrefix p root)"

lemma Allows_confined:
  assumes "confined mq ps g" and "patternsRelative mq" and "Allows mq g a path"
  shows "list_all plainSeg (segments path)"
    and "prefix ps (segments path) \<or> prefix (''.hls'' # ps) (segments path)"
proof -
  from assms(3) obtain p s pat where n: "normalizePath path = Inr p"
    and s: "s \<in> set (Patterns g a)" and pat: "ParseGrantPattern mq (Root g) s = Some pat" "pat (''/'' @ p)"
    by (auto simp: Allows_def list_ex_iff split: sum.splits if_splits option.splits)
  from n have p: "p = joinWith ''/'' (segments path)" and plain: "list_all plainSeg (segments path)"
    by (auto simp: normalizePath_iff)
  show "list_all plainSeg (segments path)" by (rule plain)
  from s assms(1) obtain rs where root: "Root g = dirOf rs" and rs: "list_all plainSeg rs"
    and le: "prefix ps rs \<or> prefix (''.hls'' # ps) rs"
    by (auto simp: confined_def dest: Patterns_Nil [of g a])
  from pat assms(2) have "prefix (dirOf rs) (''/'' @ joinWith ''/'' (segments path))"
    unfolding patternsRelative_def HasPrefix_def root p by blast
  from dirOf_of_path [OF this rs plain] le
  show "prefix ps (segments path) \<or> prefix (''.hls'' # ps) (segments path)"
    using prefix_order.trans by blast
qed

end
