(* ===== verification/Root_Holds.thy ===== *)
theory Root_Holds
  imports Token_Path
begin

text \<open>
  The credentials a session holds for each root (\<open>rootHolds\<close> in \<^verbatim>\<open>src/internal/relay/admit.go\<close>): tickets
  that replace one another, tickets of funnel actions that add up, and the connection's own
  credential, which the first ticket for its root retires. Every method runs under the mutex of
  \<open>rootHolds\<close> and is one step. A \<open>withdrawal\<close> of a ticket is known by its number, one of the connection's
  credential by a number its presentation has; a call of its \<open>withdraw\<close> function is returned.
\<close>

section \<open>State\<close>

datatype rootRole = roleFunnel | roleRelay | roleNothing

definition roleOf :: "Grant \<Rightarrow> rootRole" where
  "roleOf tg =
     (if Publish tg \<noteq> [] \<or> Subscribe tg \<noteq> [] then roleRelay
      else if Create tg \<noteq> [] \<or> Post tg \<noteq> [] \<or> Redact tg \<noteq> [] then roleFunnel
      else roleNothing)"

record withdrawal =
  seqOf :: nat
  rootOf :: string
  role :: rootRole
  retires :: bool

record rootState =
  ticket :: "withdrawal option"
  funnel :: "withdrawal list"
  cleared :: nat

definition rootEmpty :: "rootState \<Rightarrow> bool" where
  "rootEmpty st \<longleftrightarrow> ticket st = None \<and> funnel st = []"

record rootHolds =
  connRoot :: string
  lastSeq :: nat
  byRoot :: "string \<rightharpoonup> rootState"
  conns :: "nat list"
  retiring :: int
  connRetired :: bool

definition newRootHolds :: "string \<Rightarrow> rootHolds" where
  "newRootHolds root = \<lparr>connRoot = root, lastSeq = 0, byRoot = Map.empty, conns = [], retiring = 0, connRetired = False\<rparr>"

section \<open>Operations\<close>

definition beginTicket :: "string \<Rightarrow> rootRole \<Rightarrow> rootHolds \<Rightarrow> withdrawal \<times> rootHolds" where
  "beginTicket root rl r =
     (let n = lastSeq r + 1;
          ret = (root \<noteq> [] \<and> rl \<noteq> roleFunnel \<and> root = connRoot r);
          r1 = r \<lparr>lastSeq := n\<rparr>
      in (\<lparr>seqOf = n, rootOf = root, role = rl, retires = ret\<rparr>,
          if ret then r1 \<lparr>retiring := retiring r1 + 1\<rparr> else r1))"

definition abandonTicket :: "withdrawal \<Rightarrow> rootHolds \<Rightarrow> rootHolds" where
  "abandonTicket h r = (if retires h then r \<lparr>retiring := retiring r - 1\<rparr> else r)"

definition replaces :: "rootState \<Rightarrow> withdrawal \<Rightarrow> bool" where
  "replaces st h \<longleftrightarrow>
     seqOf h < cleared st
     \<or> (role h \<noteq> roleFunnel \<and> (case ticket st of None \<Rightarrow> False | Some t \<Rightarrow> seqOf h < seqOf t))"

definition replaced :: "rootHolds \<Rightarrow> withdrawal \<Rightarrow> bool" where
  "replaced r h \<longleftrightarrow>
     rootOf h \<noteq> [] \<and> (case byRoot r (rootOf h) of None \<Rightarrow> False | Some st \<Rightarrow> replaces st h)"

text \<open>
  \<open>registerTicket\<close> returns the tickets and the presentations of the connection's credential it withdraws,
  and whether the ticket is current. \<open>registerState\<close> is its effect on the state of the root.
\<close>

definition registerState :: "withdrawal \<Rightarrow> rootState \<Rightarrow> withdrawal list \<times> rootState" where
  "registerState h st =
     (if role h = roleFunnel then ([], st \<lparr>funnel := h # funnel st\<rparr>)
      else let old = (case ticket st of None \<Rightarrow> [] | Some t \<Rightarrow> [t]); st1 = st \<lparr>ticket := Some h\<rparr>
           in if role h = roleNothing
              then (old @ filter (\<lambda>f. seqOf f < seqOf h) (funnel st),
                    st1 \<lparr>funnel := filter (\<lambda>f. \<not> seqOf f < seqOf h) (funnel st),
                         cleared := max (cleared st) (seqOf h)\<rparr>)
              else (old, st1))"

definition retireConns :: "withdrawal \<Rightarrow> rootHolds \<Rightarrow> nat list \<times> rootHolds" where
  "retireConns h r =
     (if retires h then (conns r, r \<lparr>retiring := retiring r - 1, connRetired := True, conns := []\<rparr>) else ([], r))"

definition registerTicket :: "withdrawal \<Rightarrow> rootHolds \<Rightarrow> withdrawal list \<times> nat list \<times> bool \<times> rootHolds" where
  "registerTicket h r =
     (if rootOf h = [] then ([], [], True, r)
      else let st = (case byRoot r (rootOf h) of
                       None \<Rightarrow> \<lparr>ticket = None, funnel = [], cleared = 0\<rparr> | Some st \<Rightarrow> st);
               (cs, r1) = retireConns h r
           in if replaces st h
              then ([h], cs, False, r1 \<lparr>byRoot := (byRoot r1)(rootOf h := (if rootEmpty st then None else Some st))\<rparr>)
              else let (ws, st1) = registerState h st
                   in (ws, cs, True, r1 \<lparr>byRoot := (byRoot r1)(rootOf h \<mapsto> st1)\<rparr>))"

text \<open>
  The function \<open>registerTicket\<close> returns for a current ticket, which forgets it; \<open>dropTicket\<close> is its effect on
  the state of the root.
\<close>

definition dropTicket :: "withdrawal \<Rightarrow> rootState \<Rightarrow> rootState" where
  "dropTicket h cur =
     (let cur1 = (if ticket cur = Some h then cur \<lparr>ticket := None\<rparr> else cur)
      in cur1 \<lparr>funnel := filter (\<lambda>f. f \<noteq> h) (funnel cur1)\<rparr>)"

definition releaseTicket :: "withdrawal \<Rightarrow> rootHolds \<Rightarrow> rootHolds" where
  "releaseTicket h r =
     (if rootOf h = [] then r
      else case byRoot r (rootOf h) of
             None \<Rightarrow> r
           | Some cur \<Rightarrow>
               let cur1 = dropTicket h cur
               in r \<lparr>byRoot := (byRoot r)(rootOf h := (if rootEmpty cur1 then None else Some cur1))\<rparr>)"

definition registerConnection :: "nat \<Rightarrow> rootHolds \<Rightarrow> rootHolds option" where
  "registerConnection c r =
     (if connRetired r \<or> retiring r > 0 then None else Some (r \<lparr>conns := c # conns r\<rparr>))"

definition releaseConnection :: "nat \<Rightarrow> rootHolds \<Rightarrow> rootHolds" where
  "releaseConnection c r = r \<lparr>conns := filter (\<lambda>x. x \<noteq> c) (conns r)\<rparr>"

section \<open>The tickets of a session\<close>

text \<open>
  A session calls these methods from many goroutines, in any order its tickets come in: each ticket
  is begun, then abandoned or registered, and a current one is released when it ends. The lists
  keep the tickets begun, those registered as current and not yet released, and all that were
  ever registered; \<open>superseded\<close> are the ones withdrawn. The same for the connection's credential.
\<close>

record rootRun =
  holds :: rootHolds
  begun :: "withdrawal list"
  current :: "withdrawal list"
  registered :: "withdrawal set"
  superseded :: "withdrawal set"
  presented :: "nat list"
  withdrawnConns :: "nat set"

inductive root_step :: "rootRun \<Rightarrow> rootRun \<Rightarrow> bool" where
  begins: "beginTicket root rl (holds s) = (h, r) \<Longrightarrow>
    root_step s (s \<lparr>holds := r, begun := h # begun s\<rparr>)"
| abandons: "h \<in> set (begun s) \<Longrightarrow>
    root_step s (s \<lparr>holds := abandonTicket h (holds s), begun := remove1 h (begun s)\<rparr>)"
| registers: "h \<in> set (begun s) \<Longrightarrow> registerTicket h (holds s) = (ws, cs, cur, r) \<Longrightarrow>
    root_step s (s \<lparr>holds := r, begun := remove1 h (begun s),
      current := (if cur then h # current s else current s),
      registered := insert h (registered s), superseded := superseded s \<union> set ws,
      withdrawnConns := withdrawnConns s \<union> set cs\<rparr>)"
| releases: "h \<in> set (current s) \<Longrightarrow>
    root_step s (s \<lparr>holds := releaseTicket h (holds s), current := remove1 h (current s)\<rparr>)"
| presents: "c \<notin> set (presented s) \<union> withdrawnConns s \<Longrightarrow> registerConnection c (holds s) = Some r \<Longrightarrow>
    root_step s (s \<lparr>holds := r, presented := c # presented s\<rparr>)"
| leaves: "c \<in> set (presented s) \<Longrightarrow>
    root_step s (s \<lparr>holds := releaseConnection c (holds s), presented := remove1 c (presented s)\<rparr>)"

inductive root_reach :: "string \<Rightarrow> rootRun \<Rightarrow> bool" for root where
  start: "root_reach root \<lparr>holds = newRootHolds root, begun = [], current = [], registered = {},
    superseded = {}, presented = [], withdrawnConns = {}\<rparr>"
| step: "root_reach root s \<Longrightarrow> root_step s t \<Longrightarrow> root_reach root t"

section \<open>Invariant\<close>

text \<open>The tickets a state of a root tracks.\<close>

definition tracked :: "rootState \<Rightarrow> withdrawal set" where
  "tracked st = set (funnel st) \<union> set_option (ticket st)"

definition inForce :: "rootRun \<Rightarrow> withdrawal set" where
  "inForce s = set (current s) - superseded s"

text \<open>What supersedes a ticket: one begun later for the same root that is not of funnel actions, and
  that grants nothing at all when the ticket is of funnel actions.\<close>

definition supersedes :: "withdrawal \<Rightarrow> withdrawal \<Rightarrow> bool" where
  "supersedes k h \<longleftrightarrow> rootOf k = rootOf h \<and> seqOf h < seqOf k \<and> role k \<noteq> roleFunnel
     \<and> (role h = roleFunnel \<longrightarrow> role k = roleNothing)"

definition stateOk :: "withdrawal set \<Rightarrow> string \<Rightarrow> rootState \<Rightarrow> bool" where
  "stateOk regd root st \<longleftrightarrow>
     (\<forall>t. ticket st = Some t \<longrightarrow> rootOf t = root \<and> role t \<noteq> roleFunnel \<and> cleared st \<le> seqOf t
        \<and> (role t = roleNothing \<longrightarrow> cleared st = seqOf t))
     \<and> (\<forall>f \<in> set (funnel st). rootOf f = root \<and> role f = roleFunnel \<and> cleared st \<le> seqOf f)
     \<and> (cleared st \<noteq> 0 \<longrightarrow> (\<exists>k \<in> regd. rootOf k = root \<and> role k = roleNothing \<and> seqOf k = cleared st))"

definition ticketsOk :: "rootRun \<Rightarrow> bool" where
  "ticketsOk s \<longleftrightarrow>
     distinct (begun s) \<and> distinct (current s)
     \<and> (\<forall>h \<in> set (begun s) \<union> registered s. 0 < seqOf h \<and> seqOf h \<le> lastSeq (holds s))
     \<and> set (current s) \<subseteq> registered s \<and> superseded s \<subseteq> registered s
     \<and> inj_on seqOf (set (begun s) \<union> registered s) \<and> set (begun s) \<inter> registered s = {}"

text \<open>The state of a root, which may be absent.\<close>

definition rootAt :: "rootHolds \<Rightarrow> string \<Rightarrow> rootState" where
  "rootAt r root = (case byRoot r root of None \<Rightarrow> \<lparr>ticket = None, funnel = [], cleared = 0\<rparr> | Some st \<Rightarrow> st)"

definition rootsOk :: "rootRun \<Rightarrow> bool" where
  "rootsOk s \<longleftrightarrow>
     (\<forall>root. root \<noteq> [] \<longrightarrow> stateOk (registered s) root (rootAt (holds s) root)
        \<and> tracked (rootAt (holds s) root) = {h \<in> inForce s. rootOf h = root})
     \<and> (\<forall>root st. byRoot (holds s) root = Some st \<longrightarrow> root \<noteq> [] \<and> tracked st \<noteq> {})
     \<and> (\<forall>h \<in> superseded s. rootOf h \<noteq> [] \<and> (\<exists>k \<in> registered s. supersedes k h))"

lemma registerState_ok:
  assumes st: "stateOk R (rootOf h) st" and nr: "\<not> replaces st h"
    and new: "\<forall>t \<in> tracked st. seqOf t \<noteq> seqOf h"
    and reg: "registerState h st = (ws, st1)"
  shows "stateOk (insert h R) (rootOf h) st1" and "\<not> rootEmpty st1"
    and "tracked st1 = insert h (tracked st - set ws)" and "set ws \<subseteq> tracked st"
    and "\<forall>t \<in> set ws. supersedes h t"
proof -
  have old: "seqOf t < seqOf h" if "ticket st = Some t" "role h \<noteq> roleFunnel" for t
    using nr new that by (auto simp: replaces_def tracked_def dest: le_neq_trans split: option.splits)
  have cl: "cleared st \<le> seqOf h" using nr by (auto simp: replaces_def)
  show "stateOk (insert h R) (rootOf h) st1"
    using st reg cl by (auto simp: registerState_def stateOk_def Let_def max_def split: if_splits)
  show "\<not> rootEmpty st1" using reg by (auto simp: registerState_def rootEmpty_def Let_def split: if_splits)
  have split: "\<forall>t. ticket st = Some t \<longrightarrow> t \<notin> set (funnel st)"
    using st by (auto simp: stateOk_def)
  show "tracked st1 = insert h (tracked st - set ws)"
    using reg new split
    by (auto simp: registerState_def tracked_def Let_def split: if_splits option.splits)
  show "set ws \<subseteq> tracked st"
    using reg by (auto simp: registerState_def tracked_def Let_def split: if_splits option.splits)
  show "\<forall>t \<in> set ws. supersedes h t"
    using reg st old
    by (auto simp: registerState_def supersedes_def stateOk_def Let_def split: if_splits option.splits)
qed

lemma replaces_superseded:
  assumes "stateOk R (rootOf h) st" and "replaces st h" and "tracked st \<subseteq> R"
  shows "\<exists>k \<in> R. supersedes k h"
proof (cases "seqOf h < cleared st")
  case True
  then obtain k where "k \<in> R" "rootOf k = rootOf h" "role k = roleNothing" "seqOf k = cleared st"
    using assms(1) by (auto simp: stateOk_def)
  with True show ?thesis by (auto simp: supersedes_def)
next
  case False
  with assms(2) obtain t where t: "ticket st = Some t" "role h \<noteq> roleFunnel" "seqOf h < seqOf t"
    by (auto simp: replaces_def split: option.splits)
  with assms(1,3) have "t \<in> R" "supersedes t h" by (auto simp: stateOk_def supersedes_def tracked_def)
  then show ?thesis by blast
qed

lemma stateOk_mono: "stateOk R root st \<Longrightarrow> R \<subseteq> R' \<Longrightarrow> stateOk R' root st"
  by (auto simp: stateOk_def)

lemma rootEmpty_tracked: "rootEmpty st \<longleftrightarrow> tracked st = {}"
  by (auto simp: rootEmpty_def tracked_def)

lemma rootAt_update [simp]:
  "rootAt (r \<lparr>byRoot := (byRoot r)(root := v)\<rparr>) root'
     = (if root' = root then (case v of None \<Rightarrow> \<lparr>ticket = None, funnel = [], cleared = 0\<rparr> | Some st \<Rightarrow> st)
        else rootAt r root')"
  by (simp add: rootAt_def)

lemma rootAt_other [simp]:
  "rootAt (r \<lparr>lastSeq := n\<rparr>) root = rootAt r root" "rootAt (r \<lparr>retiring := i\<rparr>) root = rootAt r root"
  "rootAt (r \<lparr>conns := cs\<rparr>) root = rootAt r root" "rootAt (r \<lparr>connRetired := b\<rparr>) root = rootAt r root"
  by (simp_all add: rootAt_def)

lemma retireConns_roots:
  "retireConns h r = (cs, r1) \<Longrightarrow> byRoot r1 = byRoot r \<and> lastSeq r1 = lastSeq r \<and> rootAt r1 = rootAt r"
  by (auto simp: retireConns_def rootAt_def fun_eq_iff split: if_splits)

text \<open>A step that changes the state of one root.\<close>

lemma rootsOk_change:
  assumes ok: "rootsOk s" and root: "root \<noteq> []"
    and upd: "byRoot (holds s') = (byRoot (holds s))(root := (if tracked st = {} then None else Some st))"
    and st: "stateOk (registered s') root st" "tracked st = {h \<in> inForce s'. rootOf h = root}"
    and others: "\<And>h. rootOf h \<noteq> root \<Longrightarrow> h \<in> inForce s' \<longleftrightarrow> h \<in> inForce s"
    and reg: "registered s \<subseteq> registered s'"
    and sup: "\<And>h. h \<in> superseded s' \<Longrightarrow> h \<in> superseded s \<or> rootOf h = root \<and> (\<exists>k \<in> registered s'. supersedes k h)"
  shows "rootsOk s'"
proof -
  have at: "rootAt (holds s') root' = (if root' = root then
      if tracked st = {} then \<lparr>ticket = None, funnel = [], cleared = 0\<rparr> else st else rootAt (holds s) root')" for root'
    by (simp add: rootAt_def upd)
  have "stateOk (registered s') root' (rootAt (holds s') root')
      \<and> tracked (rootAt (holds s') root') = {h \<in> inForce s'. rootOf h = root'}" if "root' \<noteq> []" for root'
  proof (cases "root' = root")
    case True
    have none: "tracked \<lparr>ticket = None, funnel = [], cleared = 0\<rparr> = {}" by (simp add: tracked_def)
    have "stateOk (registered s') root \<lparr>ticket = None, funnel = [], cleared = 0\<rparr>" by (simp add: stateOk_def)
    with True st none at show ?thesis by simp
  next
    case False
    from ok that have "stateOk (registered s) root' (rootAt (holds s) root')"
      "tracked (rootAt (holds s) root') = {h \<in> inForce s. rootOf h = root'}" by (auto simp: rootsOk_def)
    with False at others show ?thesis using stateOk_mono [OF _ reg] by auto
  qed
  moreover have "root' \<noteq> [] \<and> tracked st' \<noteq> {}" if "byRoot (holds s') root' = Some st'" for root' st'
    using that ok root by (auto simp: upd rootsOk_def split: if_splits)
  moreover have "rootOf h \<noteq> [] \<and> (\<exists>k \<in> registered s'. supersedes k h)" if "h \<in> superseded s'" for h
  proof -
    from ok have "\<forall>h \<in> superseded s. rootOf h \<noteq> [] \<and> (\<exists>k \<in> registered s. supersedes k h)" by (simp add: rootsOk_def)
    with sup [OF that] root reg show ?thesis by blast
  qed
  ultimately show ?thesis unfolding rootsOk_def by blast
qed

subsection \<open>Registering\<close>

lemma registerTicket_cases:
  assumes "registerTicket h r = (ws, cs, cur, r')" and "rootOf h \<noteq> []"
  obtains (late) r1 where "retireConns h r = (cs, r1)" "replaces (rootAt r (rootOf h)) h" "ws = [h]" "\<not> cur"
      "r' = r1 \<lparr>byRoot := (byRoot r)(rootOf h := (if rootEmpty (rootAt r (rootOf h)) then None else Some (rootAt r (rootOf h))))\<rparr>"
    | (now) r1 st1 where "retireConns h r = (cs, r1)" "\<not> replaces (rootAt r (rootOf h)) h" "cur"
      "registerState h (rootAt r (rootOf h)) = (ws, st1)" "r' = r1 \<lparr>byRoot := (byRoot r)(rootOf h \<mapsto> st1)\<rparr>"
proof -
  obtain cs' r1 where rc: "retireConns h r = (cs', r1)" by fastforce
  have st: "(case byRoot r (rootOf h) of None \<Rightarrow> \<lparr>ticket = None, funnel = [], cleared = 0\<rparr> | Some st \<Rightarrow> st)
      = rootAt r (rootOf h)" by (simp add: rootAt_def)
  note eq = assms(1) [unfolded registerTicket_def st Let_def rc]
  show ?thesis
  proof (cases "replaces (rootAt r (rootOf h)) h")
    case True
    with eq assms(2) retireConns_roots [OF rc] rc show ?thesis by (intro late [of r1]) auto
  next
    case False
    obtain ws' st1 where rs: "registerState h (rootAt r (rootOf h)) = (ws', st1)" by fastforce
    from False eq assms(2) retireConns_roots [OF rc] rc rs show ?thesis by (intro now [of r1 st1]) auto
  qed
qed

lemma registers_roots:
  assumes ok: "rootsOk s" and t: "ticketsOk s" and h: "h \<in> set (begun s)"
    and reg: "registerTicket h (holds s) = (ws, cs, cur, r)"
    and s': "s' = s \<lparr>holds := r, begun := b, current := (if cur then h # current s else current s),
      registered := insert h (registered s), superseded := superseded s \<union> set ws, withdrawnConns := w\<rparr>"
  shows "rootsOk s'"
proof (cases "rootOf h = []")
  case True
  with reg have "r = holds s" "ws = []" "cur" by (auto simp: registerTicket_def)
  with True ok show ?thesis
    unfolding s' rootsOk_def by (auto simp: inForce_def intro: stateOk_mono)
next
  case False
  let ?st = "rootAt (holds s) (rootOf h)"
  have st: "stateOk (registered s) (rootOf h) ?st" "tracked ?st = {h' \<in> inForce s. rootOf h' = rootOf h}"
    using ok False by (auto simp: rootsOk_def)
  have sub: "tracked ?st \<subseteq> registered s" using st(2) t by (auto simp: inForce_def ticketsOk_def)
  have new: "h \<notin> registered s" "h \<notin> set (current s)" "h \<notin> superseded s"
    using t h by (auto simp: ticketsOk_def)
  have "seqOf k \<noteq> seqOf h" if "k \<in> registered s" for k
    using t h that new(1) unfolding ticketsOk_def by (metis UnI1 UnI2 inj_onD)
  with sub have diff: "\<forall>k \<in> tracked ?st. seqOf k \<noteq> seqOf h" by blast
  from reg False show ?thesis
  proof (cases rule: registerTicket_cases)
    case (late r1)
    show ?thesis
    proof (rule rootsOk_change [OF ok False, of s' ?st])
      show "byRoot (holds s') = (byRoot (holds s))(rootOf h := if tracked ?st = {} then None else Some ?st)"
        by (simp add: s' late(5) rootEmpty_tracked)
      show "stateOk (registered s') (rootOf h) ?st" using st(1) by (rule stateOk_mono) (auto simp: s')
      show "tracked ?st = {h' \<in> inForce s'. rootOf h' = rootOf h}"
        using st(2) new(2) late(3,4) by (auto simp: inForce_def s')
      show "h' \<in> inForce s' \<longleftrightarrow> h' \<in> inForce s" if "rootOf h' \<noteq> rootOf h" for h'
        using late(3,4) that by (auto simp: inForce_def s')
      show "registered s \<subseteq> registered s'" by (auto simp: s')
      show "h' \<in> superseded s \<or> rootOf h' = rootOf h \<and> (\<exists>k \<in> registered s'. supersedes k h')"
        if "h' \<in> superseded s'" for h'
        using that replaces_superseded [OF st(1) late(2) sub] late(3) by (auto simp: s')
    qed
  next
    case (now r1 st1)
    note rs = registerState_ok [OF st(1) now(2) diff now(4)]
    show ?thesis
    proof (rule rootsOk_change [OF ok False, of s' st1])
      show "byRoot (holds s') = (byRoot (holds s))(rootOf h := if tracked st1 = {} then None else Some st1)"
        using rs(2) by (simp add: s' now(5) rootEmpty_tracked)
      show "stateOk (registered s') (rootOf h) st1" using rs(1) by (simp add: s')
      show "tracked st1 = {h' \<in> inForce s'. rootOf h' = rootOf h}"
        using rs(3-5) st(2) new now(3) by (auto simp: inForce_def s')
      show "h' \<in> inForce s' \<longleftrightarrow> h' \<in> inForce s" if "rootOf h' \<noteq> rootOf h" for h'
        using rs(4) st(2) that by (auto simp: inForce_def s')
      show "registered s \<subseteq> registered s'" by (auto simp: s')
      show "h' \<in> superseded s \<or> rootOf h' = rootOf h \<and> (\<exists>k \<in> registered s'. supersedes k h')"
        if "h' \<in> superseded s'" for h'
        using that rs(5) by (auto simp: s' supersedes_def)
    qed
  qed
qed

lemma dropTicket_simps [simp]:
  "ticket (dropTicket h st) = (if ticket st = Some h then None else ticket st)"
  "funnel (dropTicket h st) = filter (\<lambda>f. f \<noteq> h) (funnel st)"
  "cleared (dropTicket h st) = cleared st"
  by (simp_all add: dropTicket_def Let_def)

lemma dropTicket_tracked: "tracked (dropTicket h st) = tracked st - {h}"
  by (auto simp: tracked_def)

lemma dropTicket_ok: "stateOk R root st \<Longrightarrow> stateOk R root (dropTicket h st)"
  by (auto simp: stateOk_def)

lemma releases_roots:
  assumes ok: "rootsOk s" and t: "ticketsOk s" and h: "h \<in> set (current s)"
    and s': "s' = s \<lparr>holds := releaseTicket h (holds s), current := remove1 h (current s)\<rparr>"
  shows "rootsOk s'"
proof (cases "rootOf h = []")
  case True
  have "set (remove1 h (current s)) = set (current s) - {h}" using t by (simp add: ticketsOk_def)
  with True ok show ?thesis
    unfolding s' rootsOk_def releaseTicket_def by (auto simp: inForce_def)
next
  case False
  let ?st = "rootAt (holds s) (rootOf h)"
  let ?st2 = "dropTicket h ?st"
  have st: "stateOk (registered s) (rootOf h) ?st" "tracked ?st = {h' \<in> inForce s. rootOf h' = rootOf h}"
    using ok False by (auto simp: rootsOk_def)
  have current: "set (remove1 h (current s)) = set (current s) - {h}" using t by (simp add: ticketsOk_def)
  show ?thesis
  proof (rule rootsOk_change [OF ok False, of s' ?st2])
    show "byRoot (holds s') = (byRoot (holds s))(rootOf h := if tracked ?st2 = {} then None else Some ?st2)"
    proof (cases "byRoot (holds s) (rootOf h)")
      case None
      then have "tracked ?st2 = {}" by (simp add: dropTicket_tracked rootAt_def tracked_def)
      with None False show ?thesis by (auto simp: s' releaseTicket_def)
    next
      case (Some cur)
      then have "?st = cur" by (simp add: rootAt_def)
      with Some False show ?thesis by (simp add: s' releaseTicket_def rootEmpty_tracked Let_def)
    qed
    show "stateOk (registered s') (rootOf h) ?st2" using dropTicket_ok [OF st(1)] by (simp add: s')
    show "tracked ?st2 = {h' \<in> inForce s'. rootOf h' = rootOf h}"
      unfolding dropTicket_tracked st(2) by (auto simp: inForce_def current s')
    show "h' \<in> inForce s' \<longleftrightarrow> h' \<in> inForce s" if "rootOf h' \<noteq> rootOf h" for h'
      using that by (auto simp: inForce_def current s')
  qed (auto simp: s')
qed

subsection \<open>Every step\<close>

lemma rootsOk_same:
  assumes "rootsOk s" and "byRoot (holds s') = byRoot (holds s)" and "current s' = current s"
    and "registered s' = registered s" and "superseded s' = superseded s"
  shows "rootsOk s'"
  using assms by (auto simp: rootsOk_def rootAt_def inForce_def)

lemma beginTicket_simps:
  assumes "beginTicket root rl r = (h, r')"
  shows "seqOf h = lastSeq r + 1" "rootOf h = root" "role h = rl"
    "retires h \<longleftrightarrow> root \<noteq> [] \<and> rl \<noteq> roleFunnel \<and> root = connRoot r"
    "lastSeq r' = lastSeq r + 1" "byRoot r' = byRoot r" "conns r' = conns r" "connRetired r' = connRetired r"
    "connRoot r' = connRoot r" "retiring r' = retiring r + (if retires h then 1 else 0)"
  using assms by (auto simp: beginTicket_def Let_def split: if_splits)

definition retiresNow :: "withdrawal \<Rightarrow> bool" where
  "retiresNow h \<longleftrightarrow> rootOf h \<noteq> [] \<and> retires h"

lemma registerTicket_simps:
  assumes "registerTicket h r = (ws, cs, cur, r')"
  shows "lastSeq r' = lastSeq r \<and> connRoot r' = connRoot r \<and> cs = (if retiresNow h then conns r else [])
    \<and> conns r' = (if retiresNow h then [] else conns r)
    \<and> (connRetired r' \<longleftrightarrow> connRetired r \<or> retiresNow h)
    \<and> retiring r' = retiring r - (if retiresNow h then 1 else 0)"
proof (cases "rootOf h = []")
  case True
  with assms show ?thesis by (simp add: registerTicket_def retiresNow_def)
next
  case False
  from assms False show ?thesis
    by (cases rule: registerTicket_cases) (use False in \<open>auto simp: retireConns_def retiresNow_def split: if_splits\<close>)
qed

lemma registerTicket_withdrawn:
  assumes "registerTicket h r = (ws, cs, cur, r')" and "rootOf h \<noteq> [] \<Longrightarrow> tracked (rootAt r (rootOf h)) \<subseteq> R"
  shows "set ws \<subseteq> insert h R"
proof (cases "rootOf h = []")
  case True
  with assms show ?thesis by (simp add: registerTicket_def)
next
  case False
  from assms(1) False show ?thesis
  proof (cases rule: registerTicket_cases)
    case (now r1 st1)
    then have "set ws \<subseteq> tracked (rootAt r (rootOf h))"
      by (auto simp: registerState_def tracked_def Let_def split: if_splits option.splits)
    with assms(2) False show ?thesis by auto
  qed auto
qed

definition connsOk :: "rootRun \<Rightarrow> bool" where
  "connsOk s \<longleftrightarrow>
     retiring (holds s) = int (length (filter retires (begun s)))
     \<and> (connRetired (holds s) \<longrightarrow> conns (holds s) = [])
     \<and> set (conns (holds s)) = set (presented s) - withdrawnConns s \<and> distinct (presented s)
     \<and> (withdrawnConns s \<noteq> {} \<longrightarrow> connRetired (holds s))
     \<and> (\<forall>h \<in> registered s \<union> set (begun s).
          retires h \<longleftrightarrow> rootOf h \<noteq> [] \<and> role h \<noteq> roleFunnel \<and> rootOf h = connRoot (holds s))
     \<and> (connRetired (holds s) \<longleftrightarrow> (\<exists>h \<in> registered s. retires h))"

definition rootRunOk :: "rootRun \<Rightarrow> bool" where
  "rootRunOk s \<longleftrightarrow> ticketsOk s \<and> rootsOk s \<and> connsOk s"

lemma filter_remove1_length:
  "h \<in> set xs \<Longrightarrow> int (length (filter P (remove1 h xs))) = int (length (filter P xs)) - (if P h then 1 else 0)"
  by (induction xs) auto

lemma root_step_ok:
  assumes "root_step s s'" and "rootRunOk s"
  shows "rootRunOk s'"
  using assms
proof (induction rule: root_step.induct)
  case (begins root rl s h r)
  note b = beginTicket_simps [OF begins(1)]
  have t: "ticketsOk s" and r: "rootsOk s" and c: "connsOk s" using begins(2) by (auto simp: rootRunOk_def)
  have fresh: "seqOf k \<noteq> seqOf h" if "k \<in> set (begun s) \<union> registered s" for k
  proof -
    have "seqOf k \<le> lastSeq (holds s)" using t that unfolding ticketsOk_def by blast
    with b(1) show ?thesis by simp
  qed
  have "ticketsOk (s \<lparr>holds := r, begun := h # begun s\<rparr>)"
  proof -
    have "h \<notin> set (begun s) \<union> registered s" using fresh by blast
    moreover have "seqOf h \<notin> seqOf ` (set (begun s) \<union> registered s)" using fresh by (metis imageE)
    moreover have "\<forall>k \<in> set (begun s) \<union> registered s. 0 < seqOf k \<and> seqOf k \<le> Suc (lastSeq (holds s))"
      using t unfolding ticketsOk_def by (blast intro: le_SucI)
    ultimately show ?thesis using t unfolding ticketsOk_def by (simp add: b(1,5))
  qed
  moreover have "connsOk (s \<lparr>holds := r, begun := h # begun s\<rparr>)" using c b by (auto simp: connsOk_def)
  ultimately show ?case using rootsOk_same [OF r] b by (simp add: rootRunOk_def)
next
  case (abandons h s)
  then have t: "ticketsOk s" and r: "rootsOk s" and c: "connsOk s" by (auto simp: rootRunOk_def)
  let ?s = "s \<lparr>holds := abandonTicket h (holds s), begun := remove1 h (begun s)\<rparr>"
  have sub: "set (remove1 h (begun s)) = set (begun s) - {h}" using t by (simp add: ticketsOk_def)
  have "ticketsOk ?s" using t by (auto simp: ticketsOk_def sub abandonTicket_def inj_on_def)
  moreover have "connsOk ?s"
    using c abandons(1) by (auto simp: connsOk_def sub abandonTicket_def filter_remove1_length)
  ultimately show ?case using rootsOk_same [OF r, of ?s] by (simp add: rootRunOk_def abandonTicket_def)
next
  case (registers h s ws cs cur r)
  then have t: "ticketsOk s" and ro: "rootsOk s" and c: "connsOk s" by (auto simp: rootRunOk_def)
  note reg = registerTicket_simps [OF registers(2)]
  let ?s = "s \<lparr>holds := r, begun := remove1 h (begun s),
      current := (if cur then h # current s else current s),
      registered := insert h (registered s), superseded := superseded s \<union> set ws,
      withdrawnConns := withdrawnConns s \<union> set cs\<rparr>"
  have sub: "set (remove1 h (begun s)) = set (begun s) - {h}" using t by (simp add: ticketsOk_def)
  have new: "h \<notin> registered s" "h \<notin> set (current s)" using t registers(1) by (auto simp: ticketsOk_def)
  have "tracked (rootAt (holds s) (rootOf h)) \<subseteq> registered s" if "rootOf h \<noteq> []"
    using ro t that by (auto simp: rootsOk_def ticketsOk_def inForce_def)
  note ws = registerTicket_withdrawn [OF registers(2) this]
  have all: "set (begun ?s) \<union> registered ?s = set (begun s) \<union> registered s"
    using registers(1) by (auto simp: sub)
  have "lastSeq (holds ?s) = lastSeq (holds s)" using reg by simp
  then have "ticketsOk ?s"
    using t new ws unfolding ticketsOk_def all by (auto simp: sub)
  moreover have "connsOk ?s"
  proof -
    have now: "retiresNow h \<longleftrightarrow> retires h" using c registers(1) by (auto simp: connsOk_def retiresNow_def)
    have len: "int (length (filter retires (remove1 h (begun s)))) = int (length (filter retires (begun s)))
        - (if retires h then 1 else 0)" by (rule filter_remove1_length [OF registers(1)])
    have begun: "\<forall>k \<in> registered s \<union> set (begun s).
        retires k \<longleftrightarrow> rootOf k \<noteq> [] \<and> role k \<noteq> roleFunnel \<and> rootOf k = connRoot (holds s)"
      using c by (simp add: connsOk_def)
    have same: "\<forall>k \<in> registered ?s \<union> set (begun ?s).
        retires k \<longleftrightarrow> rootOf k \<noteq> [] \<and> role k \<noteq> roleFunnel \<and> rootOf k = connRoot (holds ?s)"
    proof
      fix k
      assume "k \<in> registered ?s \<union> set (begun ?s)"
      then have "k \<in> registered s \<union> set (begun s)" using registers(1) by (auto simp: sub)
      with begun have "retires k \<longleftrightarrow> rootOf k \<noteq> [] \<and> role k \<noteq> roleFunnel \<and> rootOf k = connRoot (holds s)" by blast
      with reg show "retires k \<longleftrightarrow> rootOf k \<noteq> [] \<and> role k \<noteq> roleFunnel \<and> rootOf k = connRoot (holds ?s)" by simp
    qed
    show ?thesis
    proof (cases "retires h")
      case True
      with c reg now len same show ?thesis unfolding connsOk_def by (auto simp del: filter_remove1)
    next
      case False
      with c reg now len same show ?thesis unfolding connsOk_def by simp blast
    qed
  qed
  moreover have "rootsOk ?s" by (rule registers_roots [OF ro t registers(1,2) refl])
  ultimately show ?case by (simp add: rootRunOk_def)
next
  case (releases h s)
  then have t: "ticketsOk s" and r: "rootsOk s" and c: "connsOk s" by (auto simp: rootRunOk_def)
  have sub: "set (remove1 h (current s)) = set (current s) - {h}" using t by (simp add: ticketsOk_def)
  have same: "lastSeq (releaseTicket h (holds s)) = lastSeq (holds s)" "conns (releaseTicket h (holds s)) = conns (holds s)"
    "retiring (releaseTicket h (holds s)) = retiring (holds s)" "connRetired (releaseTicket h (holds s)) = connRetired (holds s)"
    "connRoot (releaseTicket h (holds s)) = connRoot (holds s)"
    by (auto simp: releaseTicket_def Let_def split: option.splits)
  show ?case
    using releases_roots [OF r t releases(1) refl] t c by (auto simp: rootRunOk_def ticketsOk_def connsOk_def sub same)
next
  case (presents c s r)
  then show ?case
    using rootsOk_same [of s "s \<lparr>holds := r, presented := c # presented s\<rparr>"]
    by (auto simp: rootRunOk_def ticketsOk_def connsOk_def registerConnection_def split: if_splits)
next
  case (leaves c s)
  then have "set (remove1 c (presented s)) = set (presented s) - {c}" by (simp add: rootRunOk_def connsOk_def)
  with leaves show ?case
    using rootsOk_same [of s "s \<lparr>holds := releaseConnection c (holds s), presented := remove1 c (presented s)\<rparr>"]
    by (auto simp: rootRunOk_def ticketsOk_def connsOk_def releaseConnection_def)
qed

lemma root_reach_ok: "root_reach root s \<Longrightarrow> rootRunOk s \<and> connRoot (holds s) = root"
proof (induction rule: root_reach.induct)
  case start
  have "rootsOk \<lparr>holds = newRootHolds root, begun = [], current = [], registered = {},
      superseded = {}, presented = [], withdrawnConns = {}\<rparr>"
    by (auto simp: rootsOk_def rootAt_def newRootHolds_def stateOk_def tracked_def inForce_def)
  then show ?case by (simp add: rootRunOk_def ticketsOk_def connsOk_def newRootHolds_def)
next
  case (step s t)
  have "connRoot (holds t) = connRoot (holds s)" using step(2)
    by (cases rule: root_step.cases)
      (auto simp: abandonTicket_def releaseTicket_def registerConnection_def releaseConnection_def Let_def
        dest!: registerTicket_simps beginTicket_simps(9) split: option.splits if_splits)
  with step root_step_ok show ?case by simp
qed

section \<open>A run\<close>

text \<open>Two tickets for the connection's root, of which the second is granted first.\<close>

definition ticketNo :: "nat \<Rightarrow> withdrawal" where
  "ticketNo n = \<lparr>seqOf = n, rootOf = ''/a/'', role = roleRelay, retires = True\<rparr>"

definition overtaken :: rootRun where
  "overtaken = \<lparr>holds = \<lparr>connRoot = ''/a/'', lastSeq = 2,
       byRoot = [''/a/'' \<mapsto> \<lparr>ticket = Some (ticketNo 2), funnel = [], cleared = 0\<rparr>],
       conns = [], retiring = 0, connRetired = True\<rparr>,
     begun = [], current = [ticketNo 2], registered = {ticketNo 1, ticketNo 2}, superseded = {ticketNo 1},
     presented = [], withdrawnConns = {}\<rparr>"

lemma overtaken_reach: "root_reach ''/a/'' overtaken"
proof -
  let ?r = "\<lambda>n. \<lparr>connRoot = ''/a/'', lastSeq = n, byRoot = Map.empty, conns = [], retiring = int n, connRetired = False\<rparr>"
  let ?s = "\<lambda>n b. \<lparr>holds = ?r n, begun = b, current = [], registered = {}, superseded = {},
      presented = [], withdrawnConns = {}\<rparr>"
  have s0: "root_reach ''/a/'' (?s 0 [])" using root_reach.start [of "''/a/''"] by (simp add: newRootHolds_def)
  have "root_step (?s n b) (?s (Suc n) (ticketNo (Suc n) # b))" for n b
    using root_step.begins [of "''/a/''" roleRelay "?s n b" "ticketNo (Suc n)" "?r (Suc n)"]
    by (simp add: beginTicket_def ticketNo_def)
  from root_reach.step [OF root_reach.step [OF s0 this] this]
  have s2: "root_reach ''/a/'' (?s 2 [ticketNo 2, ticketNo 1])" by (simp add: numeral_2_eq_2)
  let ?h3 = "(?r 2) \<lparr>byRoot := [''/a/'' \<mapsto> \<lparr>ticket = Some (ticketNo 2), funnel = [], cleared = 0\<rparr>],
      retiring := 1, connRetired := True\<rparr>"
  let ?s3 = "\<lparr>holds = ?h3, begun = [ticketNo 1], current = [ticketNo 2], registered = {ticketNo 2}, superseded = {},
      presented = [], withdrawnConns = {}\<rparr>"
  have reg2: "registerTicket (ticketNo 2) (?r 2) = ([], [], True, ?h3)"
    by (simp add: registerTicket_def retireConns_def registerState_def replaces_def ticketNo_def)
  have "root_step (?s 2 [ticketNo 2, ticketNo 1]) ?s3"
    using root_step.registers [of "ticketNo 2" "?s 2 [ticketNo 2, ticketNo 1]" "[]" "[]" True ?h3] reg2 by simp
  from root_reach.step [OF s2 this] have s3: "root_reach ''/a/'' ?s3" .
  have ne: "ticketNo 1 \<noteq> ticketNo 2" by (simp add: ticketNo_def)
  have "registerTicket (ticketNo 1) ?h3 = ([ticketNo 1], [], False, holds overtaken)"
    by (simp add: registerTicket_def retireConns_def replaces_def overtaken_def Let_def) (simp add: ticketNo_def rootEmpty_def Let_def)
  with root_step.registers [of "ticketNo 1" ?s3 "[ticketNo 1]" "[]" False "holds overtaken"]
  have "root_step ?s3 overtaken" by (simp add: overtaken_def insert_commute)
  with s3 show ?thesis by (rule root_reach.step)
qed

section \<open>Properties\<close>

lemma stateOk_tracked:
  assumes "stateOk R root st" and "h \<in> tracked st"
  shows "role h \<noteq> roleFunnel \<Longrightarrow> ticket st = Some h"
    and "role h = roleFunnel \<Longrightarrow> cleared st \<le> seqOf h"
    and "role h = roleNothing \<Longrightarrow> cleared st = seqOf h"
  using assms by (auto simp: stateOk_def tracked_def)

lemma newest_wins:
  assumes "root_reach root s" and "h \<in> inForce s" and "k \<in> inForce s" and "rootOf h \<noteq> []"
  shows "\<not> supersedes k h"
proof
  assume sup: "supersedes k h"
  let ?st = "rootAt (holds s) (rootOf h)"
  from root_reach_ok [OF assms(1)] have ok: "rootsOk s" by (simp add: rootRunOk_def)
  then have at: "stateOk (registered s) (rootOf h) ?st" "tracked ?st = {h' \<in> inForce s. rootOf h' = rootOf h}"
    using assms(4) by (simp_all add: rootsOk_def)
  note st = at(1)
  have h: "h \<in> tracked ?st" and k: "k \<in> tracked ?st" using at(2) assms(2,3) sup by (auto simp: supersedes_def)
  from sup stateOk_tracked(1) [OF st k] have t: "ticket ?st = Some k" by (simp add: supersedes_def)
  show False
  proof (cases "role h = roleFunnel")
    case True
    with sup stateOk_tracked(3) [OF st k] stateOk_tracked(2) [OF st h] show False by (simp add: supersedes_def)
  next
    case False
    with stateOk_tracked(1) [OF st h] t sup show False by (simp add: supersedes_def)
  qed
qed

text \<open>
  However a session's tickets overlap, for every root the relay tracks exactly the tickets in force
  (granted as current, neither withdrawn nor ended), no ticket stays in force beside one that
  supersedes it (a later one for the same root that grants relay patterns or nothing, over tickets of
  relay patterns; a later one that grants nothing, over tickets of funnel actions), and a ticket
  is withdrawn only for one that supersedes it and whose grant was in force.
\<close>

theorem newest_ticket_wins:
  assumes "root_reach root s"
  shows "(\<forall>r. r \<noteq> [] \<longrightarrow> tracked (rootAt (holds s) r) = {h \<in> set (current s) - superseded s. rootOf h = r})
     \<and> (\<forall>h \<in> set (current s) - superseded s. \<forall>k \<in> set (current s) - superseded s.
          rootOf h \<noteq> [] \<longrightarrow> \<not> supersedes k h)
     \<and> (\<forall>h \<in> superseded s. \<exists>k \<in> registered s. supersedes k h)"
proof -
  from root_reach_ok [OF assms] have ok: "rootsOk s" by (simp add: rootRunOk_def)
  then have "\<forall>h \<in> superseded s. \<exists>k \<in> registered s. supersedes k h" by (simp add: rootsOk_def)
  moreover from ok have "tracked (rootAt (holds s) r) = {h \<in> inForce s. rootOf h = r}" if "r \<noteq> []" for r
    using that by (simp add: rootsOk_def)
  ultimately show ?thesis using newest_wins [OF assms] unfolding inForce_def by blast
qed

text \<open>
  C33: The connection's own credential ends with the first ticket for its root and never comes back:
  once a ticket for that root with relay patterns or none was granted, no presentation of the credential
  is in force and every further one is refused, as it is while the grant of such a ticket is being
  applied; before that, none is ever withdrawn.
\<close>

theorem connection_retired_for_good:
  assumes "root_reach root s"
  shows "(connRetired (holds s) \<longleftrightarrow> (\<exists>h \<in> registered s. rootOf h = root \<and> root \<noteq> [] \<and> role h \<noteq> roleFunnel))
     \<and> set (conns (holds s)) = set (presented s) - withdrawnConns s
     \<and> (connRetired (holds s) \<longrightarrow> conns (holds s) = [] \<and> registerConnection c (holds s) = None)
     \<and> ((\<exists>h \<in> set (begun s). rootOf h = root \<and> root \<noteq> [] \<and> role h \<noteq> roleFunnel)
          \<longrightarrow> registerConnection c (holds s) = None)
     \<and> (\<not> connRetired (holds s) \<longrightarrow> withdrawnConns s = {})"
proof -
  from root_reach_ok [OF assms] have c: "connsOk s" and root: "connRoot (holds s) = root"
    by (auto simp: rootRunOk_def)
  have "registerConnection c (holds s) = None"
    if "h \<in> set (begun s)" "rootOf h = root" "root \<noteq> []" "role h \<noteq> roleFunnel" for h
  proof -
    have "retires h" using c root that by (simp add: connsOk_def)
    with that(1) have "filter retires (begun s) \<noteq> []" by (auto simp: filter_empty_conv)
    then show ?thesis using c by (simp add: connsOk_def registerConnection_def)
  qed
  moreover have "connRetired (holds s) \<longleftrightarrow> (\<exists>h \<in> registered s. rootOf h = root \<and> root \<noteq> [] \<and> role h \<noteq> roleFunnel)"
    using c root by (auto simp: connsOk_def)
  moreover have "connRetired (holds s) \<longrightarrow> conns (holds s) = [] \<and> registerConnection c (holds s) = None"
    using c by (simp add: connsOk_def registerConnection_def)
  moreover have "set (conns (holds s)) = set (presented s) - withdrawnConns s"
    "\<not> connRetired (holds s) \<longrightarrow> withdrawnConns s = {}"
    using c unfolding connsOk_def by blast+
  ultimately show ?thesis by blast
qed

theorem connection_retired_for_good_witness:
  "conns (holds overtaken) = [] \<and> registerConnection 7 (holds overtaken) = None"
  using connection_retired_for_good [OF overtaken_reach, of 7] by (auto simp: overtaken_def)

end
