(* ===== verification/Held_Grants.thy ===== *)
theory Held_Grants
  imports Prelude
begin

text \<open>
  What a session's grants in force decide about it (\<open>heldGrants\<close> in \<^verbatim>\<open>src/internal/relay/admit.go\<close>): the key an
  anonymous session is bound to, the count of its grants, its place among the server's pending
  sessions, and the deadline it has while it holds nothing. Every method runs under the mutex of
  \<open>heldGrants\<close> and is one step. The server's count of pending sessions and the timer, whose callback may
  run at any time after it was armed, even when it was stopped since, are explicit.
\<close>

section \<open>State and operations\<close>

text \<open>\<open>timer\<close> is the number of the armed timer; \<open>expire\<close> whether the deadline is watched.\<close>

record heldGrants =
  key :: string
  opened :: bool
  publishes :: bool
  inFlight :: int
  live :: int
  pending :: bool
  expire :: bool
  timer :: "nat option"
  ticking :: bool
  armedTimers :: nat
  closedFor :: bool

definition newHeld :: heldGrants where
  "newHeld = \<lparr>key = [], opened = False, publishes = False, inFlight = 0, live = 0, pending = False,
     expire = False, timer = None, ticking = False, armedTimers = 0, closedFor = False\<rparr>"

definition boundKey :: "heldGrants \<Rightarrow> string" where
  "boundKey h = key h"

definition bindTicket :: "string \<Rightarrow> heldGrants \<Rightarrow> bool \<times> heldGrants" where
  "bindTicket kid h =
     (if key h = [] then (True, h \<lparr>key := kid, inFlight := inFlight h + 1\<rparr>)
      else if key h = kid then (True, h \<lparr>inFlight := inFlight h + 1\<rparr>)
      else (False, h))"

definition settleRefused :: "heldGrants \<Rightarrow> heldGrants" where
  "settleRefused h =
     (let h1 = h \<lparr>inFlight := inFlight h - 1\<rparr>
      in if \<not> opened h1 \<and> inFlight h1 = 0 then h1 \<lparr>key := []\<rparr> else h1)"

text \<open>The callback a granted ticket makes: none, \<open>open\<close> with whether it publishes, or \<open>publishing\<close>.\<close>

datatype usageCall = callNone | callOpen bool | callPublishing

definition settleGranted :: "bool \<Rightarrow> heldGrants \<Rightarrow> usageCall \<times> heldGrants" where
  "settleGranted pub h =
     (let h1 = h \<lparr>inFlight := inFlight h - 1\<rparr>
      in if \<not> opened h1 then (callOpen pub, h1 \<lparr>opened := True, publishes := pub\<rparr>)
         else if pub \<and> \<not> publishes h1 then (callPublishing, h1 \<lparr>publishes := True\<rparr>)
         else (callNone, h1))"

definition countPending :: "heldGrants \<Rightarrow> heldGrants" where
  "countPending h = h \<lparr>pending := True\<rparr>"

text \<open>\<open>n\<close> is the server's count of pending anonymous sessions.\<close>

definition releasePendingLocked :: "heldGrants \<Rightarrow> int \<Rightarrow> heldGrants \<times> int" where
  "releasePendingLocked h n = (if pending h then (h \<lparr>pending := False\<rparr>, n - 1) else (h, n))"

definition holding :: "heldGrants \<Rightarrow> int \<Rightarrow> heldGrants \<times> int" where
  "holding h n =
     (let (h1, n1) = releasePendingLocked (h \<lparr>live := live h + 1\<rparr>) n
      in (if timer h1 \<noteq> None then h1 \<lparr>ticking := False\<rparr> else h1, n1))"

definition armLocked :: "heldGrants \<Rightarrow> heldGrants" where
  "armLocked h = h \<lparr>timer := Some (armedTimers h), ticking := True, armedTimers := armedTimers h + 1\<rparr>"

definition released :: "heldGrants \<Rightarrow> heldGrants" where
  "released h =
     (let h1 = h \<lparr>live := live h - 1\<rparr>
      in if live h1 = 0 \<and> expire h1 then armLocked h1 else h1)"

definition watch :: "heldGrants \<Rightarrow> heldGrants" where
  "watch h =
     (let h1 = h \<lparr>expire := True\<rparr>
      in if live h1 = 0 then armLocked h1 else h1)"

text \<open>The callback of timer \<open>t\<close>: whether it closes the session.\<close>

definition deadline :: "nat \<Rightarrow> heldGrants \<Rightarrow> bool \<times> heldGrants" where
  "deadline t h =
     (let h1 = (if timer h = Some t then h \<lparr>ticking := False\<rparr> else h)
      in if timer h \<noteq> Some t \<or> live h > 0 \<or> \<not> expire h then (False, h1)
         else (True, h1 \<lparr>closedFor := True, expire := False\<rparr>))"

definition unwatch :: "heldGrants \<Rightarrow> int \<Rightarrow> heldGrants \<times> int" where
  "unwatch h n = releasePendingLocked (h \<lparr>expire := False, ticking := False\<rparr>) n"

definition closedReason :: "heldGrants \<Rightarrow> bool" where
  "closedReason h = closedFor h"

section \<open>Admitting anonymous sessions\<close>

definition maxPendingAnonymous :: int where
  "maxPendingAnonymous = 1024"

definition pendingLimit :: "int \<Rightarrow> int" where
  "pendingLimit configured = (if configured \<le> 0 then maxPendingAnonymous else configured)"

text \<open>\<open>reservePending\<close> with its addition and the subtraction that undoes it.\<close>

definition reservePending :: "int \<Rightarrow> int \<Rightarrow> bool \<times> int" where
  "reservePending configured n =
     (let n1 = n + 1 in if n1 > pendingLimit configured then (False, n1 - 1) else (True, n1))"

section \<open>Contracts\<close>

lemma bindTicket_spec:
  assumes "bindTicket kid h = (ok, h')"
  shows "ok \<longleftrightarrow> key h = [] \<or> key h = kid"
    and "ok \<Longrightarrow> key h' = kid \<and> inFlight h' = inFlight h + 1"
    and "\<not> ok \<Longrightarrow> h' = h"
    and "opened h' = opened h \<and> publishes h' = publishes h \<and> live h' = live h \<and> expire h' = expire h
       \<and> timer h' = timer h \<and> ticking h' = ticking h \<and> armedTimers h' = armedTimers h \<and> closedFor h' = closedFor h"
  using assms by (auto simp: bindTicket_def split: if_splits)

text \<open>The deadline: while the session is watched and holds nothing, a timer that will close it is running.\<close>

definition deadlineOk :: "heldGrants \<Rightarrow> bool" where
  "deadlineOk h \<longleftrightarrow> (expire h \<and> live h = 0 \<longrightarrow> timer h \<noteq> None \<and> ticking h)
     \<and> (\<forall>t. timer h = Some t \<longrightarrow> t < armedTimers h) \<and> 0 \<le> live h"

lemma deadlineOk_ops:
  assumes "deadlineOk h"
  shows "deadlineOk (fst (holding h n))" and "0 < live h \<Longrightarrow> deadlineOk (released h)" and "deadlineOk (watch h)"
    and "deadlineOk (snd (deadline t h))" and "deadlineOk (fst (unwatch h n))" and "deadlineOk (settleRefused h)"
    and "deadlineOk (snd (settleGranted p h))" and "deadlineOk (snd (bindTicket kid h))" and "deadlineOk (countPending h)"
  using assms
  by (auto simp: deadlineOk_def holding_def releasePendingLocked_def released_def armLocked_def watch_def
      deadline_def unwatch_def settleRefused_def settleGranted_def bindTicket_def countPending_def Let_def
      split: if_splits)

end
