(* ===== verification/Admission.thy ===== *)
theory Admission
  imports Root_Holds Held_Grants "HOL-Library.Multiset"
begin

text \<open>
  The credentials of one session, from presentation to end (\<open>ServeAuth\<close>, \<open>serveTicket\<close> and \<open>serveConnection\<close> in
  \<^verbatim>\<open>src/internal/relay/admit.go\<close>). Each presentation runs in its own goroutine; a step of the session is one
  access of one of them to the shared state, in any interleaving. What \<^verbatim>\<open>gomoqt\<close> answers to a grant, how
  long it is held and what the ticket verifier returns are left open: they may be anything the
  interfaces allow. The state of the root credentials and of the held grants is that of the theories
  \<open>Root_Holds\<close> and \<open>Held_Grants\<close>, whose methods the steps call.
\<close>

section \<open>Grants on a session\<close>

definition maxCredentials :: int where "maxCredentials = 33"

text \<open>The MoQ grant of a token's grant: none at all without a publish or subscribe pattern.\<close>

definition moqGrant :: "Grant \<Rightarrow> Grant" where
  "moqGrant tg =
     (if Publish tg = [] \<and> Subscribe tg = []
      then \<lparr>Root = [], Publish = [], Subscribe = [], MaxAge = 0, Create = [], Post = [], Redact = [], Subject = []\<rparr>
      else \<lparr>Root = Root tg, Publish = Publish tg, Subscribe = Subscribe tg, MaxAge = 0,
            Create = [], Post = [], Redact = [], Subject = []\<rparr>)"

definition grantsSomething :: "Grant \<Rightarrow> bool" where
  "grantsSomething g \<longleftrightarrow> Publish g \<noteq> [] \<or> Subscribe g \<noteq> []"

text \<open>How a grant held by \<open>hold\<close> ended, by the first of the events its select sees that ends it.\<close>

datatype holdEvent = ctxDone | lapse | recheck bool

datatype heldOutcome = heldEnded | heldLapsed | heldRevoked

fun hold :: "holdEvent list \<Rightarrow> heldOutcome option" where
  "hold [] = None"
| "hold (ctxDone # es) = Some heldEnded"
| "hold (lapse # es) = Some heldLapsed"
| "hold (recheck trusted # es) = (if trusted then hold es else Some heldRevoked)"

section \<open>Presentations\<close>

text \<open>
  Where a presentation is. A ticket is verified, bound to the session's key, numbered (\<open>Begun\<close>), found
  not replaced (\<open>Ready\<close>), granted by \<^verbatim>\<open>gomoqt\<close> (\<open>Applied\<close>), registered, counted as held, settled, then in force
  until it ends, and is released in two steps; a ticket that is replaced or whose grant fails is
  abandoned and settled as refused. The connection's own credential is registered, granted and
  counted, and released the same way; \<open>rooted\<close> says whether it has a root to register.
\<close>

datatype phase =
    Verified | Bound | Begun withdrawal | Ready withdrawal | Doomed withdrawal | Abandoned
  | Applied withdrawal | Registered withdrawal bool | Counted withdrawal bool | InForce withdrawal
  | Ending withdrawal | Leaving withdrawal
  | ConnStart | ConnRegistered | ConnGranted | ConnHeld | ConnEnding | ConnLeaving
  | Gone

record presentation =
  kid :: string
  grantOf :: Grant
  phase :: phase

record session =
  anonymous :: bool
  sessionKid :: string
  sessionGrant :: Grant
  held :: heldGrants
  roots :: rootRun
  credentials :: int
  published :: bool
  serverPending :: int
  binds :: "(string \<times> bool) list"
  publishings :: nat
  presentations :: "presentation list"

abbreviation setPhase :: "session \<Rightarrow> nat \<Rightarrow> phase \<Rightarrow> session" where
  "setPhase s i ph \<equiv> s \<lparr>presentations := (presentations s)[i := (presentations s ! i) \<lparr>phase := ph\<rparr>]\<rparr>"

text \<open>The call into the root credentials, with the tickets that were begun and are current.\<close>

definition rootBegin :: "string \<Rightarrow> rootRole \<Rightarrow> rootRun \<Rightarrow> withdrawal \<times> rootRun" where
  "rootBegin root rl r =
     (let (h, hs) = beginTicket root rl (holds r) in (h, r \<lparr>holds := hs, begun := h # begun r\<rparr>))"

definition rootAbandon :: "withdrawal \<Rightarrow> rootRun \<Rightarrow> rootRun" where
  "rootAbandon h r = r \<lparr>holds := abandonTicket h (holds r), begun := remove1 h (begun r)\<rparr>"

definition rootRegister :: "withdrawal \<Rightarrow> rootRun \<Rightarrow> bool \<times> rootRun" where
  "rootRegister h r =
     (let (ws, cs, cur, hs) = registerTicket h (holds r)
      in (cur, r \<lparr>holds := hs, begun := remove1 h (begun r),
           current := (if cur then h # current r else current r),
           registered := insert h (registered r), superseded := superseded r \<union> set ws,
           withdrawnConns := withdrawnConns r \<union> set cs\<rparr>))"

definition rootRelease :: "withdrawal \<Rightarrow> rootRun \<Rightarrow> rootRun" where
  "rootRelease h r = r \<lparr>holds := releaseTicket h (holds r), current := remove1 h (current r)\<rparr>"

definition rootPresent :: "nat \<Rightarrow> rootRun \<Rightarrow> rootRun option" where
  "rootPresent c r =
     (case registerConnection c (holds r) of
        None \<Rightarrow> None
      | Some hs \<Rightarrow> Some (r \<lparr>holds := hs, presented := c # presented r\<rparr>))"

definition rootLeave :: "nat \<Rightarrow> rootRun \<Rightarrow> rootRun" where
  "rootLeave c r = r \<lparr>holds := releaseConnection c (holds r), presented := remove1 c (presented r)\<rparr>"

section \<open>Steps of the handlers\<close>

text \<open>
  Each function is one step of the goroutine at index \<open>i\<close>; the caller has checked its phase. They follow
  \<open>serveTicket\<close> from the call of \<open>beginTicket\<close> on, and \<open>serveConnection\<close>.
\<close>

definition stepBind :: "nat \<Rightarrow> session \<Rightarrow> session" where
  "stepBind i s =
     (let p = presentations s ! i
      in if anonymous s then
           (let (ok, h) = bindTicket (kid p) (held s)
            in if ok then setPhase (s \<lparr>held := h\<rparr>) i Bound
               else setPhase (s \<lparr>credentials := credentials s - 1\<rparr>) i Gone)
         else setPhase s i Bound)"

definition stepBegin :: "nat \<Rightarrow> session \<Rightarrow> session" where
  "stepBegin i s =
     (let tg = grantOf (presentations s ! i);
          (h, r) = rootBegin (Root tg) (roleOf tg) (roots s)
      in setPhase (s \<lparr>roots := r, published := published s \<or> Publish (moqGrant tg) \<noteq> []\<rparr>) i (Begun h))"

definition stepCheck :: "nat \<Rightarrow> withdrawal \<Rightarrow> session \<Rightarrow> session" where
  "stepCheck i h s = setPhase s i (if replaced (holds (roots s)) h then Doomed h else Ready h)"

definition stepGrant :: "nat \<Rightarrow> withdrawal \<Rightarrow> bool \<Rightarrow> session \<Rightarrow> session" where
  "stepGrant i h ok s = setPhase s i (if ok then Applied h else Doomed h)"

definition stepAbandon :: "nat \<Rightarrow> withdrawal \<Rightarrow> session \<Rightarrow> session" where
  "stepAbandon i h s = setPhase (s \<lparr>roots := rootAbandon h (roots s)\<rparr>) i Abandoned"

definition stepRefused :: "nat \<Rightarrow> session \<Rightarrow> session" where
  "stepRefused i s =
     setPhase (s \<lparr>held := (if anonymous s then settleRefused (held s) else held s),
                  credentials := credentials s - 1\<rparr>) i Gone"

definition stepRegister :: "nat \<Rightarrow> withdrawal \<Rightarrow> session \<Rightarrow> session" where
  "stepRegister i h s =
     (let (cur, r) = rootRegister h (roots s) in setPhase (s \<lparr>roots := r\<rparr>) i (Registered h cur))"

definition counts :: "presentation \<Rightarrow> bool" where
  "counts p = grantsSomething (moqGrant (grantOf p))"

definition stepCount :: "nat \<Rightarrow> withdrawal \<Rightarrow> bool \<Rightarrow> session \<Rightarrow> session" where
  "stepCount i h cur s =
     (let (hg, n) = (if cur \<and> counts (presentations s ! i) then holding (held s) (serverPending s)
                     else (held s, serverPending s))
      in setPhase (s \<lparr>held := hg, serverPending := n\<rparr>) i (Counted h cur))"

text \<open>
  Settling: a ticket that is not current is refused; a granted one of an anonymous session opens its
  usage (\<open>Bind\<close>) or makes it a publisher, one of another session tells that it publishes.
\<close>

definition stepSettle :: "nat \<Rightarrow> withdrawal \<Rightarrow> bool \<Rightarrow> session \<Rightarrow> session" where
  "stepSettle i h cur s =
     (let p = presentations s ! i; pub = (cur \<and> Publish (moqGrant (grantOf p)) \<noteq> [])
      in if \<not> cur then
           setPhase (s \<lparr>held := (if anonymous s then settleRefused (held s) else held s),
                        credentials := credentials s - 1\<rparr>) i Gone
         else if anonymous s then
           (let (call, hg) = settleGranted pub (held s)
            in setPhase (s \<lparr>held := hg,
                 binds := (case call of callOpen b \<Rightarrow> (kid p, b) # binds s | _ \<Rightarrow> binds s),
                 publishings := publishings s + (if call = callPublishing then 1 else 0)\<rparr>) i (InForce h))
         else setPhase (s \<lparr>publishings := publishings s + (if pub then 1 else 0)\<rparr>) i (InForce h))"

definition stepReleased :: "nat \<Rightarrow> phase \<Rightarrow> session \<Rightarrow> session" where
  "stepReleased i ph s =
     setPhase (s \<lparr>held := (if counts (presentations s ! i) then released (held s) else held s)\<rparr>) i ph"

definition stepLeave :: "nat \<Rightarrow> withdrawal \<Rightarrow> session \<Rightarrow> session" where
  "stepLeave i h s = setPhase (s \<lparr>roots := rootRelease h (roots s), credentials := credentials s - 1\<rparr>) i Gone"

text \<open>The connection's own credential, a presentation of the session's grant.\<close>

definition stepConnRegister :: "nat \<Rightarrow> session \<Rightarrow> session" where
  "stepConnRegister i s =
     (if Root (sessionGrant s) = [] then setPhase s i ConnRegistered
      else case rootPresent i (roots s) of
             None \<Rightarrow> setPhase (s \<lparr>credentials := credentials s - 1\<rparr>) i Gone
           | Some r \<Rightarrow> setPhase (s \<lparr>roots := r\<rparr>) i ConnRegistered)"

definition stepConnGrant :: "nat \<Rightarrow> bool \<Rightarrow> session \<Rightarrow> session" where
  "stepConnGrant i ok s =
     setPhase (s \<lparr>published := published s \<or> Publish (moqGrant (sessionGrant s)) \<noteq> []\<rparr>) i
       (if ok then ConnGranted else ConnLeaving)"

definition stepConnCount :: "nat \<Rightarrow> session \<Rightarrow> session" where
  "stepConnCount i s =
     (let (hg, n) = (if counts (presentations s ! i) then holding (held s) (serverPending s)
                     else (held s, serverPending s))
      in setPhase (s \<lparr>held := hg, serverPending := n\<rparr>) i ConnHeld)"

definition stepConnLeave :: "nat \<Rightarrow> session \<Rightarrow> session" where
  "stepConnLeave i s =
     setPhase (s \<lparr>roots := (if Root (sessionGrant s) = [] then roots s else rootLeave i (roots s)),
                  credentials := credentials s - 1\<rparr>) i Gone"

text \<open>\<open>ServeAuth\<close> counts the credential first and refuses one too many.\<close>

definition arrive :: "presentation \<Rightarrow> session \<Rightarrow> session" where
  "arrive p s =
     (if credentials s + 1 > maxCredentials then s
      else s \<lparr>credentials := credentials s + 1, presentations := presentations s @ [p]\<rparr>)"

text \<open>
  The steps of a session. A ticket that arrives was signed by the key of the session's credential or,
  for an anonymous session, by the key it is bound to when there is one (\<open>Ticket\<close>), or by any key
  (\<open>FirstTicket\<close>); it may still be refused.
\<close>

abbreviation "at s i ph \<equiv> i < length (presentations s) \<and> phase (presentations s ! i) = ph"

inductive ticket_step :: "session \<Rightarrow> session \<Rightarrow> bool" where
  ticketArrives: "k \<noteq> [] \<Longrightarrow> \<not> anonymous s \<longrightarrow> k = sessionKid s \<Longrightarrow>
    anonymous s \<and> boundKey (held s) \<noteq> [] \<longrightarrow> k = boundKey (held s) \<Longrightarrow>
    ticket_step s (arrive \<lparr>kid = k, grantOf = tg, phase = Verified\<rparr> s)"
| ticketRefused: "at s i Verified \<Longrightarrow> ticket_step s (setPhase (s \<lparr>credentials := credentials s - 1\<rparr>) i Gone)"
| binds: "at s i Verified \<Longrightarrow> ticket_step s (stepBind i s)"
| begins: "at s i Bound \<Longrightarrow> ticket_step s (stepBegin i s)"
| checks: "at s i (Begun h) \<Longrightarrow> ticket_step s (stepCheck i h s)"
| grants: "at s i (Ready h) \<Longrightarrow> ticket_step s (stepGrant i h ok s)"
| abandons: "at s i (Doomed h) \<Longrightarrow> ticket_step s (stepAbandon i h s)"
| refuses: "at s i Abandoned \<Longrightarrow> ticket_step s (stepRefused i s)"
| registers: "at s i (Applied h) \<Longrightarrow> ticket_step s (stepRegister i h s)"
| counted: "at s i (Registered h cur) \<Longrightarrow> ticket_step s (stepCount i h cur s)"
| settles: "at s i (Counted h cur) \<Longrightarrow> ticket_step s (stepSettle i h cur s)"
| ends: "at s i (InForce h) \<Longrightarrow> ticket_step s (setPhase s i (Ending h))"
| releasing: "at s i (Ending h) \<Longrightarrow> ticket_step s (stepReleased i (Leaving h) s)"
| leaves: "at s i (Leaving h) \<Longrightarrow> ticket_step s (stepLeave i h s)"

inductive conn_step :: "session \<Rightarrow> session \<Rightarrow> bool" where
  connArrives: "conn_step s (arrive \<lparr>kid = sessionKid s, grantOf = sessionGrant s, phase = ConnStart\<rparr> s)"
| connExpired: "at s i ConnStart \<Longrightarrow> conn_step s (setPhase (s \<lparr>credentials := credentials s - 1\<rparr>) i Gone)"
| connRegisters: "at s i ConnStart \<Longrightarrow> conn_step s (stepConnRegister i s)"
| connSuperseded: "at s i ConnRegistered \<Longrightarrow> conn_step s (setPhase s i ConnLeaving)"
| connGrants: "at s i ConnRegistered \<Longrightarrow> conn_step s (stepConnGrant i ok s)"
| connCounted: "at s i ConnGranted \<Longrightarrow> conn_step s (stepConnCount i s)"
| connEnds: "at s i ConnHeld \<Longrightarrow> conn_step s (setPhase s i ConnEnding)"
| connReleasing: "at s i ConnEnding \<Longrightarrow> conn_step s (stepReleased i ConnLeaving s)"
| connLeaves: "at s i ConnLeaving \<Longrightarrow> conn_step s (stepConnLeave i s)"

inductive deadline_step :: "session \<Rightarrow> session \<Rightarrow> bool" where
  watches: "anonymous s \<Longrightarrow> deadline_step s (s \<lparr>held := watch (held s)\<rparr>)"
| deadlines: "t < armedTimers (held s) \<Longrightarrow> deadline_step s (s \<lparr>held := snd (deadline t (held s))\<rparr>)"
| unwatches: "unwatch (held s) (serverPending s) = (h, n) \<Longrightarrow> deadline_step s (s \<lparr>held := h, serverPending := n\<rparr>)"

inductive session_step :: "session \<Rightarrow> session \<Rightarrow> bool" where
  ticket: "ticket_step s t \<Longrightarrow> session_step s t"
| connection: "conn_step s t \<Longrightarrow> session_step s t"
| anonymousDeadline: "deadline_step s t \<Longrightarrow> session_step s t"

definition newSession :: "bool \<Rightarrow> string \<Rightarrow> Grant \<Rightarrow> int \<Rightarrow> session" where
  "newSession anon k g n =
     \<lparr>anonymous = anon, sessionKid = k, sessionGrant = g,
      held = (if anon then countPending newHeld else newHeld),
      roots = \<lparr>holds = newRootHolds (Root g), begun = [], current = [], registered = {}, superseded = {},
        presented = [], withdrawnConns = {}\<rparr>,
      credentials = 0, published = False, serverPending = n, binds = [], publishings = 0, presentations = []\<rparr>"

inductive session_reach :: "bool \<Rightarrow> string \<Rightarrow> Grant \<Rightarrow> int \<Rightarrow> session \<Rightarrow> bool" for anon k g n where
  start: "session_reach anon k g n (newSession anon k g n)"
| step: "session_reach anon k g n s \<Longrightarrow> session_step s t \<Longrightarrow> session_reach anon k g n t"

section \<open>Counting presentations\<close>

definition total :: "(presentation \<Rightarrow> 'a::comm_monoid_add) \<Rightarrow> session \<Rightarrow> 'a" where
  "total f s = sum_list (map f (presentations s))"

lemma sum_list_replaced:
  fixes f :: "'b \<Rightarrow> 'a::comm_monoid_add"
  shows "i < length xs \<Longrightarrow> sum_list (map f (xs[i := y])) + f (xs ! i) = sum_list (map f xs) + f y"
  by (induction xs arbitrary: i) (auto split: nat.splits simp: ac_simps)

lemma total_move:
  "i < length (presentations s) \<Longrightarrow> presentations s' = (presentations s)[i := (presentations s ! i) \<lparr>phase := ph\<rparr>] \<Longrightarrow>
     total f s' + f (presentations s ! i) = total f s + f ((presentations s ! i) \<lparr>phase := ph\<rparr>)"
  by (simp add: total_def sum_list_replaced)

definition activeOf :: "presentation \<Rightarrow> int" where
  "activeOf p = (if phase p = Gone then 0 else 1)"

text \<open>A ticket bound to the key of an anonymous session and not settled yet.\<close>

definition flying :: "phase \<Rightarrow> bool" where
  "flying ph \<longleftrightarrow> (case ph of Bound \<Rightarrow> True | Begun _ \<Rightarrow> True | Ready _ \<Rightarrow> True | Doomed _ \<Rightarrow> True | Abandoned \<Rightarrow> True
     | Applied _ \<Rightarrow> True | Registered _ _ \<Rightarrow> True | Counted _ _ \<Rightarrow> True | _ \<Rightarrow> False)"

text \<open>A granted ticket.\<close>

definition granted :: "phase \<Rightarrow> bool" where
  "granted ph \<longleftrightarrow> (case ph of InForce _ \<Rightarrow> True | Ending _ \<Rightarrow> True | Leaving _ \<Rightarrow> True | _ \<Rightarrow> False)"

definition flyingOf :: "presentation \<Rightarrow> int" where
  "flyingOf p = (if flying (phase p) then 1 else 0)"

text \<open>A grant in force that grants something.\<close>

definition liveOf :: "presentation \<Rightarrow> int" where
  "liveOf p = (if counts p \<and> (case phase p of Counted _ cur \<Rightarrow> cur | InForce _ \<Rightarrow> True | Ending _ \<Rightarrow> True
       | ConnHeld \<Rightarrow> True | ConnEnding \<Rightarrow> True | _ \<Rightarrow> False) then 1 else 0)"

definition countsOk :: "session \<Rightarrow> bool" where
  "countsOk s \<longleftrightarrow>
     credentials s = total activeOf s \<and> credentials s \<le> maxCredentials
     \<and> inFlight (held s) = (if anonymous s then total flyingOf s else 0)
     \<and> live (held s) = total liveOf s"

lemmas phase_weights = activeOf_def flyingOf_def flying_def liveOf_def counts_def

lemma held_counts:
  "inFlight (settleRefused h) = inFlight h - 1" "live (settleRefused h) = live h"
  "settleGranted p h = (call, h') \<Longrightarrow> inFlight h' = inFlight h - 1 \<and> live h' = live h"
  "bindTicket k h = (ok, h') \<Longrightarrow> inFlight h' = inFlight h + (if ok then 1 else 0) \<and> live h' = live h"
  "holding h n = (h', n') \<Longrightarrow> inFlight h' = inFlight h \<and> live h' = live h + 1"
  "inFlight (released h) = inFlight h" "live (released h) = live h - 1"
  "inFlight (watch h) = inFlight h" "live (watch h) = live h"
  "inFlight (snd (deadline t h)) = inFlight h" "live (snd (deadline t h)) = live h"
  "unwatch h n = (h', n') \<Longrightarrow> inFlight h' = inFlight h \<and> live h' = live h"
  by (auto simp: settleRefused_def settleGranted_def bindTicket_def holding_def releasePendingLocked_def released_def
      armLocked_def watch_def deadline_def unwatch_def Let_def split: if_splits)

text \<open>A step that moves one presentation and changes the counters by the difference of its weights.\<close>

lemma countsOk_move:
  assumes ok: "countsOk s" and i: "i < length (presentations s)"
    and pres: "presentations s' = (presentations s)[i := (presentations s ! i) \<lparr>phase := ph\<rparr>]"
    and anon: "anonymous s' = anonymous s"
    and creds: "credentials s' = credentials s + activeOf ((presentations s ! i) \<lparr>phase := ph\<rparr>) - activeOf (presentations s ! i)"
      "credentials s' \<le> credentials s"
    and fly: "anonymous s \<Longrightarrow> inFlight (held s') = inFlight (held s) + flyingOf ((presentations s ! i) \<lparr>phase := ph\<rparr>)
        - flyingOf (presentations s ! i)" "\<not> anonymous s \<Longrightarrow> inFlight (held s') = inFlight (held s)"
    and live: "live (held s') = live (held s) + liveOf ((presentations s ! i) \<lparr>phase := ph\<rparr>) - liveOf (presentations s ! i)"
  shows "countsOk s'"
proof -
  note t = total_move [OF i pres]
  have "total activeOf s' = total activeOf s + activeOf ((presentations s ! i) \<lparr>phase := ph\<rparr>) - activeOf (presentations s ! i)"
    "total flyingOf s' = total flyingOf s + flyingOf ((presentations s ! i) \<lparr>phase := ph\<rparr>) - flyingOf (presentations s ! i)"
    "total liveOf s' = total liveOf s + liveOf ((presentations s ! i) \<lparr>phase := ph\<rparr>) - liveOf (presentations s ! i)"
    using t [of activeOf] t [of flyingOf] t [of liveOf] by linarith+
  with ok creds fly live anon show ?thesis by (auto simp: countsOk_def)
qed

lemma countsOk_arrive: "countsOk s \<Longrightarrow> phase p \<in> {Verified, ConnStart} \<Longrightarrow> countsOk (arrive p s)"
  by (auto simp: arrive_def countsOk_def total_def phase_weights)

lemma countsOk_held: "countsOk s \<Longrightarrow> inFlight h = inFlight (held s) \<Longrightarrow> live h = live (held s) \<Longrightarrow>
    countsOk (s \<lparr>held := h\<rparr>) \<and> countsOk (s \<lparr>held := h, serverPending := n\<rparr>)"
  by (simp add: countsOk_def total_def)

lemma countsOk_ticket:
  assumes "ticket_step s s'" and ok: "countsOk s"
  shows "countsOk s'"
  using assms(1)
proof (cases rule: ticket_step.cases)
  case (ticketArrives k tg)
  then show ?thesis using countsOk_arrive [OF ok] by simp
next
  case (ticketRefused i)
  show ?thesis
    by (rule countsOk_move [OF ok, of i s' "Gone"]) (use ticketRefused in \<open>simp_all add:  phase_weights held_counts\<close>)
next
  case (binds i)
  show ?thesis
  proof (cases "anonymous s \<and> \<not> fst (bindTicket (kid (presentations s ! i)) (held s))")
    case True
    then show ?thesis
      by (intro countsOk_move [OF ok, of i s' Gone]) (use binds in \<open>simp_all add: stepBind_def Let_def split_beta phase_weights\<close>)
  next
    case False
    obtain b h where bt: "bindTicket (kid (presentations s ! i)) (held s) = (b, h)" by fastforce
    from False bt held_counts(4) [OF bt] show ?thesis
      by (intro countsOk_move [OF ok, of i s' Bound]) (use binds in \<open>auto simp: stepBind_def Let_def phase_weights\<close>)
  qed
next
  case (begins i)
  show ?thesis
    by (rule countsOk_move [OF ok, of i s' "Begun (fst (rootBegin (Root (grantOf (presentations s ! i))) (roleOf (grantOf (presentations s ! i))) (roots s)))"]) (use begins in \<open>simp_all add: stepBegin_def Let_def split_beta phase_weights held_counts\<close>)
next
  case (checks i h)
  show ?thesis
    by (rule countsOk_move [OF ok, of i s' "if replaced (holds (roots s)) h then Doomed h else Ready h"]) (use checks in \<open>simp_all add: stepCheck_def phase_weights held_counts\<close>)
next
  case (grants i h b)
  show ?thesis
    by (rule countsOk_move [OF ok, of i s' "if b then Applied h else Doomed h"]) (use grants in \<open>simp_all add: stepGrant_def phase_weights held_counts\<close>)
next
  case (abandons i h)
  show ?thesis
    by (rule countsOk_move [OF ok, of i s' "Abandoned"]) (use abandons in \<open>simp_all add: stepAbandon_def phase_weights held_counts\<close>)
next
  case (refuses i)
  show ?thesis
    by (rule countsOk_move [OF ok, of i s' "Gone"]) (use refuses in \<open>simp_all add: stepRefused_def phase_weights held_counts\<close>)
next
  case (registers i h)
  show ?thesis
    by (rule countsOk_move [OF ok, of i s' "Registered h (fst (rootRegister h (roots s)))"]) (use registers in \<open>simp_all add: stepRegister_def Let_def split_beta phase_weights held_counts\<close>)
next
  case (counted i h cur)
  obtain hg n where hd: "holding (held s) (serverPending s) = (hg, n)" by fastforce
  from hd held_counts(5) [OF hd] show ?thesis
    by (intro countsOk_move [OF ok, of i s' "Counted h cur"])
      (use counted in \<open>auto simp: stepCount_def Let_def phase_weights\<close>)
next
  case (settles i h cur)
  obtain call hg where sg: "settleGranted (cur \<and> Publish (moqGrant (grantOf (presentations s ! i))) \<noteq> []) (held s) = (call, hg)"
    by fastforce
  from sg held_counts(3) [OF sg] show ?thesis
    by (intro countsOk_move [OF ok, of i s' "if cur then InForce h else Gone"])
      (use settles in \<open>auto simp: stepSettle_def Let_def phase_weights held_counts(1,2)\<close>)
next
  case (ends i h)
  show ?thesis
    by (rule countsOk_move [OF ok, of i s' "Ending h"]) (use ends in \<open>simp_all add:  phase_weights held_counts\<close>)
next
  case (releasing i h)
  show ?thesis
    by (rule countsOk_move [OF ok, of i s' "Leaving h"]) (use releasing in \<open>simp_all add: stepReleased_def phase_weights held_counts\<close>)
next
  case (leaves i h)
  show ?thesis
    by (rule countsOk_move [OF ok, of i s' "Gone"]) (use leaves in \<open>simp_all add: stepLeave_def phase_weights held_counts\<close>)
qed

lemma countsOk_conn:
  assumes "conn_step s s'" and ok: "countsOk s"
  shows "countsOk s'"
  using assms(1)
proof (cases rule: conn_step.cases)
  case connArrives
  then show ?thesis using countsOk_arrive [OF ok] by simp
next
  case (connExpired i)
  show ?thesis
    by (rule countsOk_move [OF ok, of i s' "Gone"]) (use connExpired in \<open>simp_all add:  phase_weights held_counts\<close>)
next
  case (connRegisters i)
  show ?thesis
    by (rule countsOk_move [OF ok, of i s' "if Root (sessionGrant s) \<noteq> [] \<and> rootPresent i (roots s) = None then Gone else ConnRegistered"])
      (use connRegisters in \<open>auto simp: stepConnRegister_def phase_weights split: option.splits\<close>)
next
  case (connSuperseded i)
  show ?thesis
    by (rule countsOk_move [OF ok, of i s' "ConnLeaving"]) (use connSuperseded in \<open>simp_all add:  phase_weights held_counts\<close>)
next
  case (connGrants i b)
  show ?thesis
    by (rule countsOk_move [OF ok, of i s' "if b then ConnGranted else ConnLeaving"]) (use connGrants in \<open>simp_all add: stepConnGrant_def phase_weights held_counts\<close>)
next
  case (connCounted i)
  obtain hg n where hd: "holding (held s) (serverPending s) = (hg, n)" by fastforce
  from hd held_counts(5) [OF hd] show ?thesis
    by (intro countsOk_move [OF ok, of i s' ConnHeld])
      (use connCounted in \<open>auto simp: stepConnCount_def Let_def phase_weights\<close>)
next
  case (connEnds i)
  show ?thesis
    by (rule countsOk_move [OF ok, of i s' "ConnEnding"]) (use connEnds in \<open>simp_all add:  phase_weights held_counts\<close>)
next
  case (connReleasing i)
  show ?thesis
    by (rule countsOk_move [OF ok, of i s' "ConnLeaving"]) (use connReleasing in \<open>simp_all add: stepReleased_def phase_weights held_counts\<close>)
next
  case (connLeaves i)
  show ?thesis
    by (rule countsOk_move [OF ok, of i s' "Gone"]) (use connLeaves in \<open>simp_all add: stepConnLeave_def phase_weights held_counts\<close>)
qed

lemma countsOk_deadline:
  assumes "deadline_step s s'" and ok: "countsOk s"
  shows "countsOk s'"
  using assms(1)
proof (cases rule: deadline_step.cases)
  case (watches)
  then show ?thesis using countsOk_held [OF ok, of "watch (held s)"] by (simp add: held_counts)
next
  case (deadlines t)
  then show ?thesis using countsOk_held [OF ok, of "snd (deadline t (held s))"] by (simp add: held_counts)
next
  case (unwatches h n)
  then show ?thesis using countsOk_held [OF ok, of h n] held_counts(12) [of "held s"] by simp
qed

lemma countsOk_step: "session_step s s' \<Longrightarrow> countsOk s \<Longrightarrow> countsOk s'"
  by (induction rule: session_step.induct) (blast intro: countsOk_ticket countsOk_conn countsOk_deadline)+

section \<open>The key of an anonymous session\<close>

text \<open>What a presentation and the usage calls tell of the key and of whether it is settled.\<close>

definition boundOk :: "string \<Rightarrow> bool \<Rightarrow> presentation \<Rightarrow> bool" where
  "boundOk k op p \<longleftrightarrow>
     (flying (phase p) \<or> granted (phase p) \<or> phase p = Verified \<longrightarrow> kid p \<noteq> [])
     \<and> (flying (phase p) \<or> granted (phase p) \<longrightarrow> kid p = k) \<and> (granted (phase p) \<longrightarrow> op)"

definition usageOk :: "heldGrants \<Rightarrow> (string \<times> bool) list \<Rightarrow> bool" where
  "usageOk h bs \<longleftrightarrow>
     (if opened h then key h \<noteq> [] \<and> (\<exists>b. bs = [(key h, b)]) else bs = [])
     \<and> (\<not> opened h \<and> inFlight h = 0 \<longrightarrow> key h = [])"

definition bindsOk :: "session \<Rightarrow> bool" where
  "bindsOk s \<longleftrightarrow>
     (\<forall>p \<in> set (presentations s). boundOk (key (held s)) (opened (held s)) p) \<and> usageOk (held s) (binds s)"

lemma boundOk_rebind: "boundOk k op p \<Longrightarrow> k = [] \<or> k = k' \<Longrightarrow> boundOk k' op p"
  unfolding boundOk_def by blast

lemma ball_update: "\<forall>x \<in> set xs. P x \<Longrightarrow> P y \<Longrightarrow> \<forall>x \<in> set (xs[i := y]). P x"
  using set_update_subset_insert [of xs i y] by blast

lemma bindsOk_at: "bindsOk s \<Longrightarrow> i < length (presentations s) \<Longrightarrow> boundOk (key (held s)) (opened (held s)) (presentations s ! i)"
  by (simp add: bindsOk_def)

lemma bindsOk_move:
  assumes ok: "bindsOk s" and i: "i < length (presentations s)"
    and pres: "presentations s' = (presentations s)[i := (presentations s ! i) \<lparr>phase := ph\<rparr>]"
    and same: "key (held s') = key (held s)" "opened (held s') = opened (held s)" "binds s' = binds s"
      "inFlight (held s') = inFlight (held s)"
    and fly: "flying ph \<longrightarrow> flying (phase (presentations s ! i))" "granted ph \<longrightarrow> granted (phase (presentations s ! i))"
      "ph \<noteq> Verified"
  shows "bindsOk s'"
proof -
  have "boundOk (key (held s)) (opened (held s)) ((presentations s ! i) \<lparr>phase := ph\<rparr>)"
    using bindsOk_at [OF ok i] fly by (auto simp: boundOk_def)
  with ok have "\<forall>p \<in> set (presentations s'). boundOk (key (held s)) (opened (held s)) p"
    unfolding pres by (intro ball_update) (simp_all add: bindsOk_def)
  moreover have "usageOk (held s') (binds s')" using ok same by (simp add: bindsOk_def usageOk_def)
  ultimately show ?thesis by (simp add: bindsOk_def same)
qed

lemma held_keys:
  "key (fst (holding h n)) = key h" "opened (fst (holding h n)) = opened h" "inFlight (fst (holding h n)) = inFlight h"
  "key (released h) = key h" "opened (released h) = opened h" "inFlight (released h) = inFlight h"
  "key (watch h) = key h" "opened (watch h) = opened h" "inFlight (watch h) = inFlight h"
  "key (snd (deadline t h)) = key h" "opened (snd (deadline t h)) = opened h" "inFlight (snd (deadline t h)) = inFlight h"
  "key (fst (unwatch h n)) = key h" "opened (fst (unwatch h n)) = opened h" "inFlight (fst (unwatch h n)) = inFlight h"
  by (auto simp: holding_def releasePendingLocked_def released_def armLocked_def watch_def deadline_def unwatch_def
      Let_def split: if_splits)

lemma bindsOk_arrive: "bindsOk s \<Longrightarrow> phase p = ConnStart \<or> phase p = Verified \<and> kid p \<noteq> [] \<Longrightarrow> bindsOk (arrive p s)"
  by (auto simp: bindsOk_def boundOk_def arrive_def flying_def granted_def)

lemma no_flying:
  assumes "inFlight (held s) = 0" and "countsOk s" and "anonymous s" and "p \<in> set (presentations s)"
  shows "\<not> flying (phase p)"
proof -
  have "0 \<le> x" if "x \<in> set (map flyingOf (presentations s))" for x using that by (auto simp: flyingOf_def)
  moreover have "sum_list (map flyingOf (presentations s)) = 0" using assms(1-3) by (simp add: countsOk_def total_def)
  ultimately have "\<forall>x \<in> set (map flyingOf (presentations s)). x = 0" using sum_list_nonneg_eq_0_iff by blast
  with assms(4) have "flyingOf p = 0" by simp
  then show ?thesis by (auto simp: flyingOf_def)
qed

lemma flying_nonneg: "0 \<le> total flyingOf s"
  unfolding total_def by (rule sum_list_nonneg) (auto simp: flyingOf_def)

text \<open>Binding, refusing and granting change the key.\<close>

lemma bindsOk_bind:
  assumes ok: "bindsOk s" and c: "countsOk s" and anon: "anonymous s" and at: "at s i Verified"
  shows "bindsOk (stepBind i s)"
proof -
  let ?p = "presentations s ! i"
  have mem: "?p \<in> set (presentations s)" using at by simp
  obtain b h where bt: "bindTicket (kid ?p) (held s) = (b, h)" by fastforce
  note sp = bindTicket_spec [OF bt]
  show ?thesis
  proof (cases b)
    case False
    show ?thesis
      by (rule bindsOk_move [OF ok, of i _ Gone])
        (use at anon bt False sp(3) in \<open>simp_all add: stepBind_def flying_def granted_def\<close>)
  next
    case True
    let ?s = "setPhase (s \<lparr>held := h\<rparr>) i Bound"
    have k: "kid ?p \<noteq> []" using bindsOk_at [OF ok, of i] at by (auto simp: boundOk_def)
    have h: "key (held s) = [] \<or> key (held s) = kid ?p" "key h = kid ?p" "opened h = opened (held s)"
      using sp True by auto
    have old: "boundOk (key h) (opened h) p" if "p \<in> set (presentations s)" for p
    proof -
      have "boundOk (key (held s)) (opened (held s)) p" using ok that by (simp add: bindsOk_def)
      then show ?thesis using h(1) unfolding h(2,3) by (rule boundOk_rebind)
    qed
    then have "\<forall>p \<in> set (presentations s). boundOk (key h) (opened h) p" by blast
    moreover have "boundOk (key h) (opened h) (?p \<lparr>phase := Bound\<rparr>)" using k h by (simp add: boundOk_def flying_def granted_def)
    ultimately have "\<forall>p \<in> set ((presentations s)[i := ?p \<lparr>phase := Bound\<rparr>]). boundOk (key h) (opened h) p"
      by (rule ball_update)
    then have "\<forall>p \<in> set (presentations ?s). boundOk (key h) (opened h) p" by simp
    moreover have "usageOk h (binds s)"
    proof -
      have "inFlight h > 0" using sp(2) True c anon flying_nonneg [of s] by (simp add: countsOk_def)
      with ok h k show ?thesis by (auto simp: bindsOk_def usageOk_def)
    qed
    moreover have "stepBind i s = ?s" using anon bt True by (simp add: stepBind_def)
    ultimately show ?thesis by (simp add: bindsOk_def)
  qed
qed

text \<open>A ticket that is refused undoes a binding no grant holds.\<close>

lemma bindsOk_refused:
  assumes ok: "bindsOk s" and c: "countsOk s'" and anon: "anonymous s'" and i: "i < length (presentations s)"
    and pres: "presentations s' = (presentations s)[i := (presentations s ! i) \<lparr>phase := Gone\<rparr>]"
    and held: "held s' = settleRefused (held s)" and bs: "binds s' = binds s"
  shows "bindsOk s'"
proof (cases "\<not> opened (held s) \<and> inFlight (held s) - 1 = 0")
  case True
  then have h: "key (held s') = []" "inFlight (held s') = 0" "\<not> opened (held s')"
    by (auto simp: held settleRefused_def Let_def)
  have "\<not> granted (phase p)" if "p \<in> set (presentations s')" for p
  proof -
    have "\<forall>p \<in> set (presentations s'). \<not> granted (phase p)"
      unfolding pres using ok True by (intro ball_update) (auto simp: bindsOk_def boundOk_def granted_def)
    with that show ?thesis by blast
  qed
  moreover have "\<forall>p \<in> set (presentations s'). phase p = Verified \<longrightarrow> kid p \<noteq> []"
    unfolding pres using ok by (intro ball_update) (auto simp: bindsOk_def boundOk_def)
  ultimately have "\<forall>p \<in> set (presentations s'). boundOk (key (held s')) (opened (held s')) p"
    using no_flying [OF h(2) c anon] by (auto simp: boundOk_def)
  moreover have "usageOk (held s') (binds s')" using ok True h by (simp add: bs bindsOk_def usageOk_def)
  ultimately show ?thesis by (simp add: bindsOk_def)
next
  case False
  then have h: "key (held s') = key (held s)" "opened (held s') = opened (held s)" "inFlight (held s') = inFlight (held s) - 1"
    by (auto simp: held settleRefused_def Let_def)
  have "\<forall>p \<in> set (presentations s'). boundOk (key (held s)) (opened (held s)) p"
    unfolding pres using ok by (intro ball_update) (auto simp: bindsOk_def boundOk_def flying_def granted_def)
  moreover have "usageOk (held s') (binds s')" using ok False h by (auto simp: bs bindsOk_def usageOk_def)
  ultimately show ?thesis by (simp add: bindsOk_def h)
qed

lemma bindsOk_settle:
  assumes ok: "bindsOk s" and c: "countsOk (stepSettle i h cur s)" and anon: "anonymous s" and at: "at s i (Counted h cur)"
  shows "bindsOk (stepSettle i h cur s)"
proof (cases cur)
  case False
  then show ?thesis
    by (intro bindsOk_refused [OF ok c]) (use anon at in \<open>simp_all add: stepSettle_def\<close>)
next
  case True
  let ?p = "presentations s ! i"
  define pub where "pub = (Publish (moqGrant (grantOf ?p)) \<noteq> [])"
  have k: "kid ?p = key (held s)" "kid ?p \<noteq> []" using bindsOk_at [OF ok, of i] at by (auto simp: boundOk_def flying_def)
  obtain call hg where sg: "settleGranted pub (held s) = (call, hg)" by fastforce
  then have h: "key hg = key (held s)" "opened hg"
    and open_call: "\<not> opened (held s) \<Longrightarrow> call = callOpen pub" "opened (held s) \<Longrightarrow> call \<noteq> callOpen b" for b
    by (auto simp: settleGranted_def Let_def split: if_splits)
  let ?s = "stepSettle i h cur s"
  have s': "held ?s = hg" "presentations ?s = (presentations s)[i := ?p \<lparr>phase := InForce h\<rparr>]"
    "binds ?s = (case call of callOpen b \<Rightarrow> (kid ?p, b) # binds s | _ \<Rightarrow> binds s)"
    using True anon sg by (simp_all add: stepSettle_def Let_def pub_def)
  have "\<forall>p \<in> set (presentations ?s). boundOk (key hg) (opened hg) p"
    unfolding s' using ok k h by (intro ball_update) (auto simp: bindsOk_def boundOk_def)
  moreover have "usageOk hg (binds ?s)"
    unfolding s' using ok k h open_call
    by (cases "opened (held s)"; cases call) (auto simp: bindsOk_def usageOk_def)
  ultimately show ?thesis by (simp add: bindsOk_def s')
qed

lemma bindsOk_ticket:
  assumes "ticket_step s s'" and ok: "bindsOk s" and c: "countsOk s" and anon: "anonymous s"
  shows "bindsOk s'"
  using assms(1)
proof (cases rule: ticket_step.cases)
  case (ticketArrives k tg)
  then show ?thesis using bindsOk_arrive [OF ok] by simp
next
  case (binds i)
  then show ?thesis using bindsOk_bind [OF ok c anon] by simp
next
  case (settles i h cur)
  with assms c bindsOk_settle [OF ok _ anon, of i h cur] countsOk_ticket show ?thesis by blast
next
  case (refuses i)
  with assms c countsOk_ticket have "countsOk s'" by blast
  then show ?thesis
    by (rule bindsOk_refused [OF ok, of _ i]) (use refuses anon in \<open>simp_all add: stepRefused_def\<close>)
next
  case (ticketRefused i)
  show ?thesis
    by (rule bindsOk_move [OF ok, of i s' "Gone"])
      (use ticketRefused in \<open>simp_all add:  flying_def granted_def held_keys\<close>)
next
  case (begins i)
  show ?thesis
    by (rule bindsOk_move [OF ok, of i s' "Begun (fst (rootBegin (Root (grantOf (presentations s ! i))) (roleOf (grantOf (presentations s ! i))) (roots s)))"])
      (use begins in \<open>simp_all add: stepBegin_def Let_def split_beta flying_def granted_def held_keys\<close>)
next
  case (checks i h)
  show ?thesis
    by (rule bindsOk_move [OF ok, of i s' "if replaced (holds (roots s)) h then Doomed h else Ready h"])
      (use checks in \<open>simp_all add: stepCheck_def flying_def granted_def held_keys\<close>)
next
  case (grants i h b)
  show ?thesis
    by (rule bindsOk_move [OF ok, of i s' "if b then Applied h else Doomed h"])
      (use grants in \<open>simp_all add: stepGrant_def flying_def granted_def held_keys\<close>)
next
  case (abandons i h)
  show ?thesis
    by (rule bindsOk_move [OF ok, of i s' "Abandoned"])
      (use abandons in \<open>simp_all add: stepAbandon_def flying_def granted_def held_keys\<close>)
next
  case (registers i h)
  show ?thesis
    by (rule bindsOk_move [OF ok, of i s' "Registered h (fst (rootRegister h (roots s)))"])
      (use registers in \<open>simp_all add: stepRegister_def Let_def split_beta flying_def granted_def held_keys\<close>)
next
  case (counted i h cur)
  show ?thesis
    by (rule bindsOk_move [OF ok, of i s' "Counted h cur"])
      (use counted in \<open>simp_all add: stepCount_def Let_def split_beta flying_def granted_def held_keys\<close>)
next
  case (ends i h)
  show ?thesis
    by (rule bindsOk_move [OF ok, of i s' "Ending h"])
      (use ends in \<open>simp_all add:  flying_def granted_def held_keys\<close>)
next
  case (releasing i h)
  show ?thesis
    by (rule bindsOk_move [OF ok, of i s' "Leaving h"])
      (use releasing in \<open>simp_all add: stepReleased_def flying_def granted_def held_keys\<close>)
next
  case (leaves i h)
  show ?thesis
    by (rule bindsOk_move [OF ok, of i s' "Gone"])
      (use leaves in \<open>simp_all add: stepLeave_def flying_def granted_def held_keys\<close>)
qed

lemma bindsOk_conn:
  assumes "conn_step s s'" and ok: "bindsOk s"
  shows "bindsOk s'"
  using assms(1)
proof (cases rule: conn_step.cases)
  case connArrives
  then show ?thesis using bindsOk_arrive [OF ok] by simp
next
  case (connRegisters i)
  show ?thesis
    by (rule bindsOk_move [OF ok, of i s' "if Root (sessionGrant s) \<noteq> [] \<and> rootPresent i (roots s) = None then Gone else ConnRegistered"])
      (use connRegisters in \<open>auto simp: stepConnRegister_def flying_def granted_def split: option.splits\<close>)
next
  case (connExpired i)
  show ?thesis
    by (rule bindsOk_move [OF ok, of i s' "Gone"])
      (use connExpired in \<open>simp_all add:  flying_def granted_def held_keys\<close>)
next
  case (connSuperseded i)
  show ?thesis
    by (rule bindsOk_move [OF ok, of i s' "ConnLeaving"])
      (use connSuperseded in \<open>simp_all add:  flying_def granted_def held_keys\<close>)
next
  case (connGrants i b)
  show ?thesis
    by (rule bindsOk_move [OF ok, of i s' "if b then ConnGranted else ConnLeaving"])
      (use connGrants in \<open>simp_all add: stepConnGrant_def flying_def granted_def held_keys\<close>)
next
  case (connCounted i)
  show ?thesis
    by (rule bindsOk_move [OF ok, of i s' "ConnHeld"])
      (use connCounted in \<open>simp_all add: stepConnCount_def Let_def split_beta flying_def granted_def held_keys\<close>)
next
  case (connEnds i)
  show ?thesis
    by (rule bindsOk_move [OF ok, of i s' "ConnEnding"])
      (use connEnds in \<open>simp_all add:  flying_def granted_def held_keys\<close>)
next
  case (connReleasing i)
  show ?thesis
    by (rule bindsOk_move [OF ok, of i s' "ConnLeaving"])
      (use connReleasing in \<open>simp_all add: stepReleased_def flying_def granted_def held_keys\<close>)
next
  case (connLeaves i)
  show ?thesis
    by (rule bindsOk_move [OF ok, of i s' "Gone"])
      (use connLeaves in \<open>simp_all add: stepConnLeave_def flying_def granted_def held_keys\<close>)
qed

lemma bindsOk_deadline: "deadline_step s s' \<Longrightarrow> bindsOk s \<Longrightarrow> bindsOk s'"
proof (induction rule: deadline_step.induct)
  case (unwatches s h n)
  then have "h = fst (unwatch (held s) (serverPending s))" by simp
  with unwatches show ?case by (simp add: bindsOk_def usageOk_def held_keys)
qed (simp_all add: bindsOk_def usageOk_def held_keys)

lemma anonymous_step: "session_step s s' \<Longrightarrow> anonymous s' = anonymous s \<and> sessionGrant s' = sessionGrant s"
proof (induction rule: session_step.induct)
  case (ticket s t)
  then show ?case
    by (cases rule: ticket_step.cases)
      (auto simp: arrive_def stepBind_def stepBegin_def stepCheck_def stepGrant_def stepAbandon_def stepRefused_def
        stepRegister_def stepCount_def stepSettle_def stepReleased_def stepLeave_def Let_def split_beta)
next
  case (connection s t)
  then show ?case
    by (cases rule: conn_step.cases)
      (auto simp: arrive_def stepConnRegister_def stepConnGrant_def stepConnCount_def stepReleased_def
        stepConnLeave_def Let_def split_beta split: option.splits)
next
  case (anonymousDeadline s t)
  then show ?case by (cases rule: deadline_step.cases) auto
qed

lemma bindsOk_step: "session_step s s' \<Longrightarrow> bindsOk s \<Longrightarrow> countsOk s \<Longrightarrow> anonymous s \<Longrightarrow> bindsOk s'"
  by (induction rule: session_step.induct) (blast intro: bindsOk_ticket bindsOk_conn bindsOk_deadline)+

lemma session_ok:
  "session_reach anon k g n s \<Longrightarrow> countsOk s \<and> anonymous s = anon \<and> sessionGrant s = g \<and> (anon \<longrightarrow> bindsOk s)"
proof (induction rule: session_reach.induct)
  case start
  show ?case by (simp add: newSession_def countsOk_def total_def bindsOk_def usageOk_def newHeld_def countPending_def maxCredentials_def)
next
  case (step s t)
  then show ?case using countsOk_step [OF step(2)] bindsOk_step [OF step(2)] anonymous_step [OF step(2)] by blast
qed

end
