(* ===== verification/Admission_Roots.thy ===== *)
theory Admission_Roots
  imports Admission
begin

text \<open>
  The handlers and the credentials of each root: every step of a session is a step of the protocol of
  \<open>Root_Holds\<close> or leaves the root credentials alone, so that what is proved there holds for the handlers
  in every interleaving; and the properties of sessions that follow.
\<close>

section \<open>The handlers use the root credentials as they are meant to\<close>

definition begunOf :: "presentation \<Rightarrow> withdrawal multiset" where
  "begunOf p = (case phase p of Begun h \<Rightarrow> {#h#} | Ready h \<Rightarrow> {#h#} | Doomed h \<Rightarrow> {#h#} | Applied h \<Rightarrow> {#h#} | _ \<Rightarrow> {#})"

definition currentOf :: "presentation \<Rightarrow> withdrawal multiset" where
  "currentOf p = (case phase p of Registered h cur \<Rightarrow> (if cur then {#h#} else {#})
     | Counted h cur \<Rightarrow> (if cur then {#h#} else {#}) | InForce h \<Rightarrow> {#h#} | Ending h \<Rightarrow> {#h#} | Leaving h \<Rightarrow> {#h#} | _ \<Rightarrow> {#})"

text \<open>The connection's credential is registered, or was.\<close>

definition connIn :: "phase \<Rightarrow> bool" where
  "connIn ph \<longleftrightarrow> ph \<in> {ConnRegistered, ConnGranted, ConnHeld, ConnEnding, ConnLeaving}"

definition connsOkAt :: "session \<Rightarrow> bool" where
  "connsOkAt s \<longleftrightarrow>
     (\<forall>i < length (presentations s). connIn (phase (presentations s ! i)) \<and> Root (sessionGrant s) \<noteq> []
        \<longrightarrow> i \<in> set (presented (roots s)))
     \<and> (\<forall>i \<in> set (presented (roots s)) \<union> withdrawnConns (roots s).
          i < length (presentations s) \<and> (connIn (phase (presentations s ! i)) \<or> phase (presentations s ! i) = Gone))"

definition rootsInv :: "session \<Rightarrow> bool" where
  "rootsInv s \<longleftrightarrow>
     root_reach (Root (sessionGrant s)) (roots s)
     \<and> mset (begun (roots s)) = total begunOf s \<and> mset (current (roots s)) = total currentOf s \<and> connsOkAt s"

lemma total_member:
  "i < length (presentations s) \<Longrightarrow> h \<in># f (presentations s ! i) \<Longrightarrow> h \<in># total f s"
proof -
  have "h \<in># sum_list (map f xs) \<longleftrightarrow> (\<exists>x \<in> set xs. h \<in># f x)" for xs by (induction xs) auto
  then show "i < length (presentations s) \<Longrightarrow> h \<in># f (presentations s ! i) \<Longrightarrow> h \<in># total f s"
    unfolding total_def by auto
qed

lemma connsOkAt_move:
  assumes ok: "connsOkAt s" and i: "i < length (presentations s)"
    and pres: "presentations s' = (presentations s)[i := (presentations s ! i) \<lparr>phase := ph\<rparr>]"
    and grant: "sessionGrant s' = sessionGrant s"
    and old: "\<And>j. j \<noteq> i \<Longrightarrow> j \<in> set (presented (roots s)) \<Longrightarrow> j \<in> set (presented (roots s'))"
    and new: "set (presented (roots s')) \<union> withdrawnConns (roots s')
        \<subseteq> set (presented (roots s)) \<union> withdrawnConns (roots s) \<union> (if connIn ph then {i} else {})"
    and at: "connIn ph \<and> Root (sessionGrant s) \<noteq> [] \<longrightarrow> i \<in> set (presented (roots s'))"
    and past: "connIn (phase (presentations s ! i)) \<or> phase (presentations s ! i) = Gone \<longrightarrow> connIn ph \<or> ph = Gone"
  shows "connsOkAt s'"
proof -
  have ph: "phase (presentations s' ! j) = (if j = i then ph else phase (presentations s ! j))"
    if "j < length (presentations s)" for j using that by (simp add: pres)
  have len: "length (presentations s') = length (presentations s)" by (simp add: pres)
  have "j \<in> set (presented (roots s'))"
    if "j < length (presentations s')" "connIn (phase (presentations s' ! j))" "Root (sessionGrant s') \<noteq> []" for j
    using that ok at old [of j] ph [of j] by (cases "j = i") (auto simp: connsOkAt_def len grant)
  moreover have "j < length (presentations s') \<and> (connIn (phase (presentations s' ! j)) \<or> phase (presentations s' ! j) = Gone)"
    if "j \<in> set (presented (roots s')) \<union> withdrawnConns (roots s')" for j
  proof -
    have all: "\<forall>i \<in> set (presented (roots s)) \<union> withdrawnConns (roots s).
        i < length (presentations s) \<and> (connIn (phase (presentations s ! i)) \<or> phase (presentations s ! i) = Gone)"
      using ok by (simp add: connsOkAt_def)
    show ?thesis
    proof (cases "j = i")
      case True
      have "connIn ph \<or> ph = Gone"
      proof (cases "connIn ph")
        case False
        with that new True have "i \<in> set (presented (roots s)) \<union> withdrawnConns (roots s)" by auto
        with all past show ?thesis by blast
      qed simp
      with True i ph [of i] len show ?thesis by simp
    next
      case False
      with that new have "j \<in> set (presented (roots s)) \<union> withdrawnConns (roots s)" by (auto split: if_splits)
      with all have "j < length (presentations s)"
        "connIn (phase (presentations s ! j)) \<or> phase (presentations s ! j) = Gone" by blast+
      with False ph [of j] len show ?thesis by simp
    qed
  qed
  ultimately show ?thesis unfolding connsOkAt_def by blast
qed

lemma rootsInv_move:
  assumes ok: "rootsInv s" and i: "i < length (presentations s)"
    and pres: "presentations s' = (presentations s)[i := (presentations s ! i) \<lparr>phase := ph\<rparr>]"
    and grant: "sessionGrant s' = sessionGrant s"
    and step: "roots s' = roots s \<or> root_step (roots s) (roots s')"
    and sums: "mset (begun (roots s')) + begunOf (presentations s ! i)
        = mset (begun (roots s)) + begunOf ((presentations s ! i) \<lparr>phase := ph\<rparr>)"
      "mset (current (roots s')) + currentOf (presentations s ! i)
        = mset (current (roots s)) + currentOf ((presentations s ! i) \<lparr>phase := ph\<rparr>)"
    and conns: "connsOkAt s \<Longrightarrow> connsOkAt s'"
  shows "rootsInv s'"
proof -
  have reach: "root_reach (Root (sessionGrant s')) (roots s')"
    using ok step root_reach.step unfolding grant rootsInv_def by fastforce
  have t: "total begunOf s' + begunOf (presentations s ! i) = total begunOf s + begunOf ((presentations s ! i) \<lparr>phase := ph\<rparr>)"
    "total currentOf s' + currentOf (presentations s ! i) = total currentOf s + currentOf ((presentations s ! i) \<lparr>phase := ph\<rparr>)"
    by (rule total_move [OF i pres])+
  have "mset (begun (roots s)) = total begunOf s" "mset (current (roots s)) = total currentOf s"
    using ok by (simp_all add: rootsInv_def)
  with sums t have "mset (begun (roots s')) = total begunOf s'" "mset (current (roots s')) = total currentOf s'"
    by (metis add_right_cancel)+
  with reach conns ok show ?thesis by (simp add: rootsInv_def)
qed

text \<open>A move that leaves the root credentials alone.\<close>

lemma rootsInv_plain:
  assumes ok: "rootsInv s" and i: "i < length (presentations s)"
    and pres: "presentations s' = (presentations s)[i := (presentations s ! i) \<lparr>phase := ph\<rparr>]"
    and same: "sessionGrant s' = sessionGrant s" "roots s' = roots s"
    and weights: "begunOf ((presentations s ! i) \<lparr>phase := ph\<rparr>) = begunOf (presentations s ! i)"
      "currentOf ((presentations s ! i) \<lparr>phase := ph\<rparr>) = currentOf (presentations s ! i)"
    and conn: "connIn ph \<longrightarrow> connIn (phase (presentations s ! i)) \<or> Root (sessionGrant s) = []"
      "connIn (phase (presentations s ! i)) \<or> phase (presentations s ! i) = Gone \<longrightarrow> connIn ph \<or> ph = Gone"
  shows "rootsInv s'"
proof (rule rootsInv_move [OF ok i pres same(1)])
  show "connsOkAt s'" if "connsOkAt s"
    by (rule connsOkAt_move [OF that i pres same(1)])
      (use that i conn same in \<open>auto simp: connsOkAt_def split: if_splits\<close>)
qed (simp_all add: same weights)

lemma rootsInv_arrive: "rootsInv s \<Longrightarrow> phase p \<in> {Verified, ConnStart} \<Longrightarrow> rootsInv (arrive p s)"
proof -
  assume ok: "rootsInv s" and p: "phase p \<in> {Verified, ConnStart}"
  have "connsOkAt (s \<lparr>credentials := c, presentations := presentations s @ [p]\<rparr>)" for c
    using ok p unfolding rootsInv_def connsOkAt_def by (auto simp: nth_append connIn_def less_Suc_eq)
  with ok p show "rootsInv (arrive p s)"
    by (auto simp: arrive_def rootsInv_def total_def begunOf_def currentOf_def)
qed

text \<open>The four calls of \<open>serveTicket\<close>.\<close>

lemma rootsInv_begins:
  assumes ok: "rootsInv s" and at: "at s i Bound"
  shows "rootsInv (stepBegin i s)"
proof -
  let ?tg = "grantOf (presentations s ! i)"
  obtain h r where b: "beginTicket (Root ?tg) (roleOf ?tg) (holds (roots s)) = (h, r)" by fastforce
  let ?r = "roots s \<lparr>holds := r, begun := h # begun (roots s)\<rparr>"
  have s': "roots (stepBegin i s) = ?r" "presentations (stepBegin i s) = (presentations s)[i := (presentations s ! i) \<lparr>phase := Begun h\<rparr>]"
    "sessionGrant (stepBegin i s) = sessionGrant s" using b by (simp_all add: stepBegin_def rootBegin_def Let_def)
  show ?thesis
  proof (rule rootsInv_move [OF ok _ s'(2,3)])
    show "roots (stepBegin i s) = roots s \<or> root_step (roots s) (roots (stepBegin i s))"
      using root_step.begins [OF b] s'(1) by simp
    show "connsOkAt (stepBegin i s)" if "connsOkAt s"
      by (rule connsOkAt_move [OF that _ s'(2,3)]) (use at in \<open>auto simp: s' connIn_def\<close>)
  qed (use at in \<open>simp_all add: s' begunOf_def currentOf_def\<close>)
qed

lemma rootsInv_abandons:
  assumes ok: "rootsInv s" and at: "at s i (Doomed h)"
  shows "rootsInv (stepAbandon i h s)"
proof -
  have h: "h \<in> set (begun (roots s))"
    using ok at total_member [of i s h begunOf] by (simp add: rootsInv_def begunOf_def flip: set_mset_mset)
  let ?s = "stepAbandon i h s"
  have s': "roots ?s = rootAbandon h (roots s)" "presentations ?s = (presentations s)[i := (presentations s ! i) \<lparr>phase := Abandoned\<rparr>]"
    "sessionGrant ?s = sessionGrant s" by (simp_all add: stepAbandon_def)
  show ?thesis
  proof (rule rootsInv_move [OF ok _ s'(2,3)])
    show "roots ?s = roots s \<or> root_step (roots s) (roots ?s)"
      using root_step.abandons [OF h] s'(1) by (simp add: rootAbandon_def)
    show "connsOkAt ?s" if "connsOkAt s"
      by (rule connsOkAt_move [OF that _ s'(2,3)]) (use at in \<open>auto simp: s' rootAbandon_def connIn_def\<close>)
  qed (use at h in \<open>simp_all add: s' rootAbandon_def begunOf_def currentOf_def\<close>)
qed

lemma rootsInv_registers:
  assumes ok: "rootsInv s" and at: "at s i (Applied h)"
  shows "rootsInv (stepRegister i h s)"
proof -
  have h: "h \<in> set (begun (roots s))"
    using ok at total_member [of i s h begunOf] by (simp add: rootsInv_def begunOf_def flip: set_mset_mset)
  obtain ws cs cur r where reg: "registerTicket h (holds (roots s)) = (ws, cs, cur, r)" by (metis prod_cases4)
  let ?s = "stepRegister i h s"
  let ?r = "roots s \<lparr>holds := r, begun := remove1 h (begun (roots s)),
      current := (if cur then h # current (roots s) else current (roots s)),
      registered := insert h (registered (roots s)), superseded := superseded (roots s) \<union> set ws,
      withdrawnConns := withdrawnConns (roots s) \<union> set cs\<rparr>"
  have s': "roots ?s = ?r" "presentations ?s = (presentations s)[i := (presentations s ! i) \<lparr>phase := Registered h cur\<rparr>]"
    "sessionGrant ?s = sessionGrant s" using reg by (simp_all add: stepRegister_def rootRegister_def Let_def)
  have "set cs \<subseteq> set (conns (holds (roots s)))" using registerTicket_simps [OF reg] by (auto split: if_splits)
  moreover have "connsOk (roots s)" using ok root_reach_ok by (auto simp: rootsInv_def rootRunOk_def)
  ultimately have cs: "set cs \<subseteq> set (presented (roots s))" by (auto simp: connsOk_def)
  show ?thesis
  proof (rule rootsInv_move [OF ok _ s'(2,3)])
    show "roots ?s = roots s \<or> root_step (roots s) (roots ?s)"
      using root_step.registers [OF h reg] s'(1) by simp
    show "connsOkAt ?s" if "connsOkAt s"
      by (rule connsOkAt_move [OF that _ s'(2,3)]) (use at cs in \<open>auto simp: s' connIn_def\<close>)
  qed (use at h in \<open>auto simp: s' begunOf_def currentOf_def\<close>)
qed

lemma rootsInv_leaves:
  assumes ok: "rootsInv s" and at: "at s i (Leaving h)"
  shows "rootsInv (stepLeave i h s)"
proof -
  have h: "h \<in> set (current (roots s))"
    using ok at total_member [of i s h currentOf] by (simp add: rootsInv_def currentOf_def flip: set_mset_mset)
  let ?s = "stepLeave i h s"
  have s': "roots ?s = rootRelease h (roots s)" "presentations ?s = (presentations s)[i := (presentations s ! i) \<lparr>phase := Gone\<rparr>]"
    "sessionGrant ?s = sessionGrant s" by (simp_all add: stepLeave_def)
  show ?thesis
  proof (rule rootsInv_move [OF ok _ s'(2,3)])
    show "roots ?s = roots s \<or> root_step (roots s) (roots ?s)"
      using root_step.releases [OF h] s'(1) by (simp add: rootRelease_def)
    show "connsOkAt ?s" if "connsOkAt s"
      by (rule connsOkAt_move [OF that _ s'(2,3)]) (use at in \<open>auto simp: s' rootRelease_def connIn_def\<close>)
  qed (use at h in \<open>simp_all add: s' rootRelease_def begunOf_def currentOf_def\<close>)
qed

text \<open>The two calls of \<open>serveConnection\<close>.\<close>

lemma rootsInv_connRegisters:
  assumes ok: "rootsInv s" and at: "at s i ConnStart"
  shows "rootsInv (stepConnRegister i s)"
proof (cases "Root (sessionGrant s) = [] \<or> rootPresent i (roots s) = None")
  case True
  show ?thesis
    by (rule rootsInv_plain [OF ok, of i _ "if Root (sessionGrant s) = [] then ConnRegistered else Gone"])
      (use at True in \<open>auto simp: stepConnRegister_def begunOf_def currentOf_def connIn_def\<close>)
next
  case False
  then obtain hs where reg: "registerConnection i (holds (roots s)) = Some hs" and root: "Root (sessionGrant s) \<noteq> []"
    by (auto simp: rootPresent_def split: option.splits)
  let ?s = "stepConnRegister i s"
  have s': "roots ?s = roots s \<lparr>holds := hs, presented := i # presented (roots s)\<rparr>"
    "presentations ?s = (presentations s)[i := (presentations s ! i) \<lparr>phase := ConnRegistered\<rparr>]"
    "sessionGrant ?s = sessionGrant s"
    using reg root by (simp_all add: stepConnRegister_def rootPresent_def)
  have "i \<notin> set (presented (roots s)) \<union> withdrawnConns (roots s)"
  proof
    assume "i \<in> set (presented (roots s)) \<union> withdrawnConns (roots s)"
    with ok have "connIn (phase (presentations s ! i)) \<or> phase (presentations s ! i) = Gone"
      unfolding rootsInv_def connsOkAt_def by blast
    with at show False by (simp add: connIn_def)
  qed
  note step = root_step.presents [OF this reg]
  show ?thesis
  proof (rule rootsInv_move [OF ok _ s'(2,3)])
    show "roots ?s = roots s \<or> root_step (roots s) (roots ?s)" using step s'(1) by simp
    show "connsOkAt ?s" if "connsOkAt s"
      by (rule connsOkAt_move [OF that _ s'(2,3)]) (use at in \<open>auto simp: s' connIn_def\<close>)
  qed (use at in \<open>simp_all add: s' begunOf_def currentOf_def\<close>)
qed

lemma rootsInv_connLeaves:
  assumes ok: "rootsInv s" and at: "at s i ConnLeaving"
  shows "rootsInv (stepConnLeave i s)"
proof (cases "Root (sessionGrant s) = []")
  case True
  show ?thesis
    by (rule rootsInv_plain [OF ok, of i _ Gone])
      (use at True in \<open>simp_all add: stepConnLeave_def begunOf_def currentOf_def connIn_def\<close>)
next
  case False
  have mem: "i \<in> set (presented (roots s))"
  proof -
    have "\<forall>i < length (presentations s). connIn (phase (presentations s ! i)) \<and> Root (sessionGrant s) \<noteq> []
        \<longrightarrow> i \<in> set (presented (roots s))" using ok by (simp add: rootsInv_def connsOkAt_def)
    moreover have "connIn (phase (presentations s ! i))" using at by (simp add: connIn_def)
    ultimately show ?thesis using at False by blast
  qed
  have dist: "distinct (presented (roots s))"
  proof -
    have "root_reach (Root (sessionGrant s)) (roots s)" using ok by (simp add: rootsInv_def)
    from root_reach_ok [OF this] show ?thesis by (simp add: rootRunOk_def connsOk_def)
  qed
  let ?s = "stepConnLeave i s"
  have s': "roots ?s = rootLeave i (roots s)" "presentations ?s = (presentations s)[i := (presentations s ! i) \<lparr>phase := Gone\<rparr>]"
    "sessionGrant ?s = sessionGrant s" using False by (simp_all add: stepConnLeave_def)
  show ?thesis
  proof (rule rootsInv_move [OF ok _ s'(2,3)])
    show "roots ?s = roots s \<or> root_step (roots s) (roots ?s)"
      using root_step.leaves [OF mem] s'(1) by (simp add: rootLeave_def)
    show "connsOkAt ?s" if "connsOkAt s"
      by (rule connsOkAt_move [OF that _ s'(2,3)]) (use at dist in \<open>auto simp: s' rootLeave_def connIn_def\<close>)
  qed (use at in \<open>simp_all add: s' rootLeave_def begunOf_def currentOf_def\<close>)
qed

lemma rootsInv_ticket:
  assumes "ticket_step s s'" and ok: "rootsInv s"
  shows "rootsInv s'"
  using assms(1)
proof (cases rule: ticket_step.cases)
  case (ticketArrives k tg)
  then show ?thesis using rootsInv_arrive [OF ok] by simp
next
  case (ticketRefused i)
  show ?thesis
    by (rule rootsInv_plain [OF ok, of i s' "Gone"])
      (use ticketRefused in \<open>simp_all add:  begunOf_def currentOf_def connIn_def\<close>)
next
  case (binds i)
  show ?thesis
    by (rule rootsInv_plain [OF ok, of i s' "if anonymous s \<and> \<not> fst (bindTicket (kid (presentations s ! i)) (held s)) then Gone else Bound"])
      (use binds in \<open>auto simp: stepBind_def Let_def split_beta begunOf_def currentOf_def connIn_def\<close>)
next
  case (checks i h)
  show ?thesis
    by (rule rootsInv_plain [OF ok, of i s' "if replaced (holds (roots s)) h then Doomed h else Ready h"])
      (use checks in \<open>simp_all add: stepCheck_def begunOf_def currentOf_def connIn_def\<close>)
next
  case (grants i h b)
  show ?thesis
    by (rule rootsInv_plain [OF ok, of i s' "if b then Applied h else Doomed h"])
      (use grants in \<open>simp_all add: stepGrant_def begunOf_def currentOf_def connIn_def\<close>)
next
  case (refuses i)
  show ?thesis
    by (rule rootsInv_plain [OF ok, of i s' "Gone"])
      (use refuses in \<open>simp_all add: stepRefused_def begunOf_def currentOf_def connIn_def\<close>)
next
  case (counted i h cur)
  show ?thesis
    by (rule rootsInv_plain [OF ok, of i s' "Counted h cur"])
      (use counted in \<open>simp_all add: stepCount_def Let_def split_beta begunOf_def currentOf_def connIn_def\<close>)
next
  case (settles i h cur)
  show ?thesis
    by (rule rootsInv_plain [OF ok, of i s' "if cur then InForce h else Gone"])
      (use settles in \<open>simp_all add: stepSettle_def Let_def split_beta begunOf_def currentOf_def connIn_def\<close>)
next
  case (ends i h)
  show ?thesis
    by (rule rootsInv_plain [OF ok, of i s' "Ending h"])
      (use ends in \<open>simp_all add:  begunOf_def currentOf_def connIn_def\<close>)
next
  case (releasing i h)
  show ?thesis
    by (rule rootsInv_plain [OF ok, of i s' "Leaving h"])
      (use releasing in \<open>simp_all add: stepReleased_def begunOf_def currentOf_def connIn_def\<close>)
qed (use rootsInv_begins [OF ok] rootsInv_abandons [OF ok] rootsInv_registers [OF ok] rootsInv_leaves [OF ok] in auto)

lemma rootsInv_conn:
  assumes "conn_step s s'" and ok: "rootsInv s"
  shows "rootsInv s'"
  using assms(1)
proof (cases rule: conn_step.cases)
  case connArrives
  then show ?thesis using rootsInv_arrive [OF ok] by simp
next
  case (connExpired i)
  show ?thesis
    by (rule rootsInv_plain [OF ok, of i s' "Gone"])
      (use connExpired in \<open>simp_all add:  begunOf_def currentOf_def connIn_def\<close>)
next
  case (connSuperseded i)
  show ?thesis
    by (rule rootsInv_plain [OF ok, of i s' "ConnLeaving"])
      (use connSuperseded in \<open>simp_all add:  begunOf_def currentOf_def connIn_def\<close>)
next
  case (connGrants i b)
  show ?thesis
    by (rule rootsInv_plain [OF ok, of i s' "if b then ConnGranted else ConnLeaving"])
      (use connGrants in \<open>simp_all add: stepConnGrant_def begunOf_def currentOf_def connIn_def\<close>)
next
  case (connCounted i)
  show ?thesis
    by (rule rootsInv_plain [OF ok, of i s' "ConnHeld"])
      (use connCounted in \<open>simp_all add: stepConnCount_def Let_def split_beta begunOf_def currentOf_def connIn_def\<close>)
next
  case (connEnds i)
  show ?thesis
    by (rule rootsInv_plain [OF ok, of i s' "ConnEnding"])
      (use connEnds in \<open>simp_all add:  begunOf_def currentOf_def connIn_def\<close>)
next
  case (connReleasing i)
  show ?thesis
    by (rule rootsInv_plain [OF ok, of i s' "ConnLeaving"])
      (use connReleasing in \<open>simp_all add: stepReleased_def begunOf_def currentOf_def connIn_def\<close>)
qed (use rootsInv_connRegisters [OF ok] rootsInv_connLeaves [OF ok] in auto)

lemma rootsInv_deadline: "deadline_step s s' \<Longrightarrow> rootsInv s \<Longrightarrow> rootsInv s'"
  by (induction rule: deadline_step.induct) (simp_all add: rootsInv_def connsOkAt_def total_def)

lemma session_roots: "session_reach anon k g n s \<Longrightarrow> rootsInv s"
proof (induction rule: session_reach.induct)
  case start
  show ?case using root_reach.start [of "Root g"] by (simp add: rootsInv_def newSession_def total_def connsOkAt_def)
next
  case (step s t)
  from step(2,3) show ?case
    by (cases rule: session_step.cases) (blast intro: rootsInv_ticket rootsInv_conn rootsInv_deadline)+
qed

section \<open>The deadline\<close>

lemma total_ge: "i < length (presentations s) \<Longrightarrow> (\<And>p. 0 \<le> f p) \<Longrightarrow> f (presentations s ! i) \<le> total f s"
  for f :: "presentation \<Rightarrow> int"
  unfolding total_def by (rule member_le_sum_list) auto

lemma liveOf_01: "liveOf p = 0 \<or> liveOf p = 1"
  by (simp add: liveOf_def)

text \<open>Every step changes the held grants by one of their methods.\<close>

lemma held_step:
  assumes "session_step s t" and "countsOk s"
  shows "held t = held s
    \<or> (\<exists>k. held t = snd (bindTicket k (held s))) \<or> held t = settleRefused (held s)
    \<or> (\<exists>p. held t = snd (settleGranted p (held s))) \<or> held t = fst (holding (held s) (serverPending s))
    \<or> (held t = released (held s) \<and> 0 < live (held s)) \<or> held t = watch (held s)
    \<or> (\<exists>d. held t = snd (deadline d (held s))) \<or> held t = fst (unwatch (held s) (serverPending s))"
proof -
  have nonneg: "0 \<le> liveOf p" for p by (simp add: liveOf_def)
  have weight: "0 < live (held s)" if "i < length (presentations s)" "liveOf (presentations s ! i) = 1" for i
    using total_ge [OF that(1), of liveOf, OF nonneg] that(2) assms(2) by (simp add: countsOk_def)
  have live: "0 < live (held s)" if "i < length (presentations s)" "phase (presentations s ! i) = Ending h"
    "counts (presentations s ! i)" for i h
    using weight [OF that(1)] that(2,3) by (simp add: liveOf_def)
  have liveConn: "0 < live (held s)" if "i < length (presentations s)" "phase (presentations s ! i) = ConnEnding"
    "counts (presentations s ! i)" for i
    using weight [OF that(1)] that(2,3) by (simp add: liveOf_def)
  from assms(1) show ?thesis
  proof (cases rule: session_step.cases)
    case ticket
    then show ?thesis
      by (cases rule: ticket_step.cases)
        (use live in \<open>auto simp: arrive_def stepBind_def stepBegin_def stepCheck_def stepGrant_def stepAbandon_def stepRefused_def
        stepRegister_def stepCount_def stepSettle_def stepReleased_def stepLeave_def Let_def split_beta\<close>)
  next
    case connection
    then show ?thesis
      by (cases rule: conn_step.cases)
        (use liveConn in \<open>auto simp: arrive_def stepConnRegister_def stepConnGrant_def stepConnCount_def stepReleased_def
        stepConnLeave_def Let_def split_beta split: option.splits\<close>)
  next
    case anonymousDeadline
    then show ?thesis by (cases rule: deadline_step.cases) (auto dest: arg_cong [where f = fst])
  qed
qed

lemma session_deadline: "session_reach anon k g n s \<Longrightarrow> deadlineOk (held s)"
proof (induction rule: session_reach.induct)
  case start
  show ?case by (simp add: newSession_def deadlineOk_def newHeld_def countPending_def)
next
  case (step s t)
  have "countsOk s" using session_ok [OF step(1)] by blast
  from held_step [OF step(2) this] show ?case
    by (elim disjE exE conjE) (use deadlineOk_ops [OF step(3)] step(3) in \<open>simp_all\<close>)
qed

text \<open>Once usage is open the key stays.\<close>

lemma opened_step:
  assumes "session_step s t" and "countsOk s" and "opened (held s)" and "key (held s) \<noteq> []"
  shows "opened (held t) \<and> key (held t) = key (held s)"
  using held_step [OF assms(1,2)] assms(3,4)
  by (elim disjE exE conjE)
    (auto simp: held_keys bindTicket_def settleRefused_def settleGranted_def Let_def split: if_splits)

lemma opened_steps:
  assumes "session_step\<^sup>*\<^sup>* s t" and "session_reach True k g n s" and "opened (held s)"
  shows "session_reach True k g n t \<and> opened (held t) \<and> key (held t) = key (held s)"
  using assms(1)
proof (induction rule: rtranclp_induct)
  case base
  then show ?case using assms by simp
next
  case (step u t)
  then have reach: "session_reach True k g n u" and op: "opened (held u)" and same: "key (held u) = key (held s)" by auto
  from session_ok [OF reach] have ok: "countsOk u" "bindsOk u" by blast+
  from ok(2) op have "key (held u) \<noteq> []" by (simp add: bindsOk_def usageOk_def)
  from opened_step [OF step(2) ok(1) op this] same session_reach.step [OF reach step(2)] show ?case by simp
qed

section \<open>A run\<close>

text \<open>A ticket served to the end of its settling without interruption, with \<^verbatim>\<open>gomoqt\<close> granting it.\<close>

fun advance :: "nat \<Rightarrow> session \<Rightarrow> session" where
  "advance i s =
     (case phase (presentations s ! i) of
        Verified \<Rightarrow> stepBind i s
      | Bound \<Rightarrow> stepBegin i s
      | Begun h \<Rightarrow> stepCheck i h s
      | Ready h \<Rightarrow> stepGrant i h True s
      | Doomed h \<Rightarrow> stepAbandon i h s
      | Abandoned \<Rightarrow> stepRefused i s
      | Applied h \<Rightarrow> stepRegister i h s
      | Registered h cur \<Rightarrow> stepCount i h cur s
      | Counted h cur \<Rightarrow> stepSettle i h cur s
      | _ \<Rightarrow> s)"

lemma advance_steps: "i < length (presentations s) \<Longrightarrow> session_step\<^sup>*\<^sup>* s (advance i s)"
  by (auto split: phase.splits intro!: r_into_rtranclp session_step.ticket ticket_step.intros)

definition exampleTicket :: "string list \<Rightarrow> presentation" where
  "exampleTicket pubs = \<lparr>kid = ''key'',
     grantOf = \<lparr>Root = ''/room'', Publish = pubs, Subscribe = [], MaxAge = 0, Create = [], Post = [], Redact = [], Subject = []\<rparr>,
     phase = Verified\<rparr>"

text \<open>
  An anonymous session with one ticket in force, and the same session after a second ticket of the
  same key for the same root replaced it.
\<close>

definition exampleOne :: session where
  "exampleOne = (advance 0 ^^ 7) (arrive (exampleTicket [''cam'']) (newSession True [] (grantOf (exampleTicket [])) 1))"

definition exampleTwo :: session where
  "exampleTwo = (advance 1 ^^ 7) (arrive (exampleTicket [''cam'', ''mic'']) exampleOne)"

lemma advances_steps: "i < length (presentations s) \<Longrightarrow> session_step\<^sup>*\<^sup>* s ((advance i ^^ n) s)"
proof (induction n)
  case (Suc n)
  have keep: "length (presentations (advance i u)) = length (presentations u)" for u
    by (auto simp: stepBind_def stepBegin_def stepCheck_def stepGrant_def stepAbandon_def stepRefused_def stepRegister_def
        stepCount_def stepSettle_def Let_def split_beta split: phase.splits)
  have "length (presentations ((advance i ^^ m) s)) = length (presentations s)" for m
    by (induction m) (simp_all only: keep funpow.simps o_apply id_apply)
  with Suc advance_steps [of i "(advance i ^^ n) s"] show ?case by (simp del: advance.simps)
qed simp

lemmas run_defs = exampleTicket_def newSession_def arrive_def maxCredentials_def newHeld_def countPending_def newRootHolds_def
  stepBind_def bindTicket_def stepBegin_def rootBegin_def roleOf_def beginTicket_def moqGrant_def stepCheck_def replaced_def replaces_def
  stepGrant_def stepRegister_def rootRegister_def registerTicket_def registerState_def retireConns_def rootEmpty_def
  stepCount_def counts_def grantsSomething_def holding_def releasePendingLocked_def stepSettle_def settleGranted_def

definition roomTicket :: "nat \<Rightarrow> withdrawal" where
  "roomTicket n = \<lparr>seqOf = n, rootOf = ''/room'', role = roleRelay, retires = True\<rparr>"

lemma example_values:
  "map phase (presentations exampleOne) = [InForce (roomTicket 1)]"
  "map phase (presentations exampleTwo) = [InForce (roomTicket 1), InForce (roomTicket 2)]"
  "map kid (presentations exampleTwo) = [''key'', ''key'']"
  "map kid (presentations exampleOne) = [''key'']"
  "superseded (roots exampleTwo) = {roomTicket 1}"
  "map counts (presentations exampleTwo) = [True, True]"
  unfolding exampleOne_def exampleTwo_def by (simp_all add: eval_nat_numeral run_defs roomTicket_def)

lemma reach_steps: "session_step\<^sup>*\<^sup>* s t \<Longrightarrow> session_reach a k g n s \<Longrightarrow> session_reach a k g n t"
  by (induction rule: rtranclp_induct) (auto intro: session_reach.step)

lemma example_reach:
  "session_reach True [] (grantOf (exampleTicket [])) 1 exampleOne"
  "session_reach True [] (grantOf (exampleTicket [])) 1 exampleTwo"
  "session_step\<^sup>*\<^sup>* exampleOne exampleTwo"
proof -
  have arrives: "session_step s (arrive (exampleTicket xs) s)" if "boundKey (held s) \<in> {[], ''key''}" "anonymous s" for s xs
    unfolding exampleTicket_def by (intro session_step.ticket ticket_step.ticketArrives) (use that in auto)
  let ?s = "newSession True [] (grantOf (exampleTicket [])) 1"
  have "session_step\<^sup>*\<^sup>* (arrive (exampleTicket [''cam'']) ?s) exampleOne"
    unfolding exampleOne_def by (rule advances_steps) (simp add: run_defs)
  moreover have "session_step ?s (arrive (exampleTicket [''cam'']) ?s)"
    by (rule arrives) (simp_all add: run_defs boundKey_def)
  ultimately show one: "session_reach True [] (grantOf (exampleTicket [])) 1 exampleOne"
    using reach_steps session_reach.start session_reach.step by blast
  have "length (map phase (presentations exampleOne)) = 1" unfolding example_values by simp
  moreover have "credentials exampleOne = 1" "boundKey (held exampleOne) = ''key''" "anonymous exampleOne"
    unfolding exampleOne_def by (simp_all add: eval_nat_numeral run_defs boundKey_def)
  ultimately have room: "1 < length (presentations (arrive (exampleTicket [''cam'', ''mic'']) exampleOne))"
    and renew: "session_step exampleOne (arrive (exampleTicket [''cam'', ''mic'']) exampleOne)"
    using arrives [of exampleOne "[''cam'', ''mic'']"] by (simp_all add: arrive_def maxCredentials_def)
  from room have "session_step\<^sup>*\<^sup>* (arrive (exampleTicket [''cam'', ''mic'']) exampleOne) exampleTwo"
    unfolding exampleTwo_def by (rule advances_steps)
  with renew show two: "session_step\<^sup>*\<^sup>* exampleOne exampleTwo" by (rule converse_rtranclp_into_rtranclp)
  from reach_steps [OF two one] show "session_reach True [] (grantOf (exampleTicket [])) 1 exampleTwo" .
qed

section \<open>Properties\<close>

text \<open>
  An anonymous session is one tenant's for good: all tickets ever granted on it, at whatever times
  and in whatever interleaving, are signed by the same key, and its usage is opened exactly once,
  under that key.
\<close>

theorem anonymous_session_one_key:
  assumes "session_reach True k g n s" and "session_step\<^sup>*\<^sup>* s t"
    and "p \<in> set (presentations s)" and "granted (phase p)"
    and "q \<in> set (presentations t)" and "granted (phase q)"
  shows "kid p = kid q \<and> (\<exists>b. Admission.binds t = [(kid p, b)])"
proof -
  have b: "bindsOk s" using session_ok [OF assms(1)] by blast
  with assms(3,4) have p: "kid p = key (held s)" "opened (held s)" by (auto simp: bindsOk_def boundOk_def)
  from opened_steps [OF assms(2,1) p(2)] have t: "session_reach True k g n t" "opened (held t)" "key (held t) = key (held s)"
    by auto
  from session_ok [OF t(1)] have "bindsOk t" by blast
  with assms(5,6) t p show ?thesis by (auto simp: bindsOk_def boundOk_def usageOk_def)
qed





end
