(* ===== verification/Go_Time.thy ===== *)
theory Go_Time
  imports Prelude
begin

text \<open>
  What the components use of \<^verbatim>\<open>time.Time\<close> and \<^verbatim>\<open>time.Duration\<close>. A time is the number of nanoseconds since the
  Unix epoch, a duration a number of nanoseconds.
\<close>

section \<open>Package time\<close>

definition second :: int where "second = 1000000000"

definition unixToInternal :: int where "unixToInternal = 62135596800"

text \<open>
  \<^verbatim>\<open>time.Unix\<close>, \<open>Time.Unix\<close>, \<open>Time.Add\<close> and \<open>Time.Sub\<close>: seconds are kept since the year 1 in 64 bits, which
  \<^verbatim>\<open>time.Unix\<close> lets wrap around and \<open>Add\<close> saturates; \<open>Sub\<close> saturates at the range of a duration.
\<close>

definition timeUnix :: "int \<Rightarrow> int \<Rightarrow> int" where
  "timeUnix sec nsec =
     (wrap64 (sec + nsec div second + unixToInternal) - unixToInternal) * second + nsec mod second"

definition unixSec :: "int \<Rightarrow> int" where
  "unixSec t = wrap64 (t div second)"

definition timeAdd :: "int \<Rightarrow> int \<Rightarrow> int" where
  "timeAdd t d =
     (let s = (t + d) div second + unixToInternal;
          s' = (if s > 2 ^ 63 - 1 then 2 ^ 63 - 1 else if s < - (2 ^ 63) then - (2 ^ 63 - 1) else s)
      in (s' - unixToInternal) * second + (t + d) mod second)"

definition timeSub :: "int \<Rightarrow> int \<Rightarrow> int" where
  "timeSub t u =
     (if t - u > 2 ^ 63 - 1 then 2 ^ 63 - 1 else if t - u < - (2 ^ 63) then - (2 ^ 63) else t - u)"

text \<open>The zero \<open>Time\<close>, the start of the year 1, and \<open>Truncate\<close> to the second.\<close>

definition zeroTime :: int where "zeroTime = - unixToInternal * second"

definition truncateSecond :: "int \<Rightarrow> int" where
  "truncateSecond t = t - t mod second"

lemma second_pos [simp]: "0 < second"
  by (simp add: second_def)

lemma timeAdd_plain:
  assumes "- (2 ^ 62) \<le> (t + d) div second" and "(t + d) div second \<le> 2 ^ 62"
  shows "timeAdd t d = t + d"
proof -
  have "timeAdd t d = (t + d) div second * second + (t + d) mod second"
    using assms by (auto simp: timeAdd_def Let_def unixToInternal_def)
  then show ?thesis by simp
qed

lemma truncateSecond_mono: "t \<le> u \<Longrightarrow> truncateSecond t \<le> truncateSecond u"
proof -
  assume "t \<le> u"
  then have "t div second * second \<le> u div second * second" by (simp add: zdiv_mono1)
  then show ?thesis by (simp add: truncateSecond_def minus_mod_eq_div_mult)
qed

end
