(* ===== verification/Usage_Report.thy ===== *)
theory Usage_Report
  imports Go_Time "HOL-Library.Monad_Syntax"
begin

text \<open>
  Usage reports (\<^verbatim>\<open>src/internal/auth/usage.go\<close>, \<^verbatim>\<open>src/usage/usage.go\<close>): the records a relay sends about the sessions of
  each key. A session that may publish is reported by itself, every other one is added to the viewer
  total of its key. Methods run under the reporter's mutex and are one step each; a flush takes the
  lock when it collects the records, after every batch and when it puts unsent ones back. The order in
  which Go ranges over a map is an argument. The clock and the receiver's answers are arguments.
\<close>

section \<open>Records\<close>

datatype recordType = SessionOpen | Usage | SessionClose | Viewers | unknownType string

definition IngressBytes :: string where "IngressBytes = ''gateway.ingress_bytes''"
definition EgressBytes :: string where "EgressBytes = ''gateway.egress_bytes''"

record usageRecord =
  RecType :: recordType
  SessionID :: string
  RunName :: string
  KID :: string
  Metrics :: "(string \<times> int) list"
  Reason :: string
  TS :: int

datatype recordProblem =
    needsSessionID | hasRun | needsRun | hasSessionID | unknownRecord | needsKID | needsTS | needsMetrics | negativeMetric string

definition checkSession :: "usageRecord \<Rightarrow> recordProblem option" where
  "checkSession r =
     (case RecType r of
        Viewers \<Rightarrow> if RunName r = [] then Some needsRun else if SessionID r \<noteq> [] then Some hasSessionID else None
      | unknownType _ \<Rightarrow> Some unknownRecord
      | _ \<Rightarrow> if SessionID r = [] then Some needsSessionID else if RunName r \<noteq> [] then Some hasRun else None)"

definition Validate :: "usageRecord \<Rightarrow> recordProblem option" where
  "Validate r =
     (case checkSession r of
        Some p \<Rightarrow> Some p
      | None \<Rightarrow>
          if KID r = [] then Some needsKID
          else if TS r = zeroTime then Some needsTS
          else if RecType r \<noteq> SessionOpen \<and> Metrics r = [] then Some needsMetrics
          else map_option (\<lambda>m. negativeMetric (fst m)) (find (\<lambda>m. snd m < 0) (Metrics r)))"

section \<open>Byte totals\<close>

record Bytes =
  Sent :: u64
  Received :: u64

abbreviation noBytes :: Bytes where "noBytes \<equiv> \<lparr>Sent = 0, Received = 0\<rparr>"

definition since :: "Bytes \<Rightarrow> Bytes \<Rightarrow> Bytes" where
  "since b base = \<lparr>Sent = Sent b - min (Sent b) (Sent base), Received = Received b - min (Received b) (Received base)\<rparr>"

definition clampInt64 :: "u64 \<Rightarrow> int" where
  "clampInt64 v = (if v > 9223372036854775807 then 9223372036854775807 else sint v)"

definition usageMetrics :: "Bytes \<Rightarrow> (string \<times> int) list" where
  "usageMetrics b = [(IngressBytes, clampInt64 (Received b)), (EgressBytes, clampInt64 (Sent b))]"

section \<open>The reporter\<close>

record usageSession =
  uKid :: string
  uPublishes :: bool
  uSeen :: int
  uCounted :: Bytes

record viewerTotal =
  vTotal :: Bytes
  vReported :: Bytes
  vSent :: bool

record usageReporter =
  runID :: string
  sessions :: "string \<rightharpoonup> usageSession"
  events :: "usageRecord list"
  latest :: "string \<rightharpoonup> usageRecord"
  viewers :: "string \<rightharpoonup> viewerTotal"
  closedAt :: "string \<rightharpoonup> int"

definition maxBatchRecords :: nat where "maxBatchRecords = 500"
definition maxPendingEvents :: nat where "maxPendingEvents = 50000"
definition sessionGrace :: int where "sessionGrace = 5 * 60 * second"

definition newUsageReporter :: "string \<Rightarrow> usageReporter" where
  "newUsageReporter run =
     \<lparr>runID = run, sessions = Map.empty, events = [], latest = Map.empty, viewers = Map.empty, closedAt = Map.empty\<rparr>"

definition recordOf :: "int \<Rightarrow> recordType \<Rightarrow> string \<Rightarrow> usageSession \<Rightarrow> usageRecord" where
  "recordOf now typ sid s =
     \<lparr>RecType = typ, SessionID = sid, RunName = [], KID = uKid s, Metrics = [], Reason = [], TS = truncateSecond now\<rparr>"

definition keepNewest :: "usageRecord list \<Rightarrow> usageRecord list" where
  "keepNewest es = drop (length es - maxPendingEvents) es"

definition appendEvent :: "usageRecord \<Rightarrow> usageReporter \<Rightarrow> usageReporter" where
  "appendEvent rec r = r \<lparr>events := keepNewest (events r @ [rec])\<rparr>"

definition usageOpen :: "int \<Rightarrow> string \<Rightarrow> usageSession \<Rightarrow> usageReporter \<Rightarrow> usageReporter" where
  "usageOpen now sid s0 r =
     (if closedAt r sid \<noteq> None then r
      else let s = s0 \<lparr>uSeen := now\<rparr>; r1 = r \<lparr>sessions := (sessions r)(sid \<mapsto> s)\<rparr>
           in if uPublishes s then appendEvent (recordOf now SessionOpen sid s) r1 else r1)"

definition publishing :: "int \<Rightarrow> string \<Rightarrow> usageReporter \<Rightarrow> usageReporter" where
  "publishing now sid r =
     (case sessions r sid of
        None \<Rightarrow> r
      | Some s \<Rightarrow>
          if uPublishes s then r
          else let s1 = s \<lparr>uPublishes := True\<rparr>
               in appendEvent (recordOf now SessionOpen sid s1) (r \<lparr>sessions := (sessions r)(sid \<mapsto> s1)\<rparr>))"

text \<open>\<open>countViewer\<close> returns the session with what is counted now.\<close>

definition countViewer :: "usageSession \<Rightarrow> Bytes \<Rightarrow> usageReporter \<Rightarrow> usageSession \<times> usageReporter" where
  "countViewer s b r =
     (let t0 = (case viewers r (uKid s) of None \<Rightarrow> \<lparr>vTotal = noBytes, vReported = noBytes, vSent = False\<rparr> | Some t \<Rightarrow> t);
          c = uCounted s; tot = vTotal t0;
          (tot1, c1) = (if Sent b > Sent c
             then (tot \<lparr>Sent := Sent tot + (Sent b - Sent c)\<rparr>, c \<lparr>Sent := Sent b\<rparr>) else (tot, c));
          (tot2, c2) = (if Received b > Received c1
             then (tot1 \<lparr>Received := Received tot1 + (Received b - Received c1)\<rparr>, c1 \<lparr>Received := Received b\<rparr>) else (tot1, c1))
      in (s \<lparr>uCounted := c2\<rparr>, r \<lparr>viewers := (viewers r)(uKid s \<mapsto> t0 \<lparr>vTotal := tot2\<rparr>)\<rparr>))"

definition revalidated :: "int \<Rightarrow> string \<Rightarrow> Bytes \<Rightarrow> bool \<Rightarrow> usageReporter \<Rightarrow> usageReporter" where
  "revalidated now sid b live r =
     (case sessions r sid of
        None \<Rightarrow> r
      | Some s0 \<Rightarrow>
          let s = (if live then s0 \<lparr>uSeen := now\<rparr> else s0);
              (s1, r1) =
                (if \<not> uPublishes s then countViewer s b r
                 else if Sent b > Sent (uCounted s) \<or> Received b > Received (uCounted s)
                 then (s, r \<lparr>latest := (latest r)(sid \<mapsto>
                         recordOf now Usage sid s \<lparr>Metrics := usageMetrics (since b (uCounted s))\<rparr>)\<rparr>)
                 else (s, r))
          in r1 \<lparr>sessions := (sessions r1)(sid \<mapsto> s1)\<rparr>)"

definition usageClose :: "int \<Rightarrow> string \<Rightarrow> Bytes \<Rightarrow> string \<Rightarrow> usageReporter \<Rightarrow> bool \<times> usageReporter" where
  "usageClose now sid b reason r =
     (let r1 = r \<lparr>closedAt := (closedAt r)(sid \<mapsto> now)\<rparr>
      in case sessions r1 sid of
           None \<Rightarrow> (False, r1)
         | Some s \<Rightarrow>
             let r2 = r1 \<lparr>sessions := (sessions r1)(sid := None)\<rparr>
             in if \<not> uPublishes s then (True, snd (countViewer s b r2))
                else (True, appendEvent
                  (recordOf now SessionClose sid s \<lparr>Metrics := usageMetrics (since b (uCounted s)), Reason := reason\<rparr>)
                  (r2 \<lparr>latest := (latest r2)(sid := None)\<rparr>)))"

definition forgetStale :: "int \<Rightarrow> usageReporter \<Rightarrow> usageReporter" where
  "forgetStale now r =
     (let cutoff = timeAdd now (- sessionGrace)
      in r \<lparr>sessions := (\<lambda>sid. case sessions r sid of None \<Rightarrow> None | Some s \<Rightarrow> if uSeen s < cutoff then None else Some s),
            closedAt := (\<lambda>sid. case closedAt r sid of None \<Rightarrow> None | Some t \<Rightarrow> if t < cutoff then None else Some t)\<rparr>)"

section \<open>Sending\<close>

datatype sendOutcome = sendOk | sendMalformed | sendFailed

text \<open>\<open>send\<close>, by the status of the answer; \<open>None\<close> is a request that failed.\<close>

definition sendResult :: "nat option \<Rightarrow> sendOutcome" where
  "sendResult status =
     (case status of
        None \<Rightarrow> sendFailed
      | Some c \<Rightarrow> if c \<ge> 200 \<and> c < 300 then sendOk else if c = 400 \<or> c = 422 then sendMalformed else sendFailed)"

definition viewerRecord :: "int \<Rightarrow> string \<Rightarrow> string \<Rightarrow> viewerTotal \<Rightarrow> usageRecord" where
  "viewerRecord now run kid t =
     \<lparr>RecType = Viewers, SessionID = [], RunName = run, KID = kid, Metrics = usageMetrics (vTotal t), Reason = [],
      TS = truncateSecond now\<rparr>"

definition changed :: "viewerTotal \<Rightarrow> bool" where
  "changed t \<longleftrightarrow> \<not> (vSent t \<and> vTotal t = vReported t)"

text \<open>
  The first part of \<open>flush\<close>: the records to send, in their order, and the viewer totals among them.
  \<open>kids\<close> and \<open>ids\<close> are the keys of the two maps in the order Go ranges over them.
\<close>

definition collectTotals :: "string list \<Rightarrow> usageReporter \<Rightarrow> (string \<times> viewerTotal) list" where
  "collectTotals kids r =
     List.map_filter (\<lambda>kid. case viewers r kid of None \<Rightarrow> None | Some t \<Rightarrow> if changed t then Some (kid, t) else None) kids"

definition flushRecords :: "usageRecord list \<Rightarrow> usageRecord list \<Rightarrow> usageRecord list \<Rightarrow> usageRecord list" where
  "flushRecords evs us vs =
     filter (\<lambda>e. RecType e = SessionOpen) evs @ us @ vs @ filter (\<lambda>e. RecType e = SessionClose) evs"

definition flushBegin :: "int \<Rightarrow> string list \<Rightarrow> string list \<Rightarrow> usageReporter \<Rightarrow>
    usageRecord list \<times> (string \<rightharpoonup> Bytes) \<times> usageReporter" where
  "flushBegin now kids ids r =
     (let ts = collectTotals kids r
      in (flushRecords (events r) (List.map_filter (latest r) ids) (map (\<lambda>(kid, t). viewerRecord now (runID r) kid t) ts),
          map_of (map (\<lambda>(kid, t). (kid, vTotal t)) ts),
          r \<lparr>events := [], latest := Map.empty\<rparr>))"

definition acknowledgeOne :: "(string \<rightharpoonup> Bytes) \<Rightarrow> usageRecord \<Rightarrow> (string \<rightharpoonup> viewerTotal) \<Rightarrow> (string \<rightharpoonup> viewerTotal)" where
  "acknowledgeOne totals rec vs =
     (if RecType rec \<noteq> Viewers then vs
      else case vs (KID rec) of
             None \<Rightarrow> vs
           | Some t \<Rightarrow> vs(KID rec \<mapsto> t \<lparr>vReported := (case totals (KID rec) of None \<Rightarrow> noBytes | Some b \<Rightarrow> b), vSent := True\<rparr>))"

definition acknowledge :: "usageRecord list \<Rightarrow> (string \<rightharpoonup> Bytes) \<Rightarrow> usageReporter \<Rightarrow> usageReporter" where
  "acknowledge batch totals r = r \<lparr>viewers := fold (acknowledgeOne totals) batch (viewers r)\<rparr>"

definition isEvent :: "usageRecord \<Rightarrow> bool" where
  "isEvent rec \<longleftrightarrow> RecType rec = SessionOpen \<or> RecType rec = SessionClose"

definition requeueOne :: "(string \<rightharpoonup> usageSession) \<Rightarrow> usageRecord \<Rightarrow> (string \<rightharpoonup> usageRecord) \<Rightarrow> (string \<rightharpoonup> usageRecord)" where
  "requeueOne live rec lat =
     (if RecType rec = Viewers \<or> isEvent rec then lat
      else if lat (SessionID rec) \<noteq> None then lat
      else if live (SessionID rec) \<noteq> None then lat(SessionID rec \<mapsto> rec)
      else lat)"

definition requeue :: "usageRecord list \<Rightarrow> usageReporter \<Rightarrow> usageReporter" where
  "requeue unsent r =
     r \<lparr>latest := fold (requeueOne (sessions r)) unsent (latest r),
        events := keepNewest (filter isEvent unsent @ events r)\<rparr>"

text \<open>One round of the loop over the batches: the records left to send.\<close>

definition flushBatch :: "sendOutcome \<Rightarrow> (string \<rightharpoonup> Bytes) \<Rightarrow> usageRecord list \<Rightarrow> usageReporter \<Rightarrow>
    usageRecord list \<times> usageReporter" where
  "flushBatch out totals unsent r =
     (case out of
        sendFailed \<Rightarrow> ([], requeue unsent r)
      | _ \<Rightarrow> (drop maxBatchRecords unsent, acknowledge (take maxBatchRecords unsent) totals r))"

text \<open>The whole of \<open>flush\<close> with nothing in between; \<open>answers\<close> are the outcomes of the batches in turn.\<close>

function flushLoop :: "(nat \<Rightarrow> sendOutcome) \<Rightarrow> nat \<Rightarrow> (string \<rightharpoonup> Bytes) \<Rightarrow> usageRecord list \<Rightarrow> usageReporter \<Rightarrow>
    bool \<times> usageReporter" where
  "flushLoop answers i totals unsent r =
     (if unsent = [] then (True, r)
      else let (rest, r1) = flushBatch (answers i) totals unsent r
           in if answers i = sendFailed then (False, r1) else flushLoop answers (Suc i) totals rest r1)"
  by auto
termination
  by (relation "measure (\<lambda>(_, _, _, unsent, _). length unsent)")
    (auto simp: flushBatch_def maxBatchRecords_def split: sendOutcome.splits)

definition flush :: "int \<Rightarrow> string list \<Rightarrow> string list \<Rightarrow> (nat \<Rightarrow> sendOutcome) \<Rightarrow> usageReporter \<Rightarrow> bool \<times> usageReporter" where
  "flush now kids ids answers r =
     (let (unsent, totals, r1) = flushBegin now kids ids r in flushLoop answers 0 totals unsent r1)"

end
