(* ===== verification/Usage_Run.thy ===== *)
theory Usage_Run
  imports Usage_Report "HOL-Library.Sublist"
begin

text \<open>
  The usage reporter at work: sessions come, are revalidated and end in their own goroutines while one
  goroutine flushes, in any interleaving and with any answers of the receiver. The run keeps the
  reporter, the records a flush still has to send, those the receiver has answered (accepted, or
  refused as malformed, which are not sent again), and for every session its key and how much of the
  viewer total of that key came from it.
\<close>

section \<open>Steps\<close>

record usageRun =
  rep :: usageReporter
  flight :: "usageRecord list"
  totals :: "string \<rightharpoonup> Bytes"
  answered :: "usageRecord list"
  known :: "string set"
  kidOf :: "string \<Rightarrow> string"
  gained :: "string \<Rightarrow> Bytes"

definition totalOf :: "usageReporter \<Rightarrow> string \<Rightarrow> Bytes" where
  "totalOf r kid = (case viewers r kid of None \<Rightarrow> noBytes | Some t \<Rightarrow> vTotal t)"

text \<open>What an operation added to the viewer total of a key is credited to the session it is about.\<close>

definition credit :: "string \<Rightarrow> usageReporter \<Rightarrow> usageRun \<Rightarrow> usageRun" where
  "credit sid r u =
     (let kid = kidOf u sid; g = gained u sid
      in u \<lparr>rep := r, gained := (gained u)(sid :=
           \<lparr>Sent = Sent g + (Sent (totalOf r kid) - Sent (totalOf (rep u) kid)),
            Received = Received g + (Received (totalOf r kid) - Received (totalOf (rep u) kid))\<rparr>)\<rparr>)"

definition clockOk :: "int \<Rightarrow> bool" where
  "clockOk now \<longleftrightarrow> zeroTime + second \<le> now"

inductive usage_step :: "usageRun \<Rightarrow> usageRun \<Rightarrow> bool" where
  opens: "sid \<notin> known u \<Longrightarrow> sid \<noteq> [] \<Longrightarrow> kid \<noteq> [] \<Longrightarrow> clockOk now \<Longrightarrow>
    usage_step u (u \<lparr>rep := usageOpen now sid \<lparr>uKid = kid, uPublishes = p, uSeen = zeroTime, uCounted = noBytes\<rparr> (rep u),
      known := insert sid (known u), kidOf := (kidOf u)(sid := kid)\<rparr>)"
| publishes: "clockOk now \<Longrightarrow> usage_step u (u \<lparr>rep := publishing now sid (rep u)\<rparr>)"
| revalidates: "clockOk now \<Longrightarrow> usage_step u (credit sid (revalidated now sid b live (rep u)) u)"
| closes: "clockOk now \<Longrightarrow> usage_step u (credit sid (snd (usageClose now sid b reason (rep u))) u)"
| forgets: "usage_step u (u \<lparr>rep := forgetStale now (rep u)\<rparr>)"
| flushes: "flight u = [] \<Longrightarrow> clockOk now \<Longrightarrow> distinct kids \<Longrightarrow> set kids = dom (viewers (rep u)) \<Longrightarrow>
    distinct ids \<Longrightarrow> set ids = dom (latest (rep u)) \<Longrightarrow> flushBegin now kids ids (rep u) = (unsent, tot, r) \<Longrightarrow>
    usage_step u (u \<lparr>rep := r, flight := unsent, totals := tot\<rparr>)"
| sends: "flight u \<noteq> [] \<Longrightarrow> flushBatch out (totals u) (flight u) (rep u) = (rest, r) \<Longrightarrow>
    usage_step u (u \<lparr>rep := r, flight := rest,
      answered := answered u @ (if out = sendFailed then [] else take maxBatchRecords (flight u))\<rparr>)"

definition newRun :: "string \<Rightarrow> usageRun" where
  "newRun run = \<lparr>rep = newUsageReporter run, flight = [], totals = Map.empty, answered = [], known = {},
     kidOf = (\<lambda>_. []), gained = (\<lambda>_. noBytes)\<rparr>"

inductive usage_reach :: "string \<Rightarrow> usageRun \<Rightarrow> bool" for run where
  start: "usage_reach run (newRun run)"
| step: "usage_reach run u \<Longrightarrow> usage_step u v \<Longrightarrow> usage_reach run v"

section \<open>The records of one session\<close>

definition recordsOf :: "string \<Rightarrow> usageRecord list \<Rightarrow> usageRecord list" where
  "recordsOf sid rs = filter (\<lambda>x. SessionID x = sid \<and> RecType x \<noteq> Viewers) rs"

fun rank :: "recordType \<Rightarrow> nat" where
  "rank SessionOpen = 0"
| "rank Usage = 1"
| "rank SessionClose = 2"
| "rank _ = 3"

abbreviation ranks :: "usageRecord list \<Rightarrow> nat list" where
  "ranks rs \<equiv> map (\<lambda>x. rank (RecType x)) rs"

definition queued :: "string \<Rightarrow> usageReporter \<Rightarrow> usageRecord list" where
  "queued sid r = recordsOf sid (flushRecords (events r) (case latest r sid of None \<Rightarrow> [] | Some x \<Rightarrow> [x]) [])"

text \<open>All records of a session, in the order they are sent if nothing fails.\<close>

definition history :: "string \<Rightarrow> usageRun \<Rightarrow> usageRecord list" where
  "history sid u = recordsOf sid (answered u) @ recordsOf sid (flight u) @ queued sid (rep u)"

definition ordered :: "usageRecord list \<Rightarrow> bool" where
  "ordered rs \<longleftrightarrow> sorted (ranks rs) \<and> count_list (ranks rs) 0 \<le> 1 \<and> count_list (ranks rs) 2 \<le> 1 \<and> 3 \<notin> set (ranks rs)"

definition hasClose :: "usageRecord list \<Rightarrow> bool" where
  "hasClose rs \<longleftrightarrow> (\<exists>x \<in> set rs. RecType x = SessionClose)"

lemma recordsOf_simps [simp]:
  "recordsOf sid [] = []"
  "recordsOf sid (xs @ ys) = recordsOf sid xs @ recordsOf sid ys"
  "recordsOf sid (x # xs) = (if SessionID x = sid \<and> RecType x \<noteq> Viewers then x # recordsOf sid xs else recordsOf sid xs)"
  by (simp_all add: recordsOf_def)

lemma ordered_Nil [simp]: "ordered []"
  by (simp add: ordered_def)

lemma count_list_subseq: "subseq xs ys \<Longrightarrow> count_list xs a \<le> count_list ys a"
  by (induction rule: list_emb.induct) auto

lemma set_subseq: "subseq xs ys \<Longrightarrow> set xs \<subseteq> set ys"
  by (induction rule: list_emb.induct) auto

lemma subseq_single: "subseq xs [x] \<Longrightarrow> xs = [] \<or> xs = [x]"
  by (cases xs) (auto simp: subseq_Cons2_iff split: if_splits)

lemma sorted_subseq: "subseq xs ys \<Longrightarrow> sorted ys \<Longrightarrow> sorted xs"
proof (induction rule: list_emb.induct)
  case (list_emb_Cons2 x y xs ys)
  then show ?case using set_subseq [of xs ys] by auto
qed auto

lemma ordered_subseq:
  assumes "ordered ys" and "subseq xs ys"
  shows "ordered xs"
proof -
  from assms(2) have s: "subseq (ranks xs) (ranks ys)" by (rule subseq_map)
  show ?thesis
    using assms(1) count_list_subseq [OF s, of 0] count_list_subseq [OF s, of 2] set_subseq [OF s] sorted_subseq [OF s]
    unfolding ordered_def by (meson le_trans subsetD)
qed

lemma rank_2: "rank t = 2 \<longleftrightarrow> t = SessionClose"
  by (cases t) simp_all

lemma ordered_snoc:
  assumes o: "ordered rs" and n: "\<not> hasClose rs" and x: "RecType x = SessionClose"
  shows "ordered (rs @ [x])"
proof -
  have n2: "2 \<notin> set (ranks rs)" using n rank_2 by (fastforce simp: hasClose_def)
  have "rank t \<le> 2" if "rank t \<noteq> 3" for t using that by (cases t) simp_all
  with o have "\<forall>y \<in> set (ranks rs). y \<le> 2" by (auto simp: ordered_def image_iff)
  with o n2 x show ?thesis by (simp add: ordered_def sorted_append count_notin)
qed

section \<open>Operations and queues\<close>

lemma keepNewest_subseq: "subseq (keepNewest es) es"
  unfolding keepNewest_def by (metis append_take_drop_id subseq_drop_many subseq_order.refl)

lemma queued_events_mono:
  "subseq es es' \<Longrightarrow> subseq (queued sid (r \<lparr>events := es\<rparr>)) (queued sid (r \<lparr>events := es'\<rparr>))"
  unfolding queued_def flushRecords_def recordsOf_def filter_append usageReporter.select_convs usageReporter.update_convs
  by (intro list_emb_append_mono subseq_filter) simp_all

lemma queued_append: "subseq (queued sid (appendEvent x r)) (queued sid (r \<lparr>events := events r @ [x]\<rparr>))"
  unfolding appendEvent_def by (rule queued_events_mono) (rule keepNewest_subseq)

lemma queued_append_other:
  assumes "SessionID x \<noteq> sid"
  shows "subseq (queued sid (appendEvent x r)) (queued sid r)"
proof -
  have "queued sid (r \<lparr>events := events r @ [x]\<rparr>) = queued sid r"
    using assms by (simp add: queued_def flushRecords_def)
  then show ?thesis using queued_append [of sid x r] by simp
qed

text \<open>What the operations keep of a session.\<close>

definition sessionOk :: "string \<Rightarrow> usageRun \<Rightarrow> bool" where
  "sessionOk sid u \<longleftrightarrow>
     ordered (history sid u) \<and> (sid \<notin> known u \<longrightarrow> history sid u = [] \<and> sessions (rep u) sid = None)
     \<and> (\<forall>s. sessions (rep u) sid = Some s \<longrightarrow>
          (if uPublishes s then \<not> hasClose (history sid u) else history sid u = []))"

definition queueOk :: "usageReporter \<Rightarrow> bool" where
  "queueOk r \<longleftrightarrow> list_all isEvent (events r)
     \<and> (\<forall>sid x. latest r sid = Some x \<longrightarrow> SessionID x = sid \<and> RecType x = Usage)"

lemma sessionOk_subset:
  assumes ok: "sessionOk sid u" and ord: "ordered (history sid v)" and sub: "set (history sid v) \<subseteq> set (history sid u)"
    and live: "sessions (rep v) sid = sessions (rep u) sid \<or> sessions (rep v) sid = None"
    and known: "known u \<subseteq> known v"
  shows "sessionOk sid v"
proof -
  have closes: "hasClose (history sid u)" if "hasClose (history sid v)" using that sub by (auto simp: hasClose_def)
  have empty: "history sid v = []" if "history sid u = []" using sub that by simp
  have "history sid v = [] \<and> sessions (rep v) sid = None" if "sid \<notin> known v"
    using ok empty live known that unfolding sessionOk_def by fastforce
  moreover have "if uPublishes s then \<not> hasClose (history sid v) else history sid v = []"
    if "sessions (rep v) sid = Some s" for s
  proof -
    from live that have "sessions (rep u) sid = Some s" by simp
    with ok have "if uPublishes s then \<not> hasClose (history sid u) else history sid u = []" by (simp add: sessionOk_def)
    then show ?thesis using empty closes by (auto split: if_splits)
  qed
  ultimately show ?thesis using ord by (simp add: sessionOk_def)
qed

lemma sessionOk_frame:
  assumes ok: "sessionOk sid u" and sub: "subseq (history sid v) (history sid u)"
    and live: "sessions (rep v) sid = sessions (rep u) sid \<or> sessions (rep v) sid = None"
    and known: "known u \<subseteq> known v"
  shows "sessionOk sid v"
  using ok ordered_subseq [OF _ sub] set_subseq [OF sub] live known
  by (intro sessionOk_subset [OF ok]) (simp_all add: sessionOk_def)

lemma queued_simps [simp]:
  "queued sid (r \<lparr>sessions := m\<rparr>) = queued sid r"
  "queued sid (r \<lparr>closedAt := c\<rparr>) = queued sid r"
  "queued sid (r \<lparr>viewers := w\<rparr>) = queued sid r"
  by (simp_all add: queued_def)

lemma countViewer_keeps [simp]:
  "sessions (snd (countViewer s b r)) = sessions r" "events (snd (countViewer s b r)) = events r"
  "latest (snd (countViewer s b r)) = latest r" "queued sid (snd (countViewer s b r)) = queued sid r"
  "closedAt (snd (countViewer s b r)) = closedAt r" "runID (snd (countViewer s b r)) = runID r"
  "uKid (fst (countViewer s b r)) = uKid s" "uPublishes (fst (countViewer s b r)) = uPublishes s"
  by (simp_all add: countViewer_def Let_def split_beta queued_def)

lemma appendEvent_keeps [simp]:
  "sessions (appendEvent x r) = sessions r" "latest (appendEvent x r) = latest r" "viewers (appendEvent x r) = viewers r"
  "closedAt (appendEvent x r) = closedAt r" "runID (appendEvent x r) = runID r"
  by (simp_all add: appendEvent_def)

lemma queueOk_append: "queueOk r \<Longrightarrow> isEvent x \<Longrightarrow> queueOk (appendEvent x r)"
  using set_subseq [OF keepNewest_subseq, of "events r @ [x]"]
  by (auto simp: queueOk_def appendEvent_def list_all_iff)

lemma recordOf_simps [simp]:
  "RecType (recordOf now t sid s) = t" "SessionID (recordOf now t sid s) = sid" "KID (recordOf now t sid s) = uKid s"
  by (simp_all add: recordOf_def)

text \<open>A session without records that becomes a publisher.\<close>

lemma sessionOk_opened:
  assumes "history sid u = []" and "answered v = answered u" and "flight v = flight u"
    and "rep v = appendEvent x r" and "queued sid r = queued sid (rep u)"
    and "RecType x = SessionOpen" and "sid \<in> known v" and "sessions r sid = Some s" and "uPublishes s"
  shows "sessionOk sid v"
proof -
  have empty: "recordsOf sid (answered u) = []" "recordsOf sid (flight u) = []" "queued sid r = []"
    using assms(1,5) by (simp_all add: history_def)
  have "queued sid (r \<lparr>events := events r @ [x]\<rparr>) = [] \<or> queued sid (r \<lparr>events := events r @ [x]\<rparr>) = [x]"
    using empty(3) assms(6) by (auto simp: queued_def flushRecords_def)
  with queued_append [of sid x r] have "queued sid (rep v) = [] \<or> queued sid (rep v) = [x]"
    using assms(4) subseq_single by (metis subseq_order.antisym list_emb_Nil)
  then have "history sid v = [] \<or> history sid v = [x]"
    using empty assms(2,3) by (auto simp: history_def)
  then show ?thesis
    using assms(4,6-9) by (auto simp: sessionOk_def ordered_def hasClose_def)
qed

text \<open>Steps that append an event of one session leave the others as they are.\<close>

lemma sessionOk_other:
  assumes "sessionOk sid u" and "answered v = answered u" and "flight v = flight u" and "known u \<subseteq> known v"
    and "subseq (queued sid (rep v)) (queued sid (rep u))" and "sessions (rep v) sid = sessions (rep u) sid"
  shows "sessionOk sid v"
  by (rule sessionOk_frame [OF assms(1) _ _ assms(4)])
    (use assms in \<open>auto simp: history_def intro!: list_emb_append_mono\<close>)

definition recordsInv :: "usageRun \<Rightarrow> bool" where
  "recordsInv u \<longleftrightarrow> queueOk (rep u) \<and> (\<forall>sid. sessionOk sid u)"

lemma recordsInv_open:
  assumes inv: "recordsInv u" and new: "sid \<notin> known u"
    and v: "v = u \<lparr>rep := usageOpen now sid s0 (rep u), known := insert sid (known u), kidOf := k\<rparr>"
  shows "recordsInv v"
proof -
  let ?s = "s0 \<lparr>uSeen := now\<rparr>" and ?r = "rep u \<lparr>sessions := (sessions (rep u))(sid \<mapsto> s0 \<lparr>uSeen := now\<rparr>)\<rparr>"
  let ?x = "recordOf now SessionOpen sid ?s"
  have ok: "sessionOk i u" for i using inv by (simp add: recordsInv_def)
  have empty: "history sid u = []" using ok [of sid] new by (simp add: sessionOk_def)
  have q: "queueOk (rep v)" using inv
    by (auto simp: v recordsInv_def usageOpen_def Let_def queueOk_append isEvent_def queueOk_def [of "_ \<lparr>sessions := _\<rparr>"]
        queueOk_def [of "rep u"] intro!: queueOk_append)
  have "sessionOk i v" for i
  proof (cases "closedAt (rep u) sid \<noteq> None")
    case True
    then show ?thesis by (intro sessionOk_other [OF ok]) (auto simp: v usageOpen_def)
  next
    case open_: False
    show ?thesis
    proof (cases "i = sid")
      case False
      then show ?thesis
        using open_ queued_append_other [of ?x i ?r]
        by (intro sessionOk_other [OF ok]) (auto simp: v usageOpen_def Let_def)
    next
      case True
      show ?thesis
      proof (cases "uPublishes s0")
        case True
        then show ?thesis unfolding \<open>i = sid\<close>
          using open_ by (intro sessionOk_opened [OF empty, of v ?x ?r ?s]) (auto simp: v usageOpen_def Let_def)
      next
        case False
        then show ?thesis
          using open_ empty \<open>i = sid\<close> by (auto simp: v usageOpen_def Let_def sessionOk_def history_def)
      qed
    qed
  qed
  with q show ?thesis by (simp add: recordsInv_def)
qed

lemma recordsInv_publishing:
  assumes inv: "recordsInv u" and v: "v = u \<lparr>rep := publishing now sid (rep u)\<rparr>"
  shows "recordsInv v"
proof -
  have ok: "sessionOk i u" for i using inv by (simp add: recordsInv_def)
  show ?thesis
  proof (cases "\<exists>s. sessions (rep u) sid = Some s \<and> \<not> uPublishes s")
    case False
    then have "v = u" by (auto simp: v publishing_def split: option.splits)
    then show ?thesis using inv by simp
  next
    case True
    then obtain s where s: "sessions (rep u) sid = Some s" "\<not> uPublishes s" by blast
    let ?s = "s \<lparr>uPublishes := True\<rparr>"
    let ?r = "rep u \<lparr>sessions := (sessions (rep u))(sid \<mapsto> ?s)\<rparr>" and ?x = "recordOf now SessionOpen sid ?s"
    have r: "rep v = appendEvent ?x ?r" using s by (simp add: v publishing_def Let_def)
    have empty: "history sid u = []" "sid \<in> known u" using ok [of sid] s by (auto simp: sessionOk_def)
    have "queueOk (rep v)" using inv unfolding r
      by (intro queueOk_append) (auto simp: recordsInv_def queueOk_def isEvent_def)
    moreover have "sessionOk i v" for i
    proof (cases "i = sid")
      case True
      then show ?thesis
        using empty by (intro sessionOk_opened [OF _ _ _ r, of i u ?s]) (simp_all add: v)
    next
      case False
      then show ?thesis
        using queued_append_other [of ?x i ?r] r by (intro sessionOk_other [OF ok]) (auto simp: v)
    qed
    ultimately show ?thesis by (simp add: recordsInv_def)
  qed
qed

text \<open>A usage record of a live publisher.\<close>

lemma sessionOk_usage:
  assumes ok: "sessionOk sid u" and s: "sessions (rep u) sid = Some s" "uPublishes s"
    and v: "answered v = answered u" "flight v = flight u" "known v = known u"
      "events (rep v) = events (rep u)" "latest (rep v) sid = Some x" "sessions (rep v) sid = Some s'" "uPublishes s'"
    and x: "RecType x = Usage" "SessionID x = sid"
  shows "sessionOk sid v"
proof -
  let ?opens = "recordsOf sid (filter (\<lambda>e. RecType e = SessionOpen) (events (rep u)))"
  let ?closes = "recordsOf sid (filter (\<lambda>e. RecType e = SessionClose) (events (rep u)))"
  let ?h = "recordsOf sid (answered u) @ recordsOf sid (flight u) @ ?opens"
  from ok s have o: "ordered (history sid u)" and n: "\<not> hasClose (history sid u)" and k: "sid \<in> known u"
    by (auto simp: sessionOk_def)
  have "set ?closes \<subseteq> set (history sid u)" by (auto simp: history_def queued_def flushRecords_def)
  moreover have "RecType y = SessionClose" if "y \<in> set ?closes" for y using that by (simp add: recordsOf_def)
  ultimately have c: "?closes = []" using n unfolding hasClose_def by (metis in_mono last_in_set)
  have sub: "subseq ?h (history sid u)"
    by (simp add: history_def queued_def flushRecords_def subseq_append' subseq_rev_drop_many)
  have h: "ordered ?h" "\<not> hasClose ?h"
    using ordered_subseq [OF o sub] set_subseq [OF sub] n unfolding hasClose_def by blast+
  have new: "history sid v = ?h @ [x]" using v x c by (simp add: history_def queued_def flushRecords_def)
  have "\<forall>y \<in> set ?h. rank (RecType y) \<le> 1"
  proof
    fix y assume "y \<in> set ?h"
    with h have "rank (RecType y) \<noteq> 3" "RecType y \<noteq> SessionClose" by (force simp: ordered_def, auto simp: hasClose_def)
    then show "rank (RecType y) \<le> 1" by (cases "RecType y") simp_all
  qed
  then have "ordered (?h @ [x])" using h(1) x(1) by (auto simp: ordered_def sorted_append)
  moreover have "\<not> hasClose (?h @ [x])" using h(2) x(1) by (auto simp: hasClose_def)
  ultimately show ?thesis using new k v by (auto simp: sessionOk_def)
qed

lemma credit_simps [simp]:
  "rep (credit sid r u) = r" "answered (credit sid r u) = answered u" "flight (credit sid r u) = flight u"
  "known (credit sid r u) = known u" "kidOf (credit sid r u) = kidOf u" "totals (credit sid r u) = totals u"
  by (simp_all add: credit_def Let_def)

definition usageRecordAt :: "int \<Rightarrow> string \<Rightarrow> usageSession \<Rightarrow> Bytes \<Rightarrow> usageRecord" where
  "usageRecordAt now sid s b = recordOf now Usage sid s \<lparr>Metrics := usageMetrics (since b (uCounted s))\<rparr>"

lemma revalidated_publisher:
  assumes "sessions r sid = Some s" and "uPublishes s" and "Sent b > Sent (uCounted s) \<or> Received b > Received (uCounted s)"
  shows "\<exists>s'. uPublishes s' \<and> uCounted s' = uCounted s \<and> uKid s' = uKid s
    \<and> revalidated now sid b live r
        = r \<lparr>latest := (latest r)(sid \<mapsto> usageRecordAt now sid s b), sessions := (sessions r)(sid \<mapsto> s')\<rparr>"
  using assms
  by (intro exI [of _ "if live then s \<lparr>uSeen := now\<rparr> else s"])
    (simp add: revalidated_def usageRecordAt_def recordOf_def)

lemma recordsInv_revalidated:
  assumes inv: "recordsInv u"
  shows "recordsInv (credit sid (revalidated now sid b live (rep u)) u)" (is "recordsInv ?v")
proof -
  have ok: "sessionOk i u" for i using inv by (simp add: recordsInv_def)
  have q: "queueOk (rep u)" using inv by (simp add: recordsInv_def)
  show ?thesis
  proof (cases "sessions (rep u) sid")
    case None
    then have r: "rep ?v = rep u" by (simp add: revalidated_def)
    then show ?thesis
      using q by (auto simp: recordsInv_def intro!: sessionOk_other [OF ok])
  next
    case (Some s)
    have "queueOk (rep ?v)"
      using q Some by (auto simp: revalidated_def Let_def split_beta queueOk_def)
    moreover have "sessionOk i ?v" for i
    proof (cases "i = sid \<and> uPublishes s \<and> (Sent b > Sent (uCounted s) \<or> Received b > Received (uCounted s))")
      case True
      then obtain s' where s': "uPublishes s'" "revalidated now sid b live (rep u) = rep u
          \<lparr>latest := (latest (rep u))(sid \<mapsto> usageRecordAt now sid s b), sessions := (sessions (rep u))(sid \<mapsto> s')\<rparr>"
        using revalidated_publisher [OF Some, of b now live] by blast
      from True Some show ?thesis
        by (intro sessionOk_usage [OF ok, where s = s and x = "usageRecordAt now sid s b" and s' = s'])
          (simp_all add: s' usageRecordAt_def)
    next
      case False
      have e: "events (rep ?v) = events (rep u)" "latest (rep ?v) i = latest (rep u) i"
        using Some False by (auto simp: revalidated_def Let_def split_beta)
      then have "history i ?v = history i u" by (simp add: history_def queued_def)
      moreover have "\<exists>s'. sessions (rep ?v) sid = Some s' \<and> uPublishes s' = uPublishes s"
        "i \<noteq> sid \<Longrightarrow> sessions (rep ?v) i = sessions (rep u) i"
        using Some by (auto simp: revalidated_def Let_def split_beta)
      ultimately show ?thesis using ok [of i] Some by (cases "i = sid") (auto simp: sessionOk_def)
    qed
    ultimately show ?thesis by (simp add: recordsInv_def)
  qed
qed

lemma recordsInv_close:
  assumes inv: "recordsInv u"
  shows "recordsInv (credit sid (snd (usageClose now sid b reason (rep u))) u)" (is "recordsInv ?v")
proof -
  have ok: "sessionOk i u" for i using inv by (simp add: recordsInv_def)
  have q: "queueOk (rep u)" using inv by (simp add: recordsInv_def)
  show ?thesis
  proof (cases "\<exists>s. sessions (rep u) sid = Some s \<and> uPublishes s")
    case False
    then have e: "queued i (rep ?v) = queued i (rep u)" "events (rep ?v) = events (rep u)" "latest (rep ?v) = latest (rep u)"
      "sessions (rep ?v) i = sessions (rep u) i \<or> sessions (rep ?v) i = None" for i
      by (auto simp: usageClose_def Let_def queued_def split: option.splits)
    have "queueOk (rep ?v)" using q e(2,3) by (simp add: queueOk_def)
    moreover have "sessionOk i ?v" for i
      by (rule sessionOk_frame [OF ok]) (use e(1,4) in \<open>simp_all add: history_def\<close>)
    ultimately show ?thesis by (simp add: recordsInv_def)
  next
    case True
    then obtain s where s: "sessions (rep u) sid = Some s" "uPublishes s" by blast
    let ?x = "recordOf now SessionClose sid s \<lparr>Metrics := usageMetrics (since b (uCounted s)), Reason := reason\<rparr>"
    let ?r = "rep u \<lparr>closedAt := (closedAt (rep u))(sid \<mapsto> now), sessions := (sessions (rep u))(sid := None),
        latest := (latest (rep u))(sid := None)\<rparr>"
    have r0: "snd (usageClose now sid b reason (rep u)) = appendEvent ?x ?r" using s by (simp add: usageClose_def)
    then have r: "rep ?v = appendEvent ?x ?r" by simp
    have "queueOk (rep ?v)" unfolding r
      using q by (intro queueOk_append) (auto simp: queueOk_def isEvent_def split: if_splits)
    moreover have "sessionOk i ?v" for i
    proof (cases "i = sid")
      case False
      moreover from this have "queued i ?r = queued i (rep u)" by (simp add: queued_def)
      ultimately show ?thesis
        using queued_append_other [of ?x i ?r] by (intro sessionOk_other [OF ok]) (simp_all add: r0)
    next
      case True
      have "subseq (queued sid (?r \<lparr>events := events ?r @ [?x]\<rparr>)) (queued sid (rep u) @ [?x])"
        by (simp add: queued_def flushRecords_def subseq_append' subseq_drop_many)
      then have "subseq (queued sid (rep ?v)) (queued sid (rep u) @ [?x])"
        unfolding r using queued_append subseq_order.trans by blast
      then have sub: "subseq (history sid ?v) (history sid u @ [?x])" by (simp add: history_def subseq_append')
      have "ordered (history sid u)" "\<not> hasClose (history sid u)" "sid \<in> known u"
        using ok [of sid] s by (auto simp: sessionOk_def)
      then have "ordered (history sid ?v)" using ordered_subseq [OF ordered_snoc sub] by simp
      with True \<open>sid \<in> known u\<close> show ?thesis unfolding sessionOk_def r by simp
    qed
    ultimately show ?thesis by (simp add: recordsInv_def)
  qed
qed

lemma recordsInv_forget:
  assumes "recordsInv u"
  shows "recordsInv (u \<lparr>rep := forgetStale now (rep u)\<rparr>)" (is "recordsInv ?v")
proof -
  have e: "events (rep ?v) = events (rep u)" "latest (rep ?v) = latest (rep u)"
    by (simp_all add: forgetStale_def Let_def)
  have "sessionOk i ?v" for i
    by (rule sessionOk_frame [of _ u])
      (use assms e in \<open>auto simp: recordsInv_def history_def queued_def forgetStale_def Let_def split: option.splits\<close>)
  moreover have "queueOk (rep ?v)" using assms e unfolding recordsInv_def queueOk_def by metis
  ultimately show ?thesis by (simp add: recordsInv_def)
qed

section \<open>Flushing and putting back\<close>

lemma recordsOf_latest:
  assumes "distinct ids" and "\<And>i x. lat i = Some x \<Longrightarrow> SessionID x = i \<and> RecType x = Usage"
  shows "recordsOf sid (List.map_filter lat ids) = (if sid \<in> set ids then (case lat sid of None \<Rightarrow> [] | Some x \<Rightarrow> [x]) else [])"
  using assms by (induction ids) (auto simp: map_filter_simps split: option.splits)

lemma recordsOf_viewers: "recordsOf sid (map (\<lambda>(kid, t). viewerRecord now run kid t) ts) = []"
  by (induction ts) (auto simp: viewerRecord_def)

lemma recordsInv_flush:
  assumes inv: "recordsInv u" and empty: "flight u = []"
    and ids: "distinct ids" "set ids = dom (latest (rep u))"
    and fb: "flushBegin now kids ids (rep u) = (unsent, tot, r)"
  shows "recordsInv (u \<lparr>rep := r, flight := unsent, totals := tot\<rparr>)" (is "recordsInv ?v")
proof -
  have q: "queueOk (rep u)" and ok: "sessionOk i u" for i using inv by (simp_all add: recordsInv_def)
  from fb have r: "r = rep u \<lparr>events := [], latest := Map.empty\<rparr>"
    and un: "unsent = flushRecords (events (rep u)) (List.map_filter (latest (rep u)) ids)
        (map (\<lambda>(kid, t). viewerRecord now (runID (rep u)) kid t) (collectTotals kids (rep u)))"
    by (simp_all add: flushBegin_def Let_def)
  have lat: "recordsOf i (List.map_filter (latest (rep u)) ids)
      = recordsOf i (case latest (rep u) i of None \<Rightarrow> [] | Some x \<Rightarrow> [x])" for i
    using recordsOf_latest [OF ids(1), of "latest (rep u)" i] q ids(2)
    by (auto simp: queueOk_def split: option.splits)
  have "history i ?v = history i u" for i
    by (simp add: history_def empty r un queued_def flushRecords_def lat recordsOf_viewers)
  moreover have "queueOk (rep ?v)" by (simp add: r queueOk_def)
  ultimately show ?thesis using ok by (auto simp: recordsInv_def sessionOk_def r)
qed

lemma requeue_latest:
  "fold (requeueOne live) rs lat i
     = (case lat i of Some x \<Rightarrow> Some x
        | None \<Rightarrow> if live i = None then None
            else find (\<lambda>x. SessionID x = i \<and> \<not> (RecType x = Viewers \<or> isEvent x)) rs)"
  by (induction rs arbitrary: lat) (auto simp: requeueOne_def split: option.splits)

lemma ordered_rest:
  assumes o: "ordered (xs @ old)" and new: "sorted (ranks new)" "set new \<subseteq> set old"
    "count_list (ranks new) 0 \<le> count_list (ranks old) 0" "count_list (ranks new) 2 \<le> count_list (ranks old) 2"
  shows "ordered (xs @ new)"
proof -
  have sub: "set (ranks new) \<subseteq> set (ranks old)" using new(2) by auto
  have "\<forall>x \<in> set (ranks xs). \<forall>y \<in> set (ranks old). x \<le> y" "sorted (ranks xs)"
    using o unfolding ordered_def map_append sorted_append by blast+
  with new(1) sub have "sorted (ranks (xs @ new))" unfolding map_append sorted_append by blast
  moreover have "3 \<notin> set (ranks (xs @ new))" using o sub unfolding ordered_def map_append set_append by blast
  moreover have "count_list (ranks (xs @ new)) n \<le> count_list (ranks (xs @ old)) n"
    if "count_list (ranks new) n \<le> count_list (ranks old) n" for n using that by simp
  ultimately show ?thesis using o new(3,4) unfolding ordered_def by (meson le_trans)
qed

text \<open>
  Records put back behind those answered: opens, the usage kept of them, and closes keep the order
  whatever was queued since.
\<close>

lemma ordered_requeued:
  assumes o: "ordered (xs @ fs @ os @ us @ cs)"
    and types: "\<And>x. x \<in> set os \<Longrightarrow> RecType x = SessionOpen" "\<And>x. x \<in> set cs \<Longrightarrow> RecType x = SessionClose"
      "\<And>x. x \<in> set us' \<Longrightarrow> RecType x = Usage"
    and us: "set us' \<subseteq> set us \<union> set fs"
  shows "ordered (xs @ filter (\<lambda>x. RecType x = SessionOpen) fs @ os @ us' @ filter (\<lambda>x. RecType x = SessionClose) fs @ cs)"
    (is "ordered (xs @ ?new)")
proof -
  let ?old = "fs @ os @ us @ cs"
  have sub: "set ?new \<subseteq> set ?old" using us by auto
  have f: "count_list (ranks (filter (\<lambda>x. RecType x = t) fs)) (rank t) \<le> count_list (ranks fs) (rank t)" for t
    by (rule count_list_subseq) (intro subseq_map subseq_filter_left)
  have none: "count_list (ranks ys) n = 0" if "\<And>x. x \<in> set ys \<Longrightarrow> rank (RecType x) \<noteq> n" for ys n
    using that by (intro count_notin) auto
  have "count_list (ranks (filter (\<lambda>x. RecType x = SessionClose) fs)) 0 = 0"
    "count_list (ranks (filter (\<lambda>x. RecType x = SessionOpen) fs)) 2 = 0"
    "count_list (ranks os) 2 = 0" "count_list (ranks cs) 0 = 0" "count_list (ranks us') 0 = 0" "count_list (ranks us') 2 = 0"
    by (rule none, use types in fastforce)+
  with f [of SessionOpen] f [of SessionClose]
  have counts: "count_list (ranks ?new) 0 \<le> count_list (ranks ?old) 0"
      "count_list (ranks ?new) 2 \<le> count_list (ranks ?old) 2"
    by simp_all
  have same: "sorted (ranks ys)" if "\<forall>x \<in> set ys. RecType x = t" for ys t
    using that by (induction ys) auto
  have "sorted (ranks os)" "sorted (ranks cs)" "sorted (ranks us')" "sorted (ranks (filter (\<lambda>x. RecType x = t) fs))" for t
    by (rule same [of _ SessionOpen], use types in blast) (rule same [of _ SessionClose], use types in blast,
      rule same [of _ Usage], use types in blast, rule same [of _ t], simp)
  then have "sorted (ranks ?new)" using types by (auto simp: sorted_append)
  from ordered_rest [OF o this sub counts] show ?thesis .
qed

lemma recordsInv_requeue:
  assumes inv: "recordsInv u"
  shows "recordsInv (u \<lparr>rep := requeue (flight u) (rep u), flight := []\<rparr>)" (is "recordsInv ?v")
proof -
  have q: "queueOk (rep u)" and ok: "sessionOk i u" for i using inv by (simp_all add: recordsInv_def)
  let ?lat = "fold (requeueOne (sessions (rep u))) (flight u) (latest (rep u))"
  have three: "3 \<notin> set (ranks (recordsOf i (flight u)))" for i
    using ok [of i] by (auto simp: sessionOk_def ordered_def history_def)
  have lat: "SessionID x = i \<and> RecType x = Usage \<and> (latest (rep u) i = Some x \<or> x \<in> set (recordsOf i (flight u)))"
    if "?lat i = Some x" for i x
  proof (cases "latest (rep u) i")
    case (Some y)
    then show ?thesis using that q by (simp add: requeue_latest queueOk_def)
  next
    case None
    with that have x: "x \<in> set (flight u)" "SessionID x = i" "RecType x \<noteq> Viewers" "\<not> isEvent x"
      by (auto simp: requeue_latest find_Some_iff split: if_splits)
    then have m: "x \<in> set (recordsOf i (flight u))" by (simp add: recordsOf_def)
    with three [of i] have "rank (RecType x) \<noteq> 3" by auto
    with x have "RecType x = Usage" by (cases "RecType x") (auto simp: isEvent_def)
    with m x(2) show ?thesis by simp
  qed
  have "\<forall>x \<in> set (filter isEvent (flight u) @ events (rep u)). isEvent x" using q by (auto simp: queueOk_def list_all_iff)
  moreover have "set (events (rep ?v)) \<subseteq> set (filter isEvent (flight u) @ events (rep u))"
    using set_subseq [OF keepNewest_subseq, of "filter isEvent (flight u) @ events (rep u)"] by (simp add: requeue_def)
  ultimately have "list_all isEvent (events (rep ?v))" unfolding list_all_iff by blast
  moreover have "latest (rep ?v) = ?lat" by (simp add: requeue_def)
  ultimately have "queueOk (rep ?v)" unfolding queueOk_def using lat by presburger
  moreover have "sessionOk i ?v" for i
  proof -
    let ?w = "?v \<lparr>rep := (rep ?v) \<lparr>events := filter isEvent (flight u) @ events (rep u)\<rparr>\<rparr>"
    let ?fs = "recordsOf i (flight u)" and ?us = "case latest (rep u) i of None \<Rightarrow> [] | Some x \<Rightarrow> [x]"
    let ?us' = "case ?lat i of None \<Rightarrow> [] | Some x \<Rightarrow> [x]"
    let ?os = "recordsOf i (filter (\<lambda>e. RecType e = SessionOpen) (events (rep u)))"
    let ?cs = "recordsOf i (filter (\<lambda>e. RecType e = SessionClose) (events (rep u)))"
    have split: "recordsOf i (filter (\<lambda>e. RecType e = t) (filter isEvent (flight u))) = filter (\<lambda>x. RecType x = t) ?fs"
      if "t = SessionOpen \<or> t = SessionClose" for t
      using that by (auto simp: recordsOf_def isEvent_def intro!: filter_cong)
    have us: "recordsOf i ?us = ?us" using q by (auto simp: queueOk_def split: option.splits)
    have us': "recordsOf i ?us' = ?us'" "\<And>x. x \<in> set ?us' \<Longrightarrow> RecType x = Usage" "set ?us' \<subseteq> set ?us \<union> set ?fs"
      using lat [of i] by (cases "?lat i"; force split: option.splits)+
    have old: "history i u = recordsOf i (answered u) @ ?fs @ ?os @ ?us @ ?cs"
      by (simp add: history_def queued_def flushRecords_def us)
    have w: "answered ?w = answered u" "flight ?w = []" "events (rep ?w) = filter isEvent (flight u) @ events (rep u)"
      "latest (rep ?w) = ?lat" by (simp_all add: requeue_def)
    have new: "history i ?w = recordsOf i (answered u) @ filter (\<lambda>x. RecType x = SessionOpen) ?fs @ ?os @ ?us'
        @ filter (\<lambda>x. RecType x = SessionClose) ?fs @ ?cs"
      unfolding history_def queued_def flushRecords_def w recordsOf_simps filter_append us'(1)
        split [OF disjI1 [OF refl]] split [OF disjI2 [OF refl]] by (simp only: append_assoc append_Nil)
    have "ordered (history i ?w)" unfolding new
    proof (rule ordered_requeued)
      show "ordered (recordsOf i (answered u) @ ?fs @ ?os @ ?us @ ?cs)" using ok [of i] old by (simp add: sessionOk_def)
      show "RecType x = SessionOpen" if "x \<in> set ?os" for x using that by (simp add: recordsOf_def)
      show "RecType x = SessionClose" if "x \<in> set ?cs" for x using that by (simp add: recordsOf_def)
    qed (fact us'(2), fact us'(3))
    moreover have "set (history i ?w) \<subseteq> set (history i u)" unfolding new old using us'(3) by auto
    moreover have "subseq (history i ?v) (history i ?w)"
      using queued_events_mono [OF keepNewest_subseq [of "filter isEvent (flight u) @ events (rep u)"], of i "rep ?v"]
      by (simp add: history_def subseq_append' requeue_def)
    ultimately show ?thesis
      by (intro sessionOk_subset [OF ok]) (auto intro: ordered_subseq dest: set_subseq simp: requeue_def)
  qed
  ultimately show ?thesis by (simp add: recordsInv_def)
qed

lemma recordsInv_sends:
  assumes inv: "recordsInv u" and fb: "flushBatch out (totals u) (flight u) (rep u) = (rest, r)"
  shows "recordsInv (u \<lparr>rep := r, flight := rest,
      answered := answered u @ (if out = sendFailed then [] else take maxBatchRecords (flight u))\<rparr>)" (is "recordsInv ?v")
proof (cases "out = sendFailed")
  case True
  then show ?thesis using recordsInv_requeue [OF inv] fb by (auto simp: flushBatch_def)
next
  case False
  with fb have r: "rest = drop maxBatchRecords (flight u)" "r = acknowledge (take maxBatchRecords (flight u)) (totals u) (rep u)"
    by (cases out; simp add: flushBatch_def)+
  have "history i ?v = history i u" for i
    using False recordsOf_simps(2) [of i "take maxBatchRecords (flight u)" "drop maxBatchRecords (flight u)"]
    by (simp add: history_def r acknowledge_def)
  then show ?thesis using inv by (auto simp: recordsInv_def sessionOk_def queueOk_def r acknowledge_def)
qed

lemma usage_records:
  "usage_reach run u \<Longrightarrow> recordsInv u"
proof (induction rule: usage_reach.induct)
  case start
  show ?case
    by (simp add: recordsInv_def newRun_def newUsageReporter_def queueOk_def sessionOk_def history_def queued_def flushRecords_def)
next
  case (step u v)
  from step(2) show ?case
  proof (cases rule: usage_step.cases)
    case opens
    then show ?thesis using recordsInv_open [OF step(3)] by blast
  next
    case publishes
    then show ?thesis using recordsInv_publishing [OF step(3)] by blast
  next
    case revalidates
    then show ?thesis using recordsInv_revalidated [OF step(3)] by simp
  next
    case closes
    then show ?thesis using recordsInv_close [OF step(3)] by simp
  next
    case forgets
    then show ?thesis using recordsInv_forget [OF step(3)] by simp
  next
    case flushes
    then show ?thesis using recordsInv_flush [OF step(3)] by simp
  next
    case sends
    then show ?thesis using recordsInv_sends [OF step(3)] by simp
  qed
qed

section \<open>Valid records\<close>

definition recordOk :: "usageRecord \<Rightarrow> bool" where
  "recordOk x \<longleftrightarrow> Validate x = None"

definition repOk :: "string \<Rightarrow> usageReporter \<Rightarrow> bool" where
  "repOk run r \<longleftrightarrow> runID r = run \<and> (\<forall>x \<in> set (events r) \<union> ran (latest r). recordOk x)
     \<and> (\<forall>sid s. sessions r sid = Some s \<longrightarrow> sid \<noteq> [] \<and> uKid s \<noteq> []) \<and> [] \<notin> dom (viewers r)"

definition validInv :: "string \<Rightarrow> usageRun \<Rightarrow> bool" where
  "validInv run u \<longleftrightarrow> (\<forall>x \<in> set (answered u) \<union> set (flight u). recordOk x) \<and> repOk run (rep u)"

lemma clampInt64_bounds: "0 \<le> clampInt64 v \<and> clampInt64 v < 2 ^ 63"
proof (cases "v > 9223372036854775807")
  case False
  then have "uint v < 2 ^ 63" by (simp add: word_less_def word_le_def)
  moreover have "0 \<le> uint v" by simp
  then have "- (2 ^ 63) \<le> uint v" by (rule order_trans [rotated]) simp
  ultimately have "sint v = uint v" using signed_take_bit_int_eq_self [of 63 "uint v"] by (simp add: sint_uint)
  with \<open>uint v < 2 ^ 63\<close> False show ?thesis by (simp add: clampInt64_def)
qed (simp add: clampInt64_def)

lemma metrics_ok: "find (\<lambda>m. snd m < 0) (usageMetrics b) = None" "usageMetrics b \<noteq> []"
  using clampInt64_bounds by (auto simp: usageMetrics_def find_None_iff not_less)

lemma clock_ts: "clockOk now \<Longrightarrow> truncateSecond now \<noteq> zeroTime"
proof -
  assume "clockOk now"
  then have "truncateSecond (zeroTime + second) \<le> truncateSecond now" unfolding clockOk_def by (rule truncateSecond_mono)
  moreover have "truncateSecond (zeroTime + second) = zeroTime + second"
    by (simp add: truncateSecond_def zeroTime_def unixToInternal_def second_def)
  ultimately show ?thesis by (smt (verit) second_pos)
qed

lemma session_record_ok:
  assumes "clockOk now" "sid \<noteq> []" "uKid s \<noteq> []" and "t \<in> {SessionOpen, Usage, SessionClose}"
  shows "t = SessionOpen \<Longrightarrow> recordOk (recordOf now t sid s)"
    and "recordOk (recordOf now t sid s \<lparr>Metrics := usageMetrics b\<rparr>)"
    and "recordOk (recordOf now t sid s \<lparr>Metrics := usageMetrics b, Reason := reason\<rparr>)"
  using assms clock_ts [OF assms(1)] metrics_ok [of b]
  by (auto simp: recordOk_def Validate_def checkSession_def recordOf_def)

lemma viewer_record_ok: "clockOk now \<Longrightarrow> run \<noteq> [] \<Longrightarrow> kid \<noteq> [] \<Longrightarrow> recordOk (viewerRecord now run kid t)"
  using clock_ts metrics_ok by (auto simp: recordOk_def Validate_def checkSession_def viewerRecord_def)

lemma repOk_append: "repOk run r \<Longrightarrow> recordOk x \<Longrightarrow> repOk run (appendEvent x r)"
  using set_subseq [OF keepNewest_subseq, of "events r @ [x]"] by (auto simp: repOk_def appendEvent_def)

lemma repOk_session:
  "repOk run r \<Longrightarrow> sid \<noteq> [] \<Longrightarrow> uKid s \<noteq> [] \<Longrightarrow> repOk run (r \<lparr>sessions := (sessions r)(sid \<mapsto> s)\<rparr>)"
  by (auto simp: repOk_def)

lemma countViewer_viewers: "dom (viewers (snd (countViewer s b r))) = insert (uKid s) (dom (viewers r))"
  by (auto simp: countViewer_def Let_def split_beta)

lemma repOk_count: "repOk run r \<Longrightarrow> uKid s \<noteq> [] \<Longrightarrow> repOk run (snd (countViewer s b r))"
  using countViewer_viewers [of s b r] by (simp add: repOk_def)

lemma repOk_ops:
  assumes r: "repOk run r" and now: "clockOk now"
  shows "sid \<noteq> [] \<Longrightarrow> uKid s \<noteq> [] \<Longrightarrow> repOk run (usageOpen now sid s r)"
    and "repOk run (publishing now sid r)"
    and "repOk run (revalidated now sid b live r)"
    and "repOk run (snd (usageClose now sid b reason r))"
proof -
  show "repOk run (usageOpen now sid s r)" if "sid \<noteq> []" "uKid s \<noteq> []"
    using r that session_record_ok [OF now that(1), of "s \<lparr>uSeen := now\<rparr>" SessionOpen]
    by (auto simp: usageOpen_def Let_def intro!: repOk_append repOk_session)
  have known: "sid \<noteq> []" "uKid s \<noteq> []" if "sessions r sid = Some s" for s using r that by (auto simp: repOk_def)
  show "repOk run (publishing now sid r)"
  proof (cases "sessions r sid")
    case (Some s)
    with known session_record_ok [OF now, of sid "s \<lparr>uPublishes := True\<rparr>" SessionOpen] r show ?thesis
      by (auto simp: publishing_def Let_def intro!: repOk_append repOk_session)
  qed (simp add: publishing_def r)
  show "repOk run (revalidated now sid b live r)"
  proof (cases "sessions r sid")
    case (Some s)
    let ?s = "if live then s \<lparr>uSeen := now\<rparr> else s"
    have "recordOk (recordOf now Usage sid ?s \<lparr>Metrics := usageMetrics (since b (uCounted ?s))\<rparr>)"
      using known [OF Some] by (intro session_record_ok(2) [OF now]) simp_all
    then have latest: "repOk run (r \<lparr>latest := (latest r)(sid \<mapsto> recordOf now Usage sid ?s \<lparr>Metrics := usageMetrics (since b (uCounted ?s))\<rparr>)\<rparr>)"
      using r by (auto simp: repOk_def ran_def)
    have k: "sid \<noteq> []" "uKid ?s \<noteq> []" using known [OF Some] by simp_all
    show ?thesis
    proof (cases "uPublishes s")
      case False
      then have "revalidated now sid b live r
          = snd (countViewer ?s b r) \<lparr>sessions := (sessions (snd (countViewer ?s b r)))(sid \<mapsto> fst (countViewer ?s b r))\<rparr>"
        using Some by (auto simp: revalidated_def Let_def split_beta)
      then show ?thesis using repOk_session [OF repOk_count [OF r k(2)] k(1), of "fst (countViewer ?s b r)" b] k(2) by simp
    next
      case True
      then show ?thesis
        using Some repOk_session [OF r k] repOk_session [OF latest k] by (auto simp: revalidated_def Let_def)
    qed
  qed (simp add: revalidated_def r)
  show "repOk run (snd (usageClose now sid b reason r))"
  proof (cases "sessions r sid")
    case None
    then show ?thesis using r by (simp add: usageClose_def repOk_def)
  next
    case (Some s)
    let ?x = "recordOf now SessionClose sid s \<lparr>Metrics := usageMetrics (since b (uCounted s)), Reason := reason\<rparr>"
    have x: "recordOk ?x" using known [OF Some] by (intro session_record_ok(3) [OF now]) simp_all
    show ?thesis
    proof (cases "uPublishes s")
      case False
      have "repOk run (r \<lparr>closedAt := (closedAt r)(sid \<mapsto> now), sessions := (sessions r)(sid := None)\<rparr>)"
        using r by (auto simp: repOk_def)
      from repOk_count [OF this, of s b] known [OF Some] False Some show ?thesis by (simp add: usageClose_def)
    next
      case True
      then have "snd (usageClose now sid b reason r) = appendEvent ?x (r \<lparr>closedAt := (closedAt r)(sid \<mapsto> now),
          sessions := (sessions r)(sid := None), latest := (latest r)(sid := None)\<rparr>)"
        using Some by (simp add: usageClose_def)
      moreover have "repOk run (r \<lparr>closedAt := (closedAt r)(sid \<mapsto> now), sessions := (sessions r)(sid := None),
          latest := (latest r)(sid := None)\<rparr>)"
        using r by (auto simp: repOk_def ran_def split: if_splits)
      ultimately show ?thesis using x by (simp add: repOk_append)
    qed
  qed
qed

lemma flush_unsent:
  assumes "flushBegin now kids ids r = (unsent, tot, r')" and "x \<in> set unsent"
  shows "x \<in> set (events r) \<or> x \<in> ran (latest r)
    \<or> (\<exists>kid t. x = viewerRecord now (runID r) kid t \<and> (kid, t) \<in> set (collectTotals kids r))"
proof -
  have "y \<in> ran (latest r)" if "y \<in> set (List.map_filter (latest r) ids)" for y
    using that by (induction ids) (auto simp: ran_def split: option.splits)
  with assms show ?thesis by (auto simp: flushBegin_def Let_def flushRecords_def)
qed

lemma usage_valid:
  assumes "usage_reach run u" and "run \<noteq> []"
  shows "validInv run u"
  using assms(1)
proof (induction rule: usage_reach.induct)
  case start
  show ?case by (simp add: validInv_def repOk_def newRun_def newUsageReporter_def)
next
  case (step u v)
  then have r: "repOk run (rep u)" and old: "\<forall>x \<in> set (answered u) \<union> set (flight u). recordOk x"
    by (simp_all add: validInv_def)
  from step(2) show ?case
  proof (cases rule: usage_step.cases)
    case (opens sid kid now p)
    then show ?thesis using old repOk_ops(1) [OF r opens(5), of sid] by (simp add: validInv_def)
  next
    case (publishes now sid)
    then show ?thesis using old repOk_ops(2) [OF r] by (simp add: validInv_def)
  next
    case (revalidates now sid b live)
    then show ?thesis using old repOk_ops(3) [OF r] by (simp add: validInv_def)
  next
    case (closes now sid b reason)
    then show ?thesis using old repOk_ops(4) [OF r] by (simp add: validInv_def)
  next
    case (forgets now)
    then show ?thesis using old r by (auto simp: validInv_def repOk_def forgetStale_def Let_def split: option.splits if_splits)
  next
    case (flushes now kids ids unsent tot r')
    have "recordOk x" if "x \<in> set unsent" for x
    proof -
      have "kid \<noteq> []" if "(kid, t) \<in> set (collectTotals kids (rep u))" for kid t
        using that r by (auto simp: repOk_def collectTotals_def map_filter_def split: option.splits if_splits)
      with flush_unsent [OF flushes(8) that] show ?thesis
        using r viewer_record_ok [OF flushes(3) assms(2)] unfolding repOk_def by blast
    qed
    moreover have "r' = rep u \<lparr>events := [], latest := Map.empty\<rparr>" using flushes(8) by (simp add: flushBegin_def Let_def)
    then have "repOk run r'" using r by (simp add: repOk_def)
    ultimately show ?thesis using flushes(1) old by (auto simp: validInv_def)
  next
    case (sends out rest r')
    show ?thesis
    proof (cases "out = sendFailed")
      case True
      let ?es = "filter isEvent (flight u) @ events (rep u)"
      have "set (keepNewest ?es) \<subseteq> set (flight u) \<union> set (events (rep u))"
        using set_subseq [OF keepNewest_subseq, of ?es] by auto
      moreover have "ran (fold (requeueOne (sessions (rep u))) (flight u) (latest (rep u))) \<subseteq> set (flight u) \<union> ran (latest (rep u))"
        by (auto simp: ran_def requeue_latest find_Some_iff split: option.splits if_splits)
      ultimately have "\<forall>x \<in> set (keepNewest ?es) \<union> ran (fold (requeueOne (sessions (rep u))) (flight u) (latest (rep u))). recordOk x"
        using old r unfolding repOk_def by blast
      then have "repOk run (requeue (flight u) (rep u))" using r by (simp add: repOk_def requeue_def)
      moreover have "v = u \<lparr>rep := requeue (flight u) (rep u), flight := []\<rparr>" using True sends by (auto simp: flushBatch_def)
      ultimately show ?thesis using old by (simp add: validInv_def)
    next
      case False
      with sends(3) have rest: "rest = drop maxBatchRecords (flight u)"
        "r' = acknowledge (take maxBatchRecords (flight u)) (totals u) (rep u)"
        by (cases out; simp add: flushBatch_def)+
      have "dom (fold (acknowledgeOne t) xs vs) = dom vs" for t xs vs
        by (induction xs arbitrary: vs) (auto simp: acknowledgeOne_def split: option.splits)
      then have "repOk run r'" using r unfolding rest(2) by (simp add: repOk_def acknowledge_def)
      then show ?thesis using sends(1) False old rest(1) by (auto simp: validInv_def dest: in_set_dropD in_set_takeD)
    qed
  qed
qed

section \<open>What is billed\<close>

text \<open>
  The viewer total of a key is the sum of what its sessions gave it, and a session knows how much
  that is.
\<close>

definition billInv :: "usageRun \<Rightarrow> bool" where
  "billInv u \<longleftrightarrow>
     finite (known u) \<and> (\<forall>i. i \<notin> known u \<longrightarrow> gained u i = noBytes)
     \<and> (\<forall>i s. sessions (rep u) i = Some s \<longrightarrow> i \<in> known u \<and> kidOf u i = uKid s \<and> gained u i = uCounted s)
     \<and> (\<forall>kid. Sent (totalOf (rep u) kid) = (\<Sum>i \<in> {i \<in> known u. kidOf u i = kid}. Sent (gained u i))
          \<and> Received (totalOf (rep u) kid) = (\<Sum>i \<in> {i \<in> known u. kidOf u i = kid}. Received (gained u i)))"

lemma sum_update:
  fixes f g :: "'a \<Rightarrow> 'b::ab_group_add"
  assumes "finite A" and "x \<in> A" and "\<And>i. i \<noteq> x \<Longrightarrow> g i = f i"
  shows "sum g A = sum f A + (g x - f x)"
proof -
  have "sum g (A - {x}) = sum f (A - {x})" by (rule sum.cong) (use assms(3) in auto)
  then show ?thesis using sum.remove [OF assms(1,2), of f] sum.remove [OF assms(1,2), of g] by simp
qed

lemma countViewer_total:
  "totalOf (snd (countViewer s b r)) kid
     = (if kid = uKid s
        then \<lparr>Sent = Sent (totalOf r kid) + (Sent (uCounted (fst (countViewer s b r))) - Sent (uCounted s)),
              Received = Received (totalOf r kid) + (Received (uCounted (fst (countViewer s b r))) - Received (uCounted s))\<rparr>
        else totalOf r kid)"
  by (simp add: totalOf_def countViewer_def Let_def split_beta split: option.splits)

lemma countViewer_counted:
  "uCounted (fst (countViewer s b r))
     = \<lparr>Sent = max (Sent (uCounted s)) (Sent b), Received = max (Received (uCounted s)) (Received b)\<rparr>"
  by (auto simp: countViewer_def Let_def split_beta max_def)

lemma totalOf_keeps [simp]:
  "totalOf (r \<lparr>sessions := m\<rparr>) = totalOf r" "totalOf (r \<lparr>closedAt := c\<rparr>) = totalOf r" "totalOf (r \<lparr>latest := l\<rparr>) = totalOf r"
  "totalOf (r \<lparr>events := e\<rparr>) = totalOf r" "totalOf (appendEvent x r) = totalOf r"
  by (simp_all add: totalOf_def fun_eq_iff)

text \<open>An operation that leaves the totals alone, and one that counts for a viewer.\<close>

lemma billInv_same:
  assumes inv: "billInv u" and tot: "totalOf r = totalOf (rep u)"
    and live: "\<And>i s. sessions r i = Some s \<Longrightarrow> \<exists>s'. sessions (rep u) i = Some s' \<and> uKid s' = uKid s \<and> uCounted s' = uCounted s"
  shows "billInv (credit sid r u)" and "billInv (u \<lparr>rep := r\<rparr>)"
proof -
  have live': "i \<in> known u \<and> kidOf u i = uKid s \<and> gained u i = uCounted s" if "sessions r i = Some s" for i s
    using live [OF that] inv by (auto simp: billInv_def)
  have g: "gained (credit sid r u) = gained u"
    by (simp add: credit_def Let_def tot fun_eq_iff)
  show "billInv (credit sid r u)" "billInv (u \<lparr>rep := r\<rparr>)"
    using inv live' by (simp_all add: billInv_def g tot)
qed

lemma billInv_count:
  assumes inv: "billInv u" and s: "sessions (rep u) sid = Some s"
    and tot: "totalOf r = totalOf (snd (countViewer s b (rep u)))"
    and live: "\<And>i s'. sessions r i = Some s' \<Longrightarrow>
      if i = sid then uKid s' = uKid s \<and> uCounted s' = uCounted (fst (countViewer s b (rep u)))
      else sessions (rep u) i = Some s'"
  shows "billInv (credit sid r u)"
proof -
  let ?c = "uCounted (fst (countViewer s b (rep u)))" and ?v = "credit sid r u"
  have k: "sid \<in> known u" "kidOf u sid = uKid s" "gained u sid = uCounted s" and fin: "finite (known u)"
    using inv s by (auto simp: billInv_def)
  have g: "gained ?v = (gained u)(sid := ?c)"
    by (simp add: credit_def Let_def tot countViewer_total k countViewer_counted)
  have sums: "(\<Sum>i \<in> {i \<in> known u. kidOf u i = kid}. f (gained ?v i))
      = (\<Sum>i \<in> {i \<in> known u. kidOf u i = kid}. f (gained u i)) + (if kid = uKid s then f ?c - f (uCounted s) else 0)"
    for kid and f :: "Bytes \<Rightarrow> u64"
  proof (cases "kid = uKid s")
    case True
    then show ?thesis
      using sum_update [of "{i \<in> known u. kidOf u i = kid}" sid "\<lambda>i. f (gained ?v i)" "\<lambda>i. f (gained u i)"] fin k
      by (simp add: g)
  next
    case False
    then have "(\<Sum>i \<in> {i \<in> known u. kidOf u i = kid}. f (gained ?v i)) = (\<Sum>i \<in> {i \<in> known u. kidOf u i = kid}. f (gained u i))"
      using k by (intro sum.cong) (auto simp: g)
    then show ?thesis using False by simp
  qed
  have "i \<in> known u \<and> kidOf u i = uKid s' \<and> gained ?v i = uCounted s'" if "sessions r i = Some s'" for i s'
    using live [OF that] k inv by (auto simp: g billInv_def split: if_splits)
  moreover have "Sent (totalOf r kid) = (\<Sum>i \<in> {i \<in> known u. kidOf u i = kid}. Sent (gained ?v i))
      \<and> Received (totalOf r kid) = (\<Sum>i \<in> {i \<in> known u. kidOf u i = kid}. Received (gained ?v i))" for kid
    using inv unfolding sums by (simp add: tot countViewer_total billInv_def)
  moreover have "gained ?v i = noBytes" if "i \<notin> known u" for i using that k inv by (auto simp: g billInv_def)
  ultimately show ?thesis using fin by (simp add: billInv_def)
qed

lemma billInv_open:
  assumes inv: "billInv u" and new: "sid \<notin> known u"
    and r: "totalOf r = totalOf (rep u)"
      "\<And>i s. sessions r i = Some s \<Longrightarrow> (i = sid \<and> uKid s = kid \<and> uCounted s = noBytes) \<or> sessions (rep u) i = Some s"
  shows "billInv (u \<lparr>rep := r, known := insert sid (known u), kidOf := (kidOf u)(sid := kid)\<rparr>)" (is "billInv ?v")
proof -
  have fin: "finite (known u)" and zero: "gained u sid = noBytes" using inv new by (auto simp: billInv_def)
  have sums: "(\<Sum>i \<in> {i \<in> known ?v. kidOf ?v i = k}. f (gained u i)) = (\<Sum>i \<in> {i \<in> known u. kidOf u i = k}. f (gained u i))"
    if "f noBytes = 0" for k and f :: "Bytes \<Rightarrow> u64"
  proof -
    have "{i \<in> known ?v. kidOf ?v i = k} = (if kid = k then {sid} else {}) \<union> {i \<in> known u. kidOf u i = k}"
      using new by auto
    moreover have "sid \<notin> {i \<in> known u. kidOf u i = k}" using new by simp
    ultimately show ?thesis using fin zero that by simp
  qed
  have "i \<in> known ?v \<and> kidOf ?v i = uKid s \<and> gained u i = uCounted s" if "sessions r i = Some s" for i s
    using r(2) [OF that] inv zero new unfolding billInv_def by fastforce
  moreover have "gained u i = noBytes" if "i \<notin> known ?v" for i using that inv by (simp add: billInv_def)
  moreover have "Sent (totalOf (rep u) k) = (\<Sum>i \<in> {i \<in> known ?v. kidOf ?v i = k}. Sent (gained u i))
      \<and> Received (totalOf (rep u) k) = (\<Sum>i \<in> {i \<in> known ?v. kidOf ?v i = k}. Received (gained u i))" for k
    using inv by (simp only: sums [of Sent] sums [of Received] Bytes.select_convs billInv_def)
  ultimately show ?thesis unfolding billInv_def using fin r(1) by simp
qed

lemma usage_billing: "usage_reach run u \<Longrightarrow> billInv u"
proof (induction rule: usage_reach.induct)
  case start
  show ?case by (simp add: billInv_def newRun_def newUsageReporter_def totalOf_def)
next
  case (step u v)
  from step(2) show ?case
  proof (cases rule: usage_step.cases)
    case (opens sid kid now p)
    show ?thesis unfolding opens(1)
      by (rule billInv_open [OF step(3) opens(2)]) (auto simp: usageOpen_def Let_def split: if_splits)
  next
    case (publishes now sid)
    show ?thesis unfolding publishes(1)
      by (rule billInv_same(2) [OF step(3)]) (auto simp: publishing_def Let_def split: option.splits if_splits)
  next
    case (revalidates now sid b live)
    show ?thesis
    proof (cases "\<exists>s. sessions (rep u) sid = Some s \<and> \<not> uPublishes s")
      case True
      then obtain s where s: "sessions (rep u) sid = Some s" "\<not> uPublishes s" by blast
      let ?s = "if live then s \<lparr>uSeen := now\<rparr> else s"
      have r: "revalidated now sid b live (rep u) = snd (countViewer ?s b (rep u))
          \<lparr>sessions := (sessions (rep u))(sid \<mapsto> fst (countViewer ?s b (rep u)))\<rparr>"
        using s by (auto simp: revalidated_def Let_def split_beta)
      have "totalOf (snd (countViewer ?s b (rep u))) = totalOf (snd (countViewer s b (rep u)))"
        by (simp add: fun_eq_iff countViewer_total countViewer_counted)
      then show ?thesis unfolding revalidates(1)
        by (intro billInv_count [OF step(3) s(1), where b = b]) (auto simp: r countViewer_counted split: if_splits)
    next
      case False
      then show ?thesis unfolding revalidates(1)
        by (intro billInv_same(1) [OF step(3)]) (auto simp: revalidated_def Let_def split: option.splits if_splits)
    qed
  next
    case (closes now sid b reason)
    show ?thesis
    proof (cases "\<exists>s. sessions (rep u) sid = Some s \<and> \<not> uPublishes s")
      case True
      then obtain s where s: "sessions (rep u) sid = Some s" "\<not> uPublishes s" by blast
      let ?r = "rep u \<lparr>closedAt := (closedAt (rep u))(sid \<mapsto> now), sessions := (sessions (rep u))(sid := None)\<rparr>"
      have r: "snd (usageClose now sid b reason (rep u)) = snd (countViewer s b ?r)"
        using s by (simp add: usageClose_def)
      have "totalOf (snd (countViewer s b ?r)) = totalOf (snd (countViewer s b (rep u)))"
        by (simp add: fun_eq_iff countViewer_total countViewer_counted)
      then show ?thesis unfolding closes(1)
        by (intro billInv_count [OF step(3) s(1), where b = b]) (auto simp: r split: if_splits)
    next
      case False
      then show ?thesis unfolding closes(1)
        by (intro billInv_same(1) [OF step(3)]) (auto simp: usageClose_def Let_def split: option.splits if_splits)
    qed
  next
    case (forgets now)
    show ?thesis unfolding forgets(1)
      by (rule billInv_same(2) [OF step(3)]) (auto simp: forgetStale_def Let_def totalOf_def split: option.splits if_splits)
  next
    case (flushes now kids ids unsent tot r)
    then have "r = rep u \<lparr>events := [], latest := Map.empty\<rparr>" by (simp add: flushBegin_def Let_def)
    then show ?thesis using billInv_same(2) [OF step(3), of r] flushes(1) by (simp add: billInv_def)
  next
    case (sends out rest r)
    have one: "map_option vTotal (acknowledgeOne t x vs k) = map_option vTotal (vs k)" for t x vs k
      by (simp add: acknowledgeOne_def split: option.splits)
    have "map_option vTotal (fold (acknowledgeOne t) xs vs k) = map_option vTotal (vs k)" for t xs vs k
      by (induction xs arbitrary: vs) (simp_all add: one)
    then have "totalOf (acknowledge xs t r') = totalOf r'" for xs t r'
      by (auto simp: totalOf_def acknowledge_def fun_eq_iff split: option.splits) (metis option.map_disc_iff option.map_sel option.sel option.simps(3))+
    with sends(3) have "totalOf r = totalOf (rep u)" "sessions r = sessions (rep u)"
      by (cases out; auto simp: flushBatch_def requeue_def acknowledge_def totalOf_def)+
    then show ?thesis using billInv_same(2) [OF step(3), of r] sends(1) by (simp add: billInv_def)
  qed
qed

lemma clampInt64_difference:
  assumes "y \<le> x" and "uint x < 2 ^ 63"
  shows "clampInt64 (x - y) = uint x - uint y"
proof -
  have d: "uint (x - y) = uint x - uint y"
    using assms(1) by (rule uint_sub_lem [THEN iffD1, unfolded word_le_def [symmetric]])
  then have b: "uint (x - y) < 2 ^ 63" using assms(2) uint_ge_0 [of y] by linarith
  then have "sint (x - y) = uint (x - y)"
    using signed_take_bit_int_eq_self [of 63 "uint (x - y)"] uint_ge_0 [of "x - y"] by (simp add: sint_uint)
  moreover have "\<not> x - y > 9223372036854775807" using b by (simp add: word_less_def)
  ultimately show ?thesis using d by (simp add: clampInt64_def)
qed

lemma keepNewest_snoc: "keepNewest (es @ [x]) \<noteq> []" "last (keepNewest (es @ [x])) = x"
  by (auto simp: keepNewest_def maxPendingEvents_def last_drop)

section \<open>A run\<close>

text \<open>
  A session that watches and then publishes: \<open>watched\<close> is the run up to its first publishing ticket,
  \<open>reported\<close> the run after a revalidate and a flush.
\<close>

definition watched :: usageRun where
  "watched =
     (let u1 = newRun ''r'' \<lparr>rep := usageOpen 0 ''s'' \<lparr>uKid = ''k'', uPublishes = False, uSeen = zeroTime, uCounted = noBytes\<rparr>
            (newUsageReporter ''r''), known := {''s''}, kidOf := (\<lambda>_. [])(''s'' := ''k'')\<rparr>;
          u2 = credit ''s'' (revalidated 0 ''s'' \<lparr>Sent = 5, Received = 7\<rparr> True (rep u1)) u1
      in u2 \<lparr>rep := publishing 0 ''s'' (rep u2)\<rparr>)"

definition reportOnce :: "usageRun \<Rightarrow> usageRun" where
  "reportOnce u =
     (let (unsent, tot, r) = flushBegin 0 [''k''] (if latest (rep u) ''s'' = None then [] else [''s'']) (rep u);
          (rest, r') = flushBatch sendOk tot unsent r
      in u \<lparr>totals := tot, rep := r', flight := rest, answered := answered u @ take maxBatchRecords unsent\<rparr>)"

definition reported :: usageRun where
  "reported = reportOnce (credit ''s'' (revalidated 0 ''s'' \<lparr>Sent = 6, Received = 7\<rparr> True (rep watched)) watched)"

lemmas usage_defs = newRun_def newUsageReporter_def usageOpen_def credit_def revalidated_def countViewer_def totalOf_def
  publishing_def appendEvent_def keepNewest_def recordOf_def Let_def flushBegin_def collectTotals_def changed_def
  flushRecords_def flushBatch_def acknowledge_def acknowledgeOne_def usageClose_def usageMetrics_def since_def viewerRecord_def
  maxPendingEvents_def maxBatchRecords_def

lemma watched_eq:
  "watched = \<lparr>rep = \<lparr>runID = ''r'',
       sessions = [''s'' \<mapsto> \<lparr>uKid = ''k'', uPublishes = True, uSeen = 0, uCounted = \<lparr>Sent = 5, Received = 7\<rparr>\<rparr>],
       events = [\<lparr>RecType = SessionOpen, SessionID = ''s'', RunName = [], KID = ''k'', Metrics = [], Reason = [], TS = truncateSecond 0\<rparr>],
       latest = Map.empty,
       viewers = [''k'' \<mapsto> \<lparr>vTotal = \<lparr>Sent = 5, Received = 7\<rparr>, vReported = noBytes, vSent = False\<rparr>], closedAt = Map.empty\<rparr>,
     flight = [], totals = Map.empty, answered = [], known = {''s''}, kidOf = (\<lambda>_. [])(''s'' := ''k''),
     gained = (\<lambda>_. noBytes)(''s'' := \<lparr>Sent = 5, Received = 7\<rparr>)\<rparr>"
  unfolding watched_def by (simp add: usage_defs)

lemma clock_zero: "clockOk 0"
  by (simp add: clockOk_def zeroTime_def unixToInternal_def second_def)

lemma watched_reach: "usage_reach ''r'' watched"
proof -
  let ?u1 = "newRun ''r'' \<lparr>rep := usageOpen 0 ''s'' \<lparr>uKid = ''k'', uPublishes = False, uSeen = zeroTime, uCounted = noBytes\<rparr>
            (newUsageReporter ''r''), known := {''s''}, kidOf := (\<lambda>_. [])(''s'' := ''k'')\<rparr>"
  have "usage_step (newRun ''r'') ?u1"
    using usage_step.opens [of "''s''" "newRun ''r''" "''k''" 0 False] clock_zero by (simp add: newRun_def)
  then have "usage_reach ''r'' ?u1" by (rule usage_reach.step [OF usage_reach.start])
  from usage_reach.step [OF usage_reach.step [OF this usage_step.revalidates [OF clock_zero]] usage_step.publishes [OF clock_zero]]
  show ?thesis unfolding watched_def Let_def .
qed

lemma reportOnce_reach:
  assumes "usage_reach run u" and "flight u = []" and "dom (viewers (rep u)) = {''k''}" and "dom (latest (rep u)) \<subseteq> {''s''}"
    and "flushBegin 0 [''k''] (if latest (rep u) ''s'' = None then [] else [''s'']) (rep u) = (x # xs, tot, r)"
  shows "usage_reach run (reportOnce u)"
proof -
  let ?v = "u \<lparr>rep := r, flight := x # xs, totals := tot\<rparr>"
  let ?ids = "if latest (rep u) ''s'' = None then [] else [''s'']"
  have "set ?ids = dom (latest (rep u))"
    using assms(4) by (cases "latest (rep u) ''s'' = None") (force simp: dom_def)+
  then have "usage_step u ?v"
    by (intro usage_step.flushes [OF assms(2) clock_zero _ _ _ _ assms(5)]) (simp_all add: assms(3))
  with assms(1) have v: "usage_reach run ?v" by (rule usage_reach.step)
  obtain rest r' where fb: "flushBatch sendOk tot (x # xs) r = (rest, r')" by fastforce
  have "usage_step ?v (?v \<lparr>rep := r', flight := rest, answered := answered ?v @ take maxBatchRecords (x # xs)\<rparr>)"
    using usage_step.sends [of ?v sendOk rest r'] fb by simp
  from usage_reach.step [OF v this] show ?thesis by (simp add: reportOnce_def assms(5) fb Let_def)
qed

lemma reported_reach: "usage_reach ''r'' reported"
  unfolding reported_def
  by (rule reportOnce_reach [OF usage_reach.step [OF watched_reach usage_step.revalidates [OF clock_zero]]])
    (simp_all add: watched_eq usage_defs)

lemma reported_records: "map RecType (recordsOf ''s'' (answered reported)) = [SessionOpen, Usage]"
  by (simp add: reported_def watched_eq reportOnce_def usage_defs)

section \<open>Properties\<close>

lemma ranked_types: "sorted (map rank ts) \<Longrightarrow> 3 \<notin> set (map rank ts) \<Longrightarrow>
    \<exists>n m k. ts = replicate n SessionOpen @ replicate m Usage @ replicate k SessionClose"
proof (induction ts)
  case (Cons t ts)
  then obtain n m k where ts: "ts = replicate n SessionOpen @ replicate m Usage @ replicate k SessionClose" by auto
  have least: "rank t \<le> rank t'" if "t' \<in> set ts" for t' using Cons.prems that by simp
  from Cons.prems have "rank t \<noteq> 3" by auto
  then consider "t = SessionOpen" | "t = Usage" | "t = SessionClose" by (cases t) simp_all
  then show ?case
  proof cases
    case 1
    then show ?thesis using ts by (intro exI [of _ "Suc n"] exI [of _ m] exI [of _ k]) simp
  next
    case 2
    then have "n = 0" using least [of SessionOpen] ts by (cases n) auto
    then show ?thesis using ts 2 by (intro exI [of _ 0] exI [of _ "Suc m"] exI [of _ k]) simp
  next
    case 3
    then have "n = 0" "m = 0" using least [of SessionOpen] least [of Usage] ts by (cases n; auto)+
    then show ?thesis using ts 3 by (intro exI [of _ 0] exI [of _ 0] exI [of _ "Suc k"]) simp
  qed
qed simp



text \<open>
  C14: Every byte is billed once. In every interleaving the viewer total of a key is the sum of what its sessions
  gave it, and when a session ends whose byte totals never went back, what it gave to that total and
  what its close record says together are exactly its final totals, as long as they are below \<open>2 ^ 63\<close>.
\<close>

theorem usage_billed_once:
  assumes "usage_reach run u"
  shows "(\<forall>kid. Sent (totalOf (rep u) kid) = (\<Sum>i \<in> {i \<in> known u. kidOf u i = kid}. Sent (gained u i))
        \<and> Received (totalOf (rep u) kid) = (\<Sum>i \<in> {i \<in> known u. kidOf u i = kid}. Received (gained u i)))
    \<and> (\<forall>sid s b. sessions (rep u) sid = Some s \<and> Sent (gained u sid) \<le> Sent b \<and> Received (gained u sid) \<le> Received b
          \<and> uint (Sent b) < 2 ^ 63 \<and> uint (Received b) < 2 ^ 63 \<longrightarrow>
        (let v = credit sid (snd (usageClose now sid b reason (rep u))) u
         in if uPublishes s
            then gained v sid = gained u sid \<and> events (rep v) \<noteq> []
              \<and> RecType (last (events (rep v))) = SessionClose \<and> SessionID (last (events (rep v))) = sid
              \<and> Metrics (last (events (rep v)))
                  = [(IngressBytes, uint (Received b) - uint (Received (gained v sid))),
                     (EgressBytes, uint (Sent b) - uint (Sent (gained v sid)))]
            else gained v sid = b \<and> events (rep v) = events (rep u)))"
  (is "?sums \<and> ?ends")
proof
  have inv: "billInv u" by (rule usage_billing [OF assms])
  then show ?sums by (simp add: billInv_def)
  show ?ends
  proof (intro allI impI, elim conjE)
    fix sid s and b :: Bytes
    assume s: "sessions (rep u) sid = Some s" and b: "Sent (gained u sid) \<le> Sent b" "Received (gained u sid) \<le> Received b"
      "uint (Sent b) < 2 ^ 63" "uint (Received b) < 2 ^ 63"
    have g: "gained u sid = uCounted s" "kidOf u sid = uKid s" using inv s by (auto simp: billInv_def)
    show "let v = credit sid (snd (usageClose now sid b reason (rep u))) u
         in if uPublishes s
            then gained v sid = gained u sid \<and> events (rep v) \<noteq> []
              \<and> RecType (last (events (rep v))) = SessionClose \<and> SessionID (last (events (rep v))) = sid
              \<and> Metrics (last (events (rep v)))
                  = [(IngressBytes, uint (Received b) - uint (Received (gained v sid))),
                     (EgressBytes, uint (Sent b) - uint (Sent (gained v sid)))]
            else gained v sid = b \<and> events (rep v) = events (rep u)"
    proof (cases "uPublishes s")
      case True
      then show ?thesis using s b g
        by (simp add: usageClose_def credit_def Let_def appendEvent_def keepNewest_snoc usageMetrics_def since_def
            min_absorb2 clampInt64_difference)
    next
      case False
      then show ?thesis using s b g
        by (simp add: usageClose_def credit_def Let_def countViewer_total countViewer_counted max_absorb2)
    qed
  qed
qed

theorem usage_billed_once_witness:
  "gained watched ''s'' = \<lparr>Sent = 5, Received = 7\<rparr> \<and> Sent (totalOf (rep watched) ''k'') = 5
   \<and> Metrics (last (events (snd (usageClose 0 ''s'' \<lparr>Sent = 9, Received = 9\<rparr> ''closed'' (rep watched)))))
       = [(IngressBytes, 2), (EgressBytes, 4)]"
proof -
  let ?b = "\<lparr>Sent = 9, Received = 9\<rparr> :: Bytes"
  have g: "gained watched ''s'' = \<lparr>Sent = 5, Received = 7\<rparr>" by (simp add: watched_eq)
  obtain s where s: "sessions (rep watched) ''s'' = Some s" "uPublishes s" by (simp add: watched_eq)
  have "{i \<in> known watched. kidOf watched i = ''k''} = {''s''}" by (auto simp: watched_eq)
  with usage_billed_once [OF watched_reach, of 0 "''closed''"] have t: "Sent (totalOf (rep watched) ''k'') = 5" by (simp add: g)
  from usage_billed_once [OF watched_reach, THEN conjunct2, rule_format, of "''s''" s ?b 0 "''closed''"] s t g
  show ?thesis by (simp add: Let_def)
qed

end
