(* ===== verification/Base64_Url.thy ===== *)
theory Base64_Url
  imports Prelude
begin

text \<open>
  \<^verbatim>\<open>base64.RawURLEncoding\<close> of the standard library: the URL alphabet without padding. The decoder
  is the one the token package calls, which skips carriage returns and line feeds, refuses any
  other character outside the alphabet and a last group of one character, and ignores the bits
  a short last group has to spare.
\<close>

text \<open>The alphabet \<^verbatim>\<open>A-Z\<close>, \<^verbatim>\<open>a-z\<close>, \<^verbatim>\<open>0-9\<close>, \<^verbatim>\<open>-\<close>, \<^verbatim>\<open>_\<close> by its character codes.\<close>

definition b64char :: "nat \<Rightarrow> char" where
  "b64char n =
     char_of (if n < 26 then n + 65 else if n < 52 then n + 71 else if n < 62 then n - 4
              else if n = 62 then 45 else 95)"

definition b64digit :: "char \<Rightarrow> nat option" where
  "b64digit c =
     (let n = of_char c :: nat
      in if 65 \<le> n \<and> n \<le> 90 then Some (n - 65)
         else if 97 \<le> n \<and> n \<le> 122 then Some (n - 71)
         else if 48 \<le> n \<and> n \<le> 57 then Some (n + 4)
         else if n = 45 then Some 62
         else if n = 95 then Some 63
         else None)"

fun b64digits :: "nat list \<Rightarrow> nat list" where
  "b64digits [] = []"
| "b64digits [a] = [a div 4, a mod 4 * 16]"
| "b64digits [a, b] = [a div 4, a mod 4 * 16 + b div 16, b mod 16 * 4]"
| "b64digits (a # b # c # r) =
     a div 4 # (a mod 4 * 16 + b div 16) # (b mod 16 * 4 + c div 64) # c mod 64 # b64digits r"

fun b64bytes :: "nat list \<Rightarrow> nat list option" where
  "b64bytes [] = Some []"
| "b64bytes [a] = None"
| "b64bytes [a, b] = Some [a * 4 + b div 16]"
| "b64bytes [a, b, c] = Some [a * 4 + b div 16, b mod 16 * 16 + c div 4]"
| "b64bytes (a # b # c # d # r) =
     map_option (\<lambda>bs. (a * 4 + b div 16) # (b mod 16 * 16 + c div 4) # (c mod 4 * 64 + d) # bs) (b64bytes r)"

fun mapAll :: "('a \<Rightarrow> 'b option) \<Rightarrow> 'a list \<Rightarrow> 'b list option" where
  "mapAll f [] = Some []"
| "mapAll f (x # xs) =
     (case f x of None \<Rightarrow> None | Some y \<Rightarrow> map_option (\<lambda>ys. y # ys) (mapAll f xs))"

definition EncodeToString :: "string \<Rightarrow> string" where
  "EncodeToString s = map b64char (b64digits (map of_char s))"

definition DecodeString :: "string \<Rightarrow> string option" where
  "DecodeString s =
     (case mapAll b64digit (filter (\<lambda>c. c \<noteq> CHR 0x0A \<and> c \<noteq> CHR 0x0D) s) of
        None \<Rightarrow> None
      | Some ds \<Rightarrow> map_option (map char_of) (b64bytes ds))"

lemma mapAll_map: "\<forall>x \<in> set xs. f (g x) = Some x \<Longrightarrow> mapAll f (map g xs) = Some xs"
  by (induction xs) auto

lemma b64char_code: "n < 64 \<Longrightarrow> of_char (b64char n) = (if n < 26 then n + 65 else if n < 52 then n + 71
    else if n < 62 then n - 4 else if n = 62 then 45 else 95)"
  by (simp add: b64char_def)

lemma b64_inverse: "n < 64 \<Longrightarrow> b64digit (b64char n) = Some n"
  unfolding b64digit_def Let_def by (simp only: b64char_code) (auto split: if_splits)

lemma b64_alphabet: "n < 64 \<Longrightarrow> b64char n \<noteq> CHR 0x0A \<and> b64char n \<noteq> CHR 0x0D \<and> b64char n \<noteq> CHR ''.''"
proof -
  assume "n < 64"
  then have "45 \<le> (of_char (b64char n) :: nat) \<and> (of_char (b64char n) :: nat) \<noteq> 46"
    by (simp add: b64char_code) arith
  then show ?thesis by auto
qed

lemma b64_url_safe: "n < 64 \<Longrightarrow> b64char n \<notin> set ''&;%+=''"
proof -
  assume "n < 64"
  then have "(of_char (b64char n) :: nat) \<notin> {38, 59, 37, 43, 61}" by (simp add: b64char_code) arith
  then show ?thesis by auto
qed

lemma b64digits_small: "\<forall>b \<in> set bs. b < 256 \<Longrightarrow> \<forall>d \<in> set (b64digits bs). d < 64"
  by (induction bs rule: b64digits.induct) auto

lemma b64bytes_digits: "\<forall>b \<in> set bs. b < 256 \<Longrightarrow> b64bytes (b64digits bs) = Some bs"
  by (induction bs rule: b64digits.induct) auto

lemma DecodeString_Encode [simp]: "DecodeString (EncodeToString s) = Some s"
proof -
  define bs where "bs = map (of_char :: char \<Rightarrow> nat) s"
  have small: "\<forall>b \<in> set bs. b < 256" by (auto simp: bs_def)
  note dig = b64digits_small [OF small]
  have "filter (\<lambda>c. c \<noteq> CHR 0x0A \<and> c \<noteq> CHR 0x0D) (EncodeToString s) = EncodeToString s"
    using dig by (auto simp: EncodeToString_def bs_def filter_id_conv b64_alphabet)
  moreover have "mapAll b64digit (EncodeToString s) = Some (b64digits bs)"
    unfolding EncodeToString_def bs_def [symmetric] using dig by (intro mapAll_map) (simp add: b64_inverse)
  moreover have "map char_of bs = s" by (simp add: bs_def map_idI)
  ultimately show ?thesis by (simp add: DecodeString_def b64bytes_digits [OF small])
qed

lemma EncodeToString_no_dot: "CHR ''.'' \<notin> set (EncodeToString s)"
  using b64digits_small [of "map of_char s"] b64_alphabet by (force simp: EncodeToString_def)

lemma EncodeToString_url_safe: "c \<in> set (EncodeToString s) \<Longrightarrow> c \<notin> set ''&;%+=''"
  using b64digits_small [of "map of_char s"] b64_url_safe by (force simp: EncodeToString_def)

end
