(* ===== verification/Token.thy ===== *)
theory Token
  imports Go_Time Token_Path Base64_Url Float64 "HOL-Library.Monad_Syntax"
begin

text \<open>
  Capability tokens (\<^verbatim>\<open>src/token/key.go\<close>, \<^verbatim>\<open>src/token/token.go\<close>): key sets and signing keys as JWK,
  signing, and verification with its time checks. JSON text, Ed25519 and SHA-256 are fields of the
  record \<open>platform\<close>, arguments of the definitions; what the package does with the decoded values,
  member by member, is modelled, as is base64; times are those of \<open>Go_Time\<close>.
\<close>

section \<open>Limits\<close>

definition Leeway :: int where "Leeway = 60 * second"

definition MaxLifetime :: int where "MaxLifetime = 3600 * second"

section \<open>JSON values\<close>

text \<open>
  A decoded JSON value; numbers are the \<open>float64\<close> they are decoded to. The decoders below follow
  \<^verbatim>\<open>encoding/json/v2\<close>: \<open>null\<close> and an absent member leave the zero value, a member the struct does not
  name is skipped, and a value of another kind is an error.
\<close>

datatype json = JNull | JBool bool | JNum f64 | JStr string | JArr "json list" | JObj "(string \<times> json) list"

fun asString :: "json \<Rightarrow> string option" where
  "asString JNull = Some []"
| "asString (JStr s) = Some s"
| "asString _ = None"

fun asStrings :: "json \<Rightarrow> string list option" where
  "asStrings JNull = Some []"
| "asStrings (JArr vs) = mapAll asString vs"
| "asStrings _ = None"

fun asStringPtr :: "json \<Rightarrow> string option option" where
  "asStringPtr JNull = Some None"
| "asStringPtr (JStr s) = Some (Some s)"
| "asStringPtr _ = None"

fun asFloatPtr :: "json \<Rightarrow> f64 option option" where
  "asFloatPtr JNull = Some None"
| "asFloatPtr (JNum f) = Some (Some f)"
| "asFloatPtr _ = None"

fun asMembers :: "json \<Rightarrow> (string \<times> json) list option" where
  "asMembers JNull = Some []"
| "asMembers (JObj ms) = Some ms"
| "asMembers _ = None"

fun asArray :: "json \<Rightarrow> json list option" where
  "asArray JNull = Some []"
| "asArray (JArr vs) = Some vs"
| "asArray _ = None"

text \<open>A member by name, \<open>null\<close> where it is absent.\<close>

definition member_of :: "(string \<times> json) list \<Rightarrow> string \<Rightarrow> json" where
  "member_of ms name = (case map_of ms name of None \<Rightarrow> JNull | Some v \<Rightarrow> v)"

definition omitempty :: "string \<Rightarrow> string \<Rightarrow> (string \<times> json) list" where
  "omitempty name s = (if s = [] then [] else [(name, JStr s)])"

definition omitemptyList :: "string \<Rightarrow> string list \<Rightarrow> (string \<times> json) list" where
  "omitemptyList name ss = (if ss = [] then [] else [(name, JArr (map JStr ss))])"

definition floatPtr :: "f64 option \<Rightarrow> json" where
  "floatPtr p = (case p of None \<Rightarrow> JNull | Some f \<Rightarrow> JNum f)"

section \<open>The platform\<close>

text \<open>
  \<open>jsonUnmarshal\<close> refuses invalid text and duplicate member names; \<open>jsonMarshal\<close> refuses strings that
  are not UTF-8. \<open>ed25519_public\<close> is the public key of a seed. \<open>hugeDate\<close> is what the two integer
  conversions of \<open>numericDate\<close> give for a number outside the range of \<open>int64\<close>, which the
  language leaves to the implementation.
\<close>

record platform =
  jsonUnmarshal :: "string \<Rightarrow> json option"
  jsonMarshal :: "json \<Rightarrow> string option"
  jsonMarshalIndent :: "json \<Rightarrow> string option"
  ed25519_public :: "string \<Rightarrow> string"
  ed25519_Sign :: "string \<Rightarrow> string \<Rightarrow> string"
  ed25519_Verify :: "string \<Rightarrow> string \<Rightarrow> string \<Rightarrow> bool"
  sha256 :: "string \<Rightarrow> string"
  hugeDate :: "f64 \<Rightarrow> int \<times> int"

text \<open>An Ed25519 private key is its seed of 32 bytes followed by the public key of 32 bytes.\<close>

definition NewKeyFromSeed :: "platform \<Rightarrow> string \<Rightarrow> string" where
  "NewKeyFromSeed pf seed = seed @ ed25519_public pf seed"

definition privatePublic :: "string \<Rightarrow> string" where
  "privatePublic priv = drop 32 priv"

definition privateSeed :: "string \<Rightarrow> string" where
  "privateSeed priv = take 32 priv"

section \<open>Keys\<close>

record Key =
  KeyID :: string
  Public :: string
  Prefix :: string
  Pause :: "Action list"

definition Holds :: "Key \<Rightarrow> string \<Rightarrow> bool" where
  "Holds k root \<longleftrightarrow> root = [] \<or> within root (Prefix k)"

definition Pauses :: "Key \<Rightarrow> Action \<Rightarrow> bool" where
  "Pauses k action \<longleftrightarrow> action \<in> set (Pause k)"

record SigningKey =
  SigningID :: string
  Private :: string
  SigningPrefix :: string

definition thumbprint :: "platform \<Rightarrow> string \<Rightarrow> string" where
  "thumbprint pf x =
     EncodeToString (sha256 pf
       (''{\"crv\":\"Ed25519\",\"kty\":\"OKP\",\"x\":\"'' @ EncodeToString x @ ''\"}''))"

text \<open>\<open>GenerateKey\<close>, with the seed the random source gives.\<close>

definition GenerateKey :: "platform \<Rightarrow> string \<Rightarrow> string \<Rightarrow> pathError + SigningKey" where
  "GenerateKey pf seed pre = bindE (Directory pre) (\<lambda>norm.
     let priv = NewKeyFromSeed pf seed
     in Inr \<lparr>SigningID = thumbprint pf (privatePublic priv), Private = priv, SigningPrefix = norm\<rparr>)"

definition publicKey :: "SigningKey \<Rightarrow> Key" where
  "publicKey k = \<lparr>KeyID = SigningID k, Public = privatePublic (Private k), Prefix = SigningPrefix k, Pause = []\<rparr>"

record jwk =
  Kty :: string
  Crv :: string
  X :: string
  D :: string
  Kid :: string
  JwkPrefix :: string
  JwkPause :: "Action list"

definition jwkJson :: "jwk \<Rightarrow> json" where
  "jwkJson j = JObj ([(''kty'', JStr (Kty j)), (''crv'', JStr (Crv j)), (''x'', JStr (X j))]
     @ omitempty ''d'' (D j) @ omitempty ''kid'' (Kid j) @ omitempty ''prefix'' (JwkPrefix j)
     @ omitemptyList ''pause'' (JwkPause j))"

definition decodeJwk :: "json \<Rightarrow> jwk option" where
  "decodeJwk v = do {
     ms \<leftarrow> asMembers v;
     kty \<leftarrow> asString (member_of ms ''kty'');
     crv \<leftarrow> asString (member_of ms ''crv'');
     x \<leftarrow> asString (member_of ms ''x'');
     d \<leftarrow> asString (member_of ms ''d'');
     kid \<leftarrow> asString (member_of ms ''kid'');
     pre \<leftarrow> asString (member_of ms ''prefix'');
     pause \<leftarrow> asStrings (member_of ms ''pause'');
     Some \<lparr>Kty = kty, Crv = crv, X = x, D = d, Kid = kid, JwkPrefix = pre, JwkPause = pause\<rparr> }"

definition jwkOf :: "Key \<Rightarrow> jwk" where
  "jwkOf k = \<lparr>Kty = ''OKP'', Crv = ''Ed25519'', X = EncodeToString (Public k), D = [], Kid = KeyID k,
     JwkPrefix = Prefix k, JwkPause = Pause k\<rparr>"

text \<open>What is wrong with one key, and with a key set: the key of an index, or the set itself.\<close>

datatype keyProblem = keyType | keyPrivate | keyPublic | keyKid | keyTwice | keyPrefix pathError | keyPause Action

datatype keyError = decodeKey | errNoKeys | encodeKey | keyAt nat keyProblem | keyBad keyProblem

definition normalizePause :: "Action list \<Rightarrow> keyProblem + Action list" where
  "normalizePause pause =
     (case find (\<lambda>a. a \<noteq> ActionPublish) pause of
        Some a \<Rightarrow> Inl (keyPause a)
      | None \<Rightarrow> if pause = [] then Inr [] else Inr [ActionPublish])"

fun marshalKeys :: "nat \<Rightarrow> Key list \<Rightarrow> keyError + json list" where
  "marshalKeys i [] = Inr []"
| "marshalKeys i (k # ks) =
     bindE (mapErr (keyAt i) (normalizePause (Pause k))) (\<lambda>pause.
     bindE (marshalKeys (Suc i) ks) (\<lambda>js.
     Inr (jwkJson (jwkOf k \<lparr>JwkPause := pause\<rparr>) # js)))"

definition MarshalKeySet :: "platform \<Rightarrow> Key list \<Rightarrow> keyError + string" where
  "MarshalKeySet pf keys =
     bindE (marshalKeys 0 keys) (\<lambda>js.
     case jsonMarshalIndent pf (JObj [(''keys'', JArr js)]) of
       None \<Rightarrow> Inl encodeKey
     | Some raw \<Rightarrow> Inr raw)"

definition MarshalJWK :: "platform \<Rightarrow> SigningKey \<Rightarrow> string option" where
  "MarshalJWK pf k =
     jsonMarshalIndent pf (jwkJson (jwkOf (publicKey k) \<lparr>D := EncodeToString (privateSeed (Private k))\<rparr>))"

definition ParseSigningKey :: "platform \<Rightarrow> string \<Rightarrow> keyError + SigningKey" where
  "ParseSigningKey pf raw =
     (case Option.bind (jsonUnmarshal pf raw) decodeJwk of
        None \<Rightarrow> Inl decodeKey
      | Some j \<Rightarrow>
          if Kty j \<noteq> ''OKP'' \<or> Crv j \<noteq> ''Ed25519'' then Inl (keyBad keyType)
          else (case DecodeString (D j) of
                  None \<Rightarrow> Inl (keyBad keyPrivate)
                | Some seed \<Rightarrow>
                    if length seed \<noteq> 32 then Inl (keyBad keyPrivate)
                    else let priv = NewKeyFromSeed pf seed;
                             kid = thumbprint pf (privatePublic priv)
                         in if Kid j \<noteq> [] \<and> Kid j \<noteq> kid then Inl (keyBad keyKid)
                            else bindE (mapErr (\<lambda>e. keyBad (keyPrefix e)) (Directory (JwkPrefix j))) (\<lambda>pre.
                              Inr \<lparr>SigningID = kid, Private = priv, SigningPrefix = pre\<rparr>)))"

text \<open>One turn of the loop of \<open>ParseKeySet\<close>: the key to add, given those read so far.\<close>

definition parseKey :: "platform \<Rightarrow> (string \<rightharpoonup> Key) \<Rightarrow> jwk \<Rightarrow> keyProblem + Key" where
  "parseKey pf keys k =
     (if Kty k \<noteq> ''OKP'' \<or> Crv k \<noteq> ''Ed25519'' then Inl keyType
      else if D k \<noteq> [] then Inl keyPrivate
      else case DecodeString (X k) of
             None \<Rightarrow> Inl keyPublic
           | Some x \<Rightarrow>
               if length x \<noteq> 32 then Inl keyPublic
               else let kid = thumbprint pf x
                    in if Kid k \<noteq> [] \<and> Kid k \<noteq> kid then Inl keyKid
                       else if keys kid \<noteq> None then Inl keyTwice
                       else bindE (mapErr keyPrefix (Directory (JwkPrefix k))) (\<lambda>pre.
                            bindE (normalizePause (JwkPause k)) (\<lambda>pause.
                            Inr \<lparr>KeyID = kid, Public = x, Prefix = pre, Pause = pause\<rparr>)))"

fun parseKeys :: "platform \<Rightarrow> nat \<Rightarrow> (string \<rightharpoonup> Key) \<Rightarrow> jwk list \<Rightarrow> keyError + (string \<rightharpoonup> Key)" where
  "parseKeys pf i keys [] = Inr keys"
| "parseKeys pf i keys (k # ks) =
     bindE (mapErr (keyAt i) (parseKey pf keys k)) (\<lambda>key. parseKeys pf (Suc i) (keys(KeyID key \<mapsto> key)) ks)"

definition decodeKeySet :: "json \<Rightarrow> jwk list option" where
  "decodeKeySet v = do {
     ms \<leftarrow> asMembers v;
     vs \<leftarrow> asArray (member_of ms ''keys'');
     mapAll decodeJwk vs }"

definition ParseKeySet :: "platform \<Rightarrow> string \<Rightarrow> keyError + (string \<rightharpoonup> Key)" where
  "ParseKeySet pf raw =
     (case Option.bind (jsonUnmarshal pf raw) decodeKeySet of
        None \<Rightarrow> Inl decodeKey
      | Some ks \<Rightarrow> if ks = [] then Inl errNoKeys else parseKeys pf 0 Map.empty ks)"

section \<open>Claims\<close>

definition allowedClaims :: "string list" where
  "allowedClaims = [''path_auth'', ''root'', ''publish'', ''subscribe'', ''create'', ''post'', ''redact'',
     ''sub'', ''iat'', ''nbf'', ''exp'', ''jti'']"

definition grantClaims :: "string list" where
  "grantClaims = [''root'', ''publish'', ''subscribe'', ''create'', ''post'', ''redact'']"

record Claims =
  ClaimsGrant :: Grant
  ExpiresAt :: int
  TokenID :: string
  ClaimsKey :: Key

record pathAuth =
  PathRoot :: string
  Pub :: "string option"
  Sub :: "string option"

record claims =
  c_PathAuth :: "pathAuth option"
  c_Root :: string
  c_Publish :: "string list"
  c_Subscribe :: "string list"
  c_Create :: "string list"
  c_Post :: "string list"
  c_Redact :: "string list"
  c_Subject :: string
  c_IssuedAt :: "f64 option"
  c_NotBefore :: "f64 option"
  c_ExpiresAt :: "f64 option"
  c_ID :: string

definition claims_grant :: "claims \<Rightarrow> Grant" where
  "claims_grant c = \<lparr>Root = c_Root c, Publish = c_Publish c, Subscribe = c_Subscribe c, MaxAge = 0,
     Create = c_Create c, Post = c_Post c, Redact = c_Redact c, Subject = c_Subject c\<rparr>"

fun decodePathAuth :: "json \<Rightarrow> pathAuth option option" where
  "decodePathAuth JNull = Some None"
| "decodePathAuth (JObj ms) = do {
     root \<leftarrow> asString (member_of ms ''root'');
     pub \<leftarrow> asStringPtr (member_of ms ''pub'');
     sub \<leftarrow> asStringPtr (member_of ms ''sub'');
     Some (Some \<lparr>PathRoot = root, Pub = pub, Sub = sub\<rparr>) }"
| "decodePathAuth _ = None"

definition decodeClaims :: "json \<Rightarrow> claims option" where
  "decodeClaims v = do {
     ms \<leftarrow> asMembers v;
     pa \<leftarrow> decodePathAuth (member_of ms ''path_auth'');
     root \<leftarrow> asString (member_of ms ''root'');
     publish \<leftarrow> asStrings (member_of ms ''publish'');
     subscribe \<leftarrow> asStrings (member_of ms ''subscribe'');
     create \<leftarrow> asStrings (member_of ms ''create'');
     post \<leftarrow> asStrings (member_of ms ''post'');
     redact \<leftarrow> asStrings (member_of ms ''redact'');
     sub \<leftarrow> asString (member_of ms ''sub'');
     iat \<leftarrow> asFloatPtr (member_of ms ''iat'');
     nbf \<leftarrow> asFloatPtr (member_of ms ''nbf'');
     exp \<leftarrow> asFloatPtr (member_of ms ''exp'');
     jti \<leftarrow> asString (member_of ms ''jti'');
     Some \<lparr>c_PathAuth = pa, c_Root = root, c_Publish = publish, c_Subscribe = subscribe,
       c_Create = create, c_Post = post, c_Redact = redact, c_Subject = sub,
       c_IssuedAt = iat, c_NotBefore = nbf, c_ExpiresAt = exp, c_ID = jti\<rparr> }"

definition omitemptyPtr :: "string \<Rightarrow> string option \<Rightarrow> (string \<times> json) list" where
  "omitemptyPtr name p = (case p of None \<Rightarrow> [] | Some s \<Rightarrow> omitempty name s)"

definition claimsJson :: "claims \<Rightarrow> json" where
  "claimsJson c = JObj (
     (case c_PathAuth c of None \<Rightarrow> []
      | Some pa \<Rightarrow> [(''path_auth'', JObj ((''root'', JStr (PathRoot pa))
          # omitemptyPtr ''pub'' (Pub pa) @ omitemptyPtr ''sub'' (Sub pa)))])
     @ omitempty ''root'' (c_Root c) @ omitemptyList ''publish'' (c_Publish c)
     @ omitemptyList ''subscribe'' (c_Subscribe c) @ omitemptyList ''create'' (c_Create c)
     @ omitemptyList ''post'' (c_Post c) @ omitemptyList ''redact'' (c_Redact c)
     @ omitempty ''sub'' (c_Subject c)
     @ [(''iat'', floatPtr (c_IssuedAt c)), (''nbf'', floatPtr (c_NotBefore c)), (''exp'', floatPtr (c_ExpiresAt c))]
     @ omitempty ''jti'' (c_ID c))"

section \<open>Signing\<close>

datatype signError = ttlOutOfRange | grantRefused tokenError | encodeFailed

text \<open>\<open>signAt\<close> with the text \<open>jti\<close> the random source gives.\<close>

definition signedClaims :: "Grant \<Rightarrow> int \<Rightarrow> int \<Rightarrow> string \<Rightarrow> claims" where
  "signedClaims g ttl now jti =
     (let iat = f64_of_int (unixSec now); exp = f64_of_int (unixSec (timeAdd now ttl))
      in \<lparr>c_PathAuth = None, c_Root = Root g, c_Publish = Publish g, c_Subscribe = Subscribe g,
          c_Create = Create g, c_Post = Post g, c_Redact = Redact g, c_Subject = Subject g,
          c_IssuedAt = Some iat, c_NotBefore = Some iat, c_ExpiresAt = Some exp, c_ID = jti\<rparr>)"

definition headerJson :: "SigningKey \<Rightarrow> json" where
  "headerJson key = JObj [(''alg'', JStr ''EdDSA''), (''kid'', JStr (SigningID key)), (''typ'', JStr ''JWT'')]"

definition signAt :: "platform \<Rightarrow> moqt \<Rightarrow> SigningKey \<Rightarrow> Grant \<Rightarrow> int \<Rightarrow> int \<Rightarrow> string \<Rightarrow> signError + string" where
  "signAt pf mq key g0 ttl now jti =
     (if ttl \<le> 0 \<or> ttl > MaxLifetime then Inl ttlOutOfRange
      else bindE (mapErr grantRefused (checked mq g0 (SigningPrefix key))) (\<lambda>g.
        case jsonMarshal pf (headerJson key) of
          None \<Rightarrow> Inl encodeFailed
        | Some header \<Rightarrow>
            (case jsonMarshal pf (claimsJson (signedClaims g ttl now jti)) of
               None \<Rightarrow> Inl encodeFailed
             | Some body \<Rightarrow>
                 let input = EncodeToString header @ ''.'' @ EncodeToString body
                 in Inr (input @ ''.'' @ EncodeToString (ed25519_Sign pf (Private key) input)))))"

section \<open>Verification\<close>

text \<open>
  \<^verbatim>\<open>int64((v-float64(sec))*float64(time.Second))\<close> for a \<open>v\<close> in range: the fraction of \<open>v\<close> is exact,
  its product with \<open>10 ^ 9\<close> is rounded to 53 bits and then truncated.
\<close>

definition fracNanos :: "f64 \<Rightarrow> int" where
  "fracNanos v =
     (let e = max 1 (f64_exp v);
          m = (if f64_exp v = 0 then f64_frac v else 2 ^ 52 + f64_frac v)
      in if e \<ge> 1075 then 0
         else let n = int (fround (m mod 2 ^ (1075 - e) * 1000000000) div 2 ^ (1075 - e))
              in if f64_sign v then - n else n)"

definition numericDate :: "platform \<Rightarrow> f64 \<Rightarrow> int" where
  "numericDate pf v =
     (case f64_trunc v of
        None \<Rightarrow> timeUnix (fst (hugeDate pf v)) (snd (hugeDate pf v))
      | Some sec \<Rightarrow>
          if - (2 ^ 63) \<le> sec \<and> sec < 2 ^ 63 then timeUnix sec (fracNanos v)
          else timeUnix (fst (hugeDate pf v)) (snd (hugeDate pf v)))"

definition checkTime :: "platform \<Rightarrow> claims \<Rightarrow> int \<Rightarrow> bool \<Rightarrow> tokenError + int" where
  "checkTime pf c now expiry =
     (case (c_ExpiresAt c, c_NotBefore c, c_IssuedAt c) of
        (Some e, Some n, Some i) \<Rightarrow>
          (let exp = numericDate pf e; nbf = numericDate pf n; iat = numericDate pf i;
               lifetime = timeSub exp iat
           in if lifetime \<le> 0 \<or> lifetime > MaxLifetime then Inl ErrInvalid
              else if expiry \<and> \<not> now < timeUnix (unixSec (timeAdd exp Leeway)) 0 then Inl ErrInvalid
              else if timeAdd now Leeway < nbf \<or> timeAdd now Leeway < iat then Inl ErrInvalid
              else Inr exp)
      | _ \<Rightarrow> Inl ErrInvalid)"

definition grantOf :: "pathAuth \<Rightarrow> string \<Rightarrow> tokenError + Grant" where
  "grantOf pa pre =
     (if Pub pa = None \<and> Sub pa = None then Inl ErrForbidden
      else bindE (mapErr (\<lambda>_. ErrInvalid) (Directory (PathRoot pa))) (\<lambda>root.
        if \<not> within root pre then Inl ErrForbidden
        else bindE (case Pub pa of None \<Rightarrow> Inr [] | Some p \<Rightarrow> mapErr (\<lambda>_. ErrInvalid) (atAndBeneath p)) (\<lambda>publish.
          bindE (case Sub pa of None \<Rightarrow> Inr [] | Some p \<Rightarrow> mapErr (\<lambda>_. ErrInvalid) (atAndBeneath p)) (\<lambda>subscribe.
          Inr \<lparr>Root = root, Publish = publish, Subscribe = subscribe, MaxAge = 0,
               Create = [], Post = [], Redact = [], Subject = []\<rparr>))))"

definition decodeSegment :: "platform \<Rightarrow> string \<Rightarrow> json option" where
  "decodeSegment pf seg = Option.bind (DecodeString seg) (jsonUnmarshal pf)"

text \<open>The header struct: \<open>alg\<close>, \<open>kid\<close> and whether there is a \<open>crit\<close>.\<close>

definition decodeHeader :: "json \<Rightarrow> (string \<times> string \<times> bool) option" where
  "decodeHeader v = do {
     ms \<leftarrow> asMembers v;
     alg \<leftarrow> asString (member_of ms ''alg'');
     kid \<leftarrow> asString (member_of ms ''kid'');
     Some (alg, kid, map_of ms ''crit'' \<noteq> None) }"

text \<open>The switch over the two forms a grant is carried in.\<close>

definition grantFrom :: "moqt \<Rightarrow> (string \<times> json) list \<Rightarrow> claims \<Rightarrow> string \<Rightarrow> tokenError + Grant" where
  "grantFrom mq members c pre =
     (let has = (\<lambda>name. map_of members name \<noteq> None);
          hasPathAuth = has ''path_auth''; hasSubject = has ''sub''; hasGrant = list_ex has grantClaims
      in if hasPathAuth \<and> hasGrant then Inl ErrInvalid
         else if \<not> hasPathAuth then checked mq (claims_grant c) pre
         else case c_PathAuth c of
                None \<Rightarrow> Inl ErrInvalid
              | Some pa \<Rightarrow> if hasSubject then Inl ErrInvalid else grantOf pa pre)"

text \<open>A call whose error makes the token invalid.\<close>

definition orInvalid :: "'a option \<Rightarrow> tokenError + 'a" where
  "orInvalid m = (case m of None \<Rightarrow> Inl ErrInvalid | Some a \<Rightarrow> Inr a)"

lemma orInvalid_simps [simp]:
  "orInvalid None = Inl ErrInvalid"
  "orInvalid (Some a) = Inr a"
  "orInvalid m = Inr a \<longleftrightarrow> m = Some a"
  by (auto simp: orInvalid_def split: option.splits)

definition verify :: "platform \<Rightarrow> moqt \<Rightarrow> string \<Rightarrow> (string \<rightharpoonup> Key) \<Rightarrow> int \<Rightarrow> bool \<Rightarrow> tokenError + Claims" where
  "verify pf mq token keys now expiry =
     (let parts = splitOn (CHR ''.'') token
      in if length parts \<noteq> 3 then Inl ErrInvalid
         else bindE (orInvalid (Option.bind (decodeSegment pf (parts ! 0)) decodeHeader)) (\<lambda>(alg, kid, crit).
           if crit then Inl ErrInvalid
           else if alg \<noteq> ''EdDSA'' then Inl ErrInvalid
           else bindE (orInvalid (keys kid)) (\<lambda>key.
             bindE (orInvalid (DecodeString (parts ! 2))) (\<lambda>sig.
             if \<not> ed25519_Verify pf (Public key) (parts ! 0 @ ''.'' @ parts ! 1) sig then Inl ErrInvalid
             else bindE (orInvalid (Option.bind (decodeSegment pf (parts ! 1)) asMembers)) (\<lambda>members.
               if \<not> list_all (\<lambda>(name, _). name \<in> set allowedClaims) members then Inl ErrInvalid
               else bindE (orInvalid (Option.bind (decodeSegment pf (parts ! 1)) decodeClaims)) (\<lambda>c.
                 bindE (checkTime pf c now expiry) (\<lambda>exp.
                 bindE (grantFrom mq members c (Prefix key)) (\<lambda>g.
                 Inr \<lparr>ClaimsGrant = g, ExpiresAt = exp, TokenID = c_ID c, ClaimsKey = key\<rparr>))))))))"

definition Verify :: "platform \<Rightarrow> moqt \<Rightarrow> string \<Rightarrow> (string \<rightharpoonup> Key) \<Rightarrow> int \<Rightarrow> tokenError + Claims" where
  "Verify pf mq token keys now = verify pf mq token keys now True"

definition VerifyLive :: "platform \<Rightarrow> moqt \<Rightarrow> string \<Rightarrow> (string \<rightharpoonup> Key) \<Rightarrow> int \<Rightarrow> tokenError + Claims" where
  "VerifyLive pf mq token keys now = verify pf mq token keys now False"

section \<open>Key sets\<close>

text \<open>A key a verifier may trust under \<open>kid\<close>.\<close>

definition keyOk :: "platform \<Rightarrow> string \<Rightarrow> Key \<Rightarrow> bool" where
  "keyOk pf kid k \<longleftrightarrow>
     KeyID k = kid \<and> kid = thumbprint pf (Public k) \<and> length (Public k) = 32
     \<and> Directory (Prefix k) = Inr (Prefix k) \<and> (Pause k = [] \<or> Pause k = [ActionPublish])"

definition keySetOk :: "platform \<Rightarrow> (string \<rightharpoonup> Key) \<Rightarrow> bool" where
  "keySetOk pf keys \<longleftrightarrow> (\<forall>kid k. keys kid = Some k \<longrightarrow> keyOk pf kid k)"

text \<open>The key an entry of the set describes.\<close>

definition describes :: "jwk \<Rightarrow> Key \<Rightarrow> bool" where
  "describes j k \<longleftrightarrow>
     Kty j = ''OKP'' \<and> Crv j = ''Ed25519'' \<and> D j = [] \<and> DecodeString (X j) = Some (Public k)
     \<and> (Kid j = [] \<or> Kid j = KeyID k) \<and> Directory (JwkPrefix j) = Inr (Prefix k)
     \<and> normalizePause (JwkPause j) = Inr (Pause k)"

lemma Directory_idem: "Directory p = Inr d \<Longrightarrow> Directory d = Inr d"
  by (auto simp: Directory_iff segments_dirOf)

lemma normalizePause_cases:
  "normalizePause ps = Inr qs \<Longrightarrow> qs = [] \<and> ps = [] \<or> qs = [ActionPublish] \<and> set ps = {ActionPublish}"
  by (cases ps) (auto simp: normalizePause_def find_None_iff split: option.splits if_splits)

lemma parseKey_Inr:
  "parseKey pf keys j = Inr k \<longleftrightarrow> describes j k \<and> keyOk pf (KeyID k) k \<and> keys (KeyID k) = None"
proof
  assume "parseKey pf keys j = Inr k"
  then show "describes j k \<and> keyOk pf (KeyID k) k \<and> keys (KeyID k) = None"
    using normalizePause_cases [of "JwkPause j"] Directory_idem [of "JwkPrefix j"]
    by (auto simp: parseKey_def describes_def keyOk_def Let_def bindE_Inr_iff split: if_splits option.splits)
next
  assume "describes j k \<and> keyOk pf (KeyID k) k \<and> keys (KeyID k) = None"
  then show "parseKey pf keys j = Inr k"
    by (cases k) (auto simp: parseKey_def describes_def keyOk_def Let_def)
qed

text \<open>The map a list of keys gives, and the step from one key to the next.\<close>

definition keyMap :: "Key list \<Rightarrow> (string \<rightharpoonup> Key)" where
  "keyMap ks = map_of (map (\<lambda>k. (KeyID k, k)) ks)"

lemma keyMap_None: "keyMap ks kid = None \<longleftrightarrow> kid \<notin> KeyID ` set ks"
  by (force simp: keyMap_def map_of_eq_None_iff)

lemma keyMap_Some: "keyMap ks kid = Some k \<Longrightarrow> k \<in> set ks \<and> KeyID k = kid"
  by (auto simp: keyMap_def dest: map_of_SomeD)

lemma keyMap_Cons:
  assumes "KeyID k \<notin> KeyID ` set ks"
  shows "(m(KeyID k \<mapsto> k)) ++ keyMap ks = m ++ keyMap (k # ks)"
proof
  fix kid
  show "((m(KeyID k \<mapsto> k)) ++ keyMap ks) kid = (m ++ keyMap (k # ks)) kid"
    using assms keyMap_None [of ks "KeyID k"]
    by (cases "kid = KeyID k") (auto simp: map_add_def keyMap_def split: option.splits)
qed

lemma keyMap_dom: "dom (keyMap ks) = KeyID ` set ks"
  using keyMap_None [of ks] by (auto simp: dom_def)

definition keysRead :: "platform \<Rightarrow> (string \<rightharpoonup> Key) \<Rightarrow> jwk list \<Rightarrow> Key list \<Rightarrow> bool" where
  "keysRead pf keys js ks \<longleftrightarrow>
     list_all2 describes js ks \<and> distinct (map KeyID ks)
     \<and> (\<forall>k \<in> set ks. keyOk pf (KeyID k) k \<and> keys (KeyID k) = None)"

lemma keysRead_Cons:
  "keysRead pf keys (j # js) (k # ks) \<longleftrightarrow>
     parseKey pf keys j = Inr k \<and> keysRead pf (keys(KeyID k \<mapsto> k)) js ks"
  by (auto simp: keysRead_def parseKey_Inr image_iff)

lemma parseKeys_sound:
  "parseKeys pf i keys js = Inr keys' \<Longrightarrow> \<exists>ks. keysRead pf keys js ks \<and> keys' = keys ++ keyMap ks"
proof (induction js arbitrary: i keys)
  case Nil
  then show ?case by (auto simp: keysRead_def keyMap_def)
next
  case (Cons j js)
  from Cons.prems obtain k where k: "parseKey pf keys j = Inr k"
    and rest: "parseKeys pf (Suc i) (keys(KeyID k \<mapsto> k)) js = Inr keys'"
    by (auto simp: bindE_Inr_iff)
  from Cons.IH [OF rest] obtain ks where ks: "keysRead pf (keys(KeyID k \<mapsto> k)) js ks"
    and keys': "keys' = (keys(KeyID k \<mapsto> k)) ++ keyMap ks" by blast
  from k ks have read: "keysRead pf keys (j # js) (k # ks)" by (simp add: keysRead_Cons)
  then have "KeyID k \<notin> KeyID ` set ks" by (simp add: keysRead_def)
  with keys' read show ?case by (auto simp: keyMap_Cons)
qed

lemma parseKeys_complete:
  "keysRead pf keys js ks \<Longrightarrow> parseKeys pf i keys js = Inr (keys ++ keyMap ks)"
proof (induction js arbitrary: i keys ks)
  case Nil
  then show ?case by (auto simp: keysRead_def keyMap_def)
next
  case (Cons j js)
  then obtain k ks' where ks: "ks = k # ks'" by (auto simp: keysRead_def list_all2_Cons1)
  from Cons.prems have k: "parseKey pf keys j = Inr k" "keysRead pf (keys(KeyID k \<mapsto> k)) js ks'"
    by (simp_all add: ks keysRead_Cons)
  from Cons.prems have "KeyID k \<notin> KeyID ` set ks'" by (simp add: ks keysRead_def)
  from keyMap_Cons [OF this, of keys] show ?case
    by (simp only: ks parseKeys.simps k(1) mapErr_simps bindE_simps Cons.IH [OF k(2)])
qed

lemma ParseKeySet_Inr:
  assumes "ParseKeySet pf raw = Inr keys"
  obtains doc js ks where "jsonUnmarshal pf raw = Some doc" "decodeKeySet doc = Some js" "js \<noteq> []"
    "keysRead pf Map.empty js ks" "keys = keyMap ks"
proof -
  from assms obtain doc js where "jsonUnmarshal pf raw = Some doc" "decodeKeySet doc = Some js" "js \<noteq> []"
    and p: "parseKeys pf 0 Map.empty js = Inr keys"
    by (auto simp: ParseKeySet_def bind_eq_Some_conv split: option.splits if_splits)
  with that parseKeys_sound [OF p] show ?thesis by auto
qed

lemma ParseKeySet_ok: "ParseKeySet pf raw = Inr keys \<Longrightarrow> keySetOk pf keys"
  by (erule ParseKeySet_Inr) (auto simp: keySetOk_def keysRead_def dest!: keyMap_Some)

lemma keyMap_ran: "distinct (map KeyID ks) \<Longrightarrow> ran (keyMap ks) = set ks"
proof -
  assume d: "distinct (map KeyID ks)"
  have "k \<in> ran (keyMap ks)" if "k \<in> set ks" for k
    using that d by (intro ranI [of _ "KeyID k"]) (simp add: keyMap_def comp_def)
  then show ?thesis by (auto simp: ran_def dest: keyMap_Some)
qed

text \<open>
  C36: A key set that loads is the list the file has, with nothing skipped and nothing merged:
  the entries and the keys correspond one to one, each key under the thumbprint of its public
  half, with 32 bytes, a prefix in the form \<open>Directory\<close> gives and nothing paused but publishing,
  and the map has as many keys as the file has entries.
\<close>

theorem key_set_faithful:
  assumes "ParseKeySet pf raw = Inr keys"
  shows "\<exists>doc js ks. jsonUnmarshal pf raw = Some doc \<and> decodeKeySet doc = Some js \<and> js \<noteq> []
     \<and> list_all2 describes js ks \<and> keySetOk pf keys
     \<and> ran keys = set ks \<and> card (dom keys) = length js"
  using assms
proof (rule ParseKeySet_Inr)
  fix doc js ks
  assume doc: "jsonUnmarshal pf raw = Some doc" "decodeKeySet doc = Some js" "js \<noteq> []"
    and read: "keysRead pf Map.empty js ks" and keys: "keys = keyMap ks"
  from read have d: "distinct (map KeyID ks)" and all: "list_all2 describes js ks"
    by (auto simp: keysRead_def)
  have "card (dom keys) = length js"
    using d all by (simp add: keys keyMap_dom card_image distinct_map distinct_card list_all2_lengthD)
  with doc all keyMap_ran [OF d] ParseKeySet_ok [OF assms] keys show ?thesis by blast
qed

text \<open>A platform over a table of JSON documents, for evaluating the definitions.\<close>

definition tablePlatform :: "(string \<times> json) list \<Rightarrow> platform" where
  "tablePlatform docs = \<lparr>jsonUnmarshal = map_of docs,
     jsonMarshal = map_of (map (\<lambda>(t, v). (v, t)) docs),
     jsonMarshalIndent = map_of (map (\<lambda>(t, v). (v, t)) docs),
     ed25519_public = (\<lambda>seed. seed), ed25519_Sign = (\<lambda>priv m. drop 32 priv @ m),
     ed25519_Verify = (\<lambda>p m sig. sig = p @ m), sha256 = (\<lambda>m. m), hugeDate = (\<lambda>_. (0, 0))\<rparr>"

definition sampleSeed :: string where "sampleSeed = replicate 32 (CHR ''k'')"

definition sampleJwk :: jwk where
  "sampleJwk = \<lparr>Kty = ''OKP'', Crv = ''Ed25519'', X = EncodeToString sampleSeed, D = [], Kid = [],
     JwkPrefix = ''acme'', JwkPause = []\<rparr>"

lemma jwk_roundtrip: "decodeJwk (jwkJson j) = Some j"
proof -
  have str: "asStrings (JArr (map JStr ss)) = Some ss" for ss
    by (simp add: mapAll_map)
  show ?thesis
    by (cases j)
      (simp add: decodeJwk_def jwkJson_def omitempty_def omitemptyList_def member_of_def str del: asStrings.simps(2))
qed

theorem key_set_faithful_witness:
  "\<exists>doc js ks. jsonUnmarshal (tablePlatform [(''set'', JObj [(''keys'', JArr [jwkJson sampleJwk])])]) ''set'' = Some doc
     \<and> decodeKeySet doc = Some js \<and> js \<noteq> [] \<and> list_all2 describes js ks \<and> length ks = 1"
proof -
  let ?pf = "tablePlatform [(''set'', JObj [(''keys'', JArr [jwkJson sampleJwk])])]"
  have dir: "Directory ''acme'' = Inr ''/acme/''"
    by (simp add: Directory_def normalizePath_def ContainsAny_def)
  have doc: "jsonUnmarshal ?pf ''set'' = Some (JObj [(''keys'', JArr [jwkJson sampleJwk])])"
    by (simp add: tablePlatform_def)
  have js: "decodeKeySet (JObj [(''keys'', JArr [jwkJson sampleJwk])]) = Some [sampleJwk]"
    by (simp add: decodeKeySet_def member_of_def jwk_roundtrip)
  have one: "length sampleSeed = 32" by (simp add: sampleSeed_def)
  have "ParseKeySet ?pf ''set'' = parseKeys ?pf 0 Map.empty [sampleJwk]"
    by (simp add: ParseKeySet_def doc js)
  moreover have "parseKey ?pf Map.empty sampleJwk = Inr \<lparr>KeyID = thumbprint ?pf sampleSeed,
      Public = sampleSeed, Prefix = ''/acme/'', Pause = []\<rparr>"
    by (simp add: parseKey_def sampleJwk_def one dir Let_def normalizePause_def)
  ultimately obtain keys where "ParseKeySet ?pf ''set'' = Inr keys" by simp
  from key_set_faithful [OF this] obtain ks where "list_all2 describes [sampleJwk] ks"
    unfolding doc using js by auto
  moreover from this have "length ks = 1" by (auto dest: list_all2_lengthD)
  ultimately show ?thesis using doc js by blast
qed

section \<open>Verified tokens\<close>

lemma splitOn_three: "splitOn c t = [h, b, s] \<Longrightarrow> t = h @ [c] @ b @ [c] @ s"
  using join_splitOn [of c t] by simp

text \<open>A verification step by step, on the three parts of the token.\<close>

lemma verify_Inr:
  "verify pf mq token keys now expiry = Inr cl \<longleftrightarrow>
     (\<exists>h b s kid sig members c g exp key.
        splitOn (CHR ''.'') token = [h, b, s]
        \<and> Option.bind (decodeSegment pf h) decodeHeader = Some (''EdDSA'', kid, False) \<and> keys kid = Some key
        \<and> DecodeString s = Some sig \<and> ed25519_Verify pf (Public key) (h @ ''.'' @ b) sig
        \<and> Option.bind (decodeSegment pf b) asMembers = Some members
        \<and> list_all (\<lambda>(name, _). name \<in> set allowedClaims) members
        \<and> Option.bind (decodeSegment pf b) decodeClaims = Some c \<and> checkTime pf c now expiry = Inr exp
        \<and> grantFrom mq members c (Prefix key) = Inr g
        \<and> cl = \<lparr>ClaimsGrant = g, ExpiresAt = exp, TokenID = c_ID c, ClaimsKey = key\<rparr>)"
proof -
  have if_Inr: "(if P then Inl e else m) = Inr v \<longleftrightarrow> \<not> P \<and> m = Inr v" for P e m and v :: Claims
    by auto
  have three: "length ps = 3 \<longleftrightarrow> (\<exists>h b s. ps = [h, b, s])" for ps :: "string list"
    by (auto simp: numeral_3_eq_3 length_Suc_conv)
  show ?thesis
    by (simp only: verify_def Let_def bindE_Inr_iff if_Inr three orInvalid_simps not_not
        split_paired_Ex prod.case ex_simps simp_thms) auto
qed

lemma grantOf_confined:
  assumes "grantOf pa (dirOf ps) = Inr g" and "list_all plainSeg ps"
  shows "confined mq ps g"
proof -
  from assms(1) obtain root where d: "Directory (PathRoot pa) = Inr root" and wi: "within root (dirOf ps)"
    and g: "Root g = root"
    by (auto simp: grantOf_def bindE_Inr_iff split: if_splits)
  from d have "root = dirOf (segments (PathRoot pa))" "list_all plainSeg (segments (PathRoot pa))"
    by (simp_all add: Directory_iff)
  with wi within_dirOf [of "segments (PathRoot pa)", OF _ assms(2)] g show ?thesis
    by (auto simp: confined_def)
qed

lemma grantFrom_confined:
  assumes "grantFrom mq members c (dirOf ps) = Inr g" and "list_all plainSeg ps"
  shows "confined mq ps g"
  using assms grantOf_confined [OF _ assms(2)] checked_confined [OF _ assms(2)]
  by (auto simp: grantFrom_def Let_def split: if_splits option.splits)

section \<open>Time\<close>

text \<open>A time as its seconds since the year 1, in 64 bits, and its nanoseconds.\<close>

definition timeOf :: "int \<Rightarrow> int \<Rightarrow> int" where
  "timeOf s n = (s - unixToInternal) * second + n"

lemma timeOf_parts: "0 \<le> n \<Longrightarrow> n < second \<Longrightarrow>
    timeOf s n div second = s - unixToInternal \<and> timeOf s n mod second = n"
proof -
  assume "0 \<le> n" "n < second"
  then have "(k * second + n) div second = k \<and> (k * second + n) mod second = n" for k
    by (simp add: second_def)
  then show ?thesis unfolding timeOf_def by blast
qed

lemma timeOf_mono: "s \<le> s' \<Longrightarrow> timeOf s n \<le> timeOf s' n"
  by (simp add: timeOf_def second_def)

lemma timeUnix_form: "\<exists>s n. timeUnix sec nsec = timeOf s n \<and> - (2 ^ 63) \<le> s \<and> s < 2 ^ 63 \<and> 0 \<le> n \<and> n < second"
proof -
  have "0 \<le> nsec mod second \<and> nsec mod second < second" by (simp add: second_def)
  then show ?thesis using wrap64_range unfolding timeUnix_def timeOf_def by blast
qed

lemma numericDate_form: "\<exists>s n. numericDate pf v = timeOf s n \<and> - (2 ^ 63) \<le> s \<and> s < 2 ^ 63 \<and> 0 \<le> n \<and> n < second"
  unfolding numericDate_def using timeUnix_form by (simp split: option.splits)

text \<open>Truncating to whole seconds and back.\<close>

lemma timeUnix_unixSec:
  assumes "- (2 ^ 63) \<le> t div second + unixToInternal" and "t div second + unixToInternal < 2 ^ 63"
  shows "timeUnix (unixSec t) 0 = t div second * second"
proof -
  have "wrap64 (wrap64 (t div second) + unixToInternal) = t div second + unixToInternal"
    unfolding wrap64_add by (rule wrap64_id [OF assms])
  then show ?thesis by (simp add: timeUnix_def unixSec_def)
qed

lemma timeAdd_seconds:
  assumes "- (2 ^ 63) \<le> t div second + unixToInternal" and "0 \<le> d"
  shows "timeAdd t d \<le> t + d \<and> - (2 ^ 63) \<le> timeAdd t d div second + unixToInternal
     \<and> timeAdd t d div second + unixToInternal < 2 ^ 63"
proof -
  let ?s = "(t + d) div second + unixToInternal"
  let ?s' = "if ?s > 2 ^ 63 - 1 then 2 ^ 63 - 1 else if ?s < - (2 ^ 63) then - (2 ^ 63 - 1) else ?s"
  have pos: "0 < second" by (simp add: second_def)
  have "t div second \<le> (t + d) div second" using assms(2) pos by (simp add: zdiv_mono1)
  with assms(1) have low: "- (2 ^ 63) \<le> ?s" by linarith
  then have s': "?s' = min ?s (2 ^ 63 - 1)" by auto
  have n: "0 \<le> (t + d) mod second \<and> (t + d) mod second < second" using pos by simp
  have add: "timeAdd t d = timeOf ?s' ((t + d) mod second)"
    by (simp only: timeAdd_def timeOf_def Let_def)
  have "timeAdd t d div second + unixToInternal = ?s'"
    unfolding add using timeOf_parts [OF n [THEN conjunct1] n [THEN conjunct2]] by simp
  moreover have "timeAdd t d \<le> timeOf ?s ((t + d) mod second)"
    unfolding add s' by (rule timeOf_mono) simp
  moreover have "timeOf ?s ((t + d) mod second) = t + d"
    unfolding timeOf_def by (simp add: div_mult_mod_eq)
  ultimately show ?thesis using low s' by simp
qed

lemma checkTime_window:
  assumes "checkTime pf c now True = Inr exp" and "0 \<le> now"
  obtains e iat where "c_ExpiresAt c = Some e" and "exp = numericDate pf e"
    and "c_IssuedAt c = Some iat" and "numericDate pf iat < exp"
    and "exp \<le> numericDate pf iat + MaxLifetime"
    and "numericDate pf iat \<le> now + Leeway" and "now < exp + Leeway"
proof -
  from assms(1) obtain e i where ei: "c_IssuedAt c = Some i" "c_ExpiresAt c = Some e"
    and life: "0 < timeSub exp (numericDate pf i)" "timeSub exp (numericDate pf i) \<le> MaxLifetime"
    and ex: "exp = numericDate pf e" "now < timeUnix (unixSec (timeAdd exp Leeway)) 0"
    and ia: "numericDate pf i \<le> timeAdd now Leeway"
    by (auto simp: checkTime_def Let_def not_le not_less split: option.splits if_splits)
  have L: "0 \<le> Leeway" "0 < second" by (simp_all add: Leeway_def second_def)
  from numericDate_form [of pf e] obtain s n where sn: "exp = timeOf s n" "- (2 ^ 63) \<le> s" "0 \<le> n" "n < second"
    unfolding ex(1) by blast
  then have "- (2 ^ 63) \<le> exp div second + unixToInternal" using timeOf_parts by simp
  note add = timeAdd_seconds [OF this L(1)]
  from ex(2) have "now < timeAdd exp Leeway div second * second"
    using add by (simp add: timeUnix_unixSec)
  also have "\<dots> \<le> timeAdd exp Leeway"
    using L(2) by (metis div_mult_mod_eq le_add_same_cancel1 pos_mod_sign)
  finally have "now < exp + Leeway" using add by simp
  moreover have "numericDate pf i \<le> now + Leeway"
  proof -
    have "0 \<le> now div second" using assms(2) L(2) by (simp add: pos_imp_zdiv_nonneg_iff)
    then have "- (2 ^ 63) \<le> now div second + unixToInternal" by (simp add: unixToInternal_def)
    from timeAdd_seconds [OF this L(1)] ia show ?thesis by simp
  qed
  moreover have "numericDate pf i < exp" "exp \<le> numericDate pf i + MaxLifetime"
    using life by (auto simp: timeSub_def MaxLifetime_def second_def split: if_splits)
  ultimately show ?thesis using that ei ex(1) by blast
qed

lemma timeAdd_exact:
  assumes "0 \<le> t + d" and "t + d < 2 ^ 62 * second"
  shows "timeAdd t d = t + d"
proof -
  have "(t + d) div second < 2 ^ 62" "0 \<le> (t + d) div second"
    using assms by (simp_all add: second_def pos_imp_zdiv_nonneg_iff div_less_iff_less_mult)
  then show ?thesis by (simp add: timeAdd_def Let_def unixToInternal_def div_mult_mod_eq)
qed

lemma checkTime_live:
  assumes "checkTime pf c now expiry = Inr exp" and "0 \<le> now" and "now \<le> now'"
    and "now' + Leeway < 2 ^ 62 * second"
  shows "checkTime pf c now' False = Inr exp"
proof -
  have "timeAdd now Leeway = now + Leeway" "timeAdd now' Leeway = now' + Leeway"
    using assms(2-4) by (auto intro!: timeAdd_exact simp: Leeway_def second_def)
  with assms(1,3) show ?thesis
    by (auto simp: checkTime_def Let_def split: option.splits if_splits)
qed

end
