(* ===== verification/Token_Sign.thy ===== *)
theory Token_Sign
  imports Token
begin

text \<open>
  Properties of tokens from signing to the end of a session: what \<open>Sign\<close> writes \<open>Verify\<close> reads, key
  files survive their encoding, and what a verified token can never do. The definitions are in
  \<open>Token\<close>.
\<close>

section \<open>Signing and verifying\<close>

lemma member_of_simps [simp]:
  "member_of [] name = JNull"
  "member_of ((n, v) # ms) name = (if name = n then v else member_of ms name)"
  by (simp_all add: member_of_def)

text \<open>An optional member that is left out reads as \<open>null\<close>, which decodes to the empty value.\<close>

lemma member_of_omit:
  "member_of (omitempty n s @ ms) m = (if m = n then if s = [] then member_of ms m else JStr s else member_of ms m)"
  "member_of (omitemptyList n ss @ ms) m
     = (if m = n then if ss = [] then member_of ms m else JArr (map JStr ss) else member_of ms m)"
  "member_of (omitempty n s) m = (if m = n then if s = [] then JNull else JStr s else JNull)"
  by (simp_all add: omitempty_def omitemptyList_def)

lemma decode_omit:
  "asString (if s = [] then JNull else JStr s) = Some s"
  "asStrings (if ss = [] then JNull else JArr (map JStr ss)) = Some ss"
  by (simp_all add: mapAll_map)

text \<open>Claims without \<open>path_auth\<close> are decoded as they were written.\<close>

lemma claims_roundtrip: "c_PathAuth c = None \<Longrightarrow> decodeClaims (claimsJson c) = Some c"
proof -
  have fl: "asFloatPtr (floatPtr p) = Some p" for p by (cases p) (simp_all add: floatPtr_def)
  assume "c_PathAuth c = None"
  then show ?thesis
    unfolding decodeClaims_def claimsJson_def
    by (cases c) (simp add: member_of_omit decode_omit fl cong: if_cong split del: if_split)
qed

lemma claims_members:
  assumes "c_PathAuth c = None"
  obtains ms where "asMembers (claimsJson c) = Some ms" "map_of ms ''path_auth'' = None"
    "list_all (\<lambda>(name, _). name \<in> set allowedClaims) ms"
proof
  show "asMembers (claimsJson c) = Some (case claimsJson c of JObj ms \<Rightarrow> ms | _ \<Rightarrow> [])"
    by (simp add: claimsJson_def)
  show "map_of (case claimsJson c of JObj ms \<Rightarrow> ms | _ \<Rightarrow> []) ''path_auth'' = None"
    using assms by (simp add: claimsJson_def omitempty_def omitemptyList_def)
  show "list_all (\<lambda>(name, _). name \<in> set allowedClaims) (case claimsJson c of JObj ms \<Rightarrow> ms | _ \<Rightarrow> [])"
    using assms by (simp add: claimsJson_def omitempty_def omitemptyList_def allowedClaims_def)
qed

text \<open>A whole number of seconds survives the numeric date it is written as.\<close>

lemma fracNanos_of_int: "\<bar>x\<bar> < 2 ^ 53 \<Longrightarrow> fracNanos (f64_of_int x) = 0"
proof -
  assume "\<bar>x\<bar> < 2 ^ 53"
  then obtain e fr where fields: "f64_sign (f64_of_int x) = (x < 0)" "f64_exp (f64_of_int x) = e"
    "f64_frac (f64_of_int x) = fr"
    and val: "if x = 0 then e = 0 \<and> fr = 0 else 1023 \<le> e \<and> 2 ^ 52 + fr = nat \<bar>x\<bar> * 2 ^ (1075 - e)"
    by (rule f64_of_int_fields)
  have m: "(if e = 0 then fr else 2 ^ 52 + fr) mod 2 ^ (1075 - max 1 e) = 0"
    using val by (cases "x = 0") (auto simp: max_def)
  have "fround 0 = 0" by (simp add: fround_def ilog2.simps)
  then show ?thesis unfolding fracNanos_def Let_def fields m by simp
qed

lemma numericDate_of_int:
  assumes "0 \<le> x" and "x < 2 ^ 53"
  shows "numericDate pf (f64_of_int x) = x * second"
proof -
  from assms have "\<bar>x\<bar> < 2 ^ 53" by simp
  moreover from assms have "timeUnix x 0 = x * second"
    by (simp add: timeUnix_def wrap64_id unixToInternal_def)
  ultimately show ?thesis
    using assms by (simp add: numericDate_def f64_trunc_of_int fracNanos_of_int)
qed

lemma unixSec_exact: "0 \<le> t \<Longrightarrow> t < 2 ^ 53 * second \<Longrightarrow>
    unixSec t = t div second \<and> 0 \<le> t div second \<and> t div second < 2 ^ 53"
proof -
  assume "0 \<le> t" "t < 2 ^ 53 * second"
  then have "0 \<le> t div second \<and> t div second < 2 ^ 53"
    by (simp add: second_def pos_imp_zdiv_nonneg_iff div_less_iff_less_mult)
  then show ?thesis by (simp add: unixSec_def wrap64_id)
qed

text \<open>The time check of a freshly signed token, by the seconds of signing and of expiry.\<close>

lemma checkTime_signed:
  assumes "0 \<le> now" and "0 < ttl" and "ttl \<le> MaxLifetime" and "now + ttl < 2 ^ 53 * second"
    and "0 \<le> now'" and "now div second * second \<le> now' + Leeway"
    and "now' < (now + ttl) div second * second + Leeway"
  shows "checkTime pf (signedClaims g ttl now jti) now' True =
     (if (now + ttl) div second = now div second then Inl ErrInvalid
      else Inr ((now + ttl) div second * second))"
proof -
  let ?i = "now div second" and ?e = "(now + ttl) div second"
  have small: "now < 2 ^ 53 * second" "0 \<le> now + ttl" using assms by auto
  note i = unixSec_exact [OF assms(1) small(1)] and e = unixSec_exact [OF small(2) assms(4)]
  have "timeAdd now ttl = now + ttl" using small(2) assms(4) by (intro timeAdd_exact) (auto simp: second_def)
  then have dates: "c_IssuedAt (signedClaims g ttl now jti) = Some (f64_of_int ?i)"
    "c_NotBefore (signedClaims g ttl now jti) = Some (f64_of_int ?i)"
    "c_ExpiresAt (signedClaims g ttl now jti) = Some (f64_of_int ?e)"
    using i e by (simp_all add: signedClaims_def Let_def)
  have num: "numericDate pf (f64_of_int ?i) = ?i * second" "numericDate pf (f64_of_int ?e) = ?e * second"
    using i e by (simp_all add: numericDate_of_int)
  have le: "?i \<le> ?e" "?e \<le> ?i + 3600"
  proof -
    show "?i \<le> ?e" using assms(2) by (simp add: second_def zdiv_mono1)
    have "?e \<le> (now + 3600 * second) div second"
      using assms(3) by (simp add: MaxLifetime_def second_def zdiv_mono1)
    then show "?e \<le> ?i + 3600" by (simp add: second_def)
  qed
  have life: "timeSub (?e * second) (?i * second) = (?e - ?i) * second"
    using le by (simp add: timeSub_def second_def)
  have leeway: "timeAdd (?e * second) Leeway = ?e * second + Leeway"
    using e by (intro timeAdd_exact) (auto simp: Leeway_def second_def)
  have whole: "timeUnix (unixSec (?e * second + Leeway)) 0 = ?e * second + Leeway"
  proof -
    have d: "(?e * second + Leeway) div second = ?e + 60" by (simp add: Leeway_def second_def)
    have "timeUnix (unixSec (?e * second + Leeway)) 0 = (?e + 60) * second"
      using e timeUnix_unixSec [of "?e * second + Leeway"] unfolding d by (simp add: unixToInternal_def)
    then show ?thesis by (simp add: Leeway_def algebra_simps)
  qed
  have now': "timeAdd now' Leeway = now' + Leeway"
    using assms(5,7) e by (intro timeAdd_exact) (auto simp: Leeway_def second_def)
  show ?thesis
    unfolding checkTime_def dates
    using le assms(6,7)
    by (simp add: num life leeway whole now' Let_def MaxLifetime_def not_less) (simp add: second_def)
qed

text \<open>
  What the token package relies on: decoding reads back the value that was encoded, and a signature
  verifies under the public half of the key that made it.
\<close>

definition jsonFaithful :: "platform \<Rightarrow> bool" where
  "jsonFaithful pf \<longleftrightarrow> (\<forall>v raw. jsonMarshal pf v = Some raw \<or> jsonMarshalIndent pf v = Some raw
     \<longrightarrow> jsonUnmarshal pf raw = Some v)"

definition signatureFaithful :: "platform \<Rightarrow> bool" where
  "signatureFaithful pf \<longleftrightarrow> (\<forall>priv m. ed25519_Verify pf (privatePublic priv) m (ed25519_Sign pf priv m))"

lemma checked_same: "checked mq g pre = Inr h \<Longrightarrow> h = g \<and> MaxAge g = 0"
  by (auto simp: checked_def split: if_splits)

lemma signAt_parts:
  assumes "signAt pf mq key g ttl now jti = Inr tok" and "jsonFaithful pf"
  obtains h b sig where "0 < ttl" "ttl \<le> MaxLifetime" "checked mq g (SigningPrefix key) = Inr g" "MaxAge g = 0"
    "splitOn (CHR ''.'') tok = [h, b, EncodeToString (ed25519_Sign pf (Private key) (h @ ''.'' @ b))]"
    "decodeSegment pf h = Some (headerJson key)" "decodeSegment pf b = Some (claimsJson (signedClaims g ttl now jti))"
proof -
  from assms(1) obtain g' header body where ttl: "0 < ttl" "ttl \<le> MaxLifetime"
    and g': "checked mq g (SigningPrefix key) = Inr g'"
    and header: "jsonMarshal pf (headerJson key) = Some header"
    and body: "jsonMarshal pf (claimsJson (signedClaims g' ttl now jti)) = Some body"
    and tok: "tok = (EncodeToString header @ ''.'' @ EncodeToString body) @ ''.''
      @ EncodeToString (ed25519_Sign pf (Private key) (EncodeToString header @ ''.'' @ EncodeToString body))"
    by (auto simp: signAt_def bindE_Inr_iff Let_def split: if_splits option.splits)
  from checked_same [OF g'] have g: "g' = g" "MaxAge g = 0" by auto
  have "decodeSegment pf (EncodeToString header) = Some (headerJson key)"
    "decodeSegment pf (EncodeToString body) = Some (claimsJson (signedClaims g ttl now jti))"
    using assms(2) header body g by (auto simp: decodeSegment_def jsonFaithful_def)
  moreover have "splitOn (CHR ''.'') tok = [EncodeToString header, EncodeToString body,
      EncodeToString (ed25519_Sign pf (Private key) (EncodeToString header @ ''.'' @ EncodeToString body))]"
    unfolding tok by (simp add: splitOn_append splitOn_plain EncodeToString_no_dot)
  ultimately show ?thesis using that ttl g' g by blast
qed

lemma signed_grant:
  assumes "checked mq g pre = Inr g" and "MaxAge g = 0"
    and "map_of ms ''path_auth'' = None"
  shows "grantFrom mq ms (signedClaims g ttl now jti) pre = Inr g"
proof -
  have "claims_grant (signedClaims g ttl now jti) = g"
    using assms(2) by (simp add: claims_grant_def signedClaims_def Let_def)
  with assms show ?thesis by (simp add: grantFrom_def)
qed

text \<open>
  What \<open>signAt\<close> writes, \<open>Verify\<close> reads, from a minute before it was signed until a minute after it expires;
  unless signing and expiry fall into the same second, which \<open>signAt\<close> accepts and \<open>Verify\<close> refuses.
\<close>

lemma sign_verify:
  assumes sign: "signAt pf mq key g ttl now jti = Inr tok"
    and ext: "jsonFaithful pf" "signatureFaithful pf"
    and k: "keys (SigningID key) = Some k" "Public k = privatePublic (Private key)" "Prefix k = SigningPrefix key"
    and now: "0 \<le> now" "now + ttl < 2 ^ 53 * second"
    and now': "0 \<le> now'" "now div second * second \<le> now' + Leeway"
      "now' < (now + ttl) div second * second + Leeway"
  shows "Verify pf mq tok keys now' =
     (if (now + ttl) div second = now div second then Inl ErrInvalid
      else Inr \<lparr>ClaimsGrant = g, ExpiresAt = (now + ttl) div second * second, TokenID = jti, ClaimsKey = k\<rparr>)"
proof -
  let ?c = "signedClaims g ttl now jti"
  obtain h b where ttl: "0 < ttl" "ttl \<le> MaxLifetime" and g: "checked mq g (Prefix k) = Inr g" "MaxAge g = 0"
    and parts: "splitOn (CHR ''.'') tok = [h, b, EncodeToString (ed25519_Sign pf (Private key) (h @ ''.'' @ b))]"
    and seg: "decodeSegment pf h = Some (headerJson key)" "decodeSegment pf b = Some (claimsJson ?c)"
    unfolding k(3) by (rule signAt_parts [OF sign ext(1)])
  have none: "c_PathAuth ?c = None" by (simp add: signedClaims_def Let_def)
  from claims_members [OF this] obtain ms where ms: "asMembers (claimsJson ?c) = Some ms"
    "map_of ms ''path_auth'' = None" "list_all (\<lambda>(name, _). name \<in> set allowedClaims) ms" .
  have header: "decodeHeader (headerJson key) = Some (''EdDSA'', SigningID key, False)"
    by (simp add: decodeHeader_def headerJson_def)
  have sig: "ed25519_Verify pf (Public k) (h @ ''.'' @ b) (ed25519_Sign pf (Private key) (h @ ''.'' @ b))"
    using ext(2) by (simp add: k(2) signatureFaithful_def)
  have "Verify pf mq tok keys now' = bindE (checkTime pf ?c now' True) (\<lambda>exp.
      Inr \<lparr>ClaimsGrant = g, ExpiresAt = exp, TokenID = jti, ClaimsKey = k\<rparr>)"
    using sig ms(3)
    by (simp add: Verify_def verify_def parts seg header k(1) ms(1) claims_roundtrip [OF none]
        signed_grant [OF g ms(2)]) (simp add: signedClaims_def Let_def)
  also note checkTime_signed [OF now(1) ttl now(2) now', of pf g jti]
  finally show ?thesis by simp
qed

section \<open>Key files\<close>

text \<open>The key a verifier reads back: the pause is listed once.\<close>

definition pausedOnce :: "Key \<Rightarrow> Key" where
  "pausedOnce k = k \<lparr>Pause := (if Pause k = [] then [] else [ActionPublish])\<rparr>"

lemma normalizePause_Inr: "normalizePause ps = Inr qs \<Longrightarrow> qs = (if ps = [] then [] else [ActionPublish])"
  by (auto simp: normalizePause_def split: option.splits)

lemma marshalKeys_Inr:
  "marshalKeys i ks = Inr js \<Longrightarrow> js = map (\<lambda>k. jwkJson (jwkOf (pausedOnce k))) ks"
proof (induction ks arbitrary: i js)
  case Nil
  then show ?case by simp
next
  case (Cons k ks)
  from Cons.prems obtain pause js' where "normalizePause (Pause k) = Inr pause"
    "marshalKeys (Suc i) ks = Inr js'" "js = jwkJson (jwkOf k \<lparr>JwkPause := pause\<rparr>) # js'"
    by (auto simp: bindE_Inr_iff)
  with Cons.IH normalizePause_Inr show ?case by (auto simp: jwkOf_def pausedOnce_def)
qed

lemma jwkOf_describes:
  assumes "keyOk pf (KeyID k) k"
  shows "describes (jwkOf k) k"
  using assms by (auto simp: keyOk_def describes_def jwkOf_def normalizePause_def)

lemma key_set_read:
  assumes "jsonUnmarshal pf raw = Some (JObj [(''keys'', JArr (map (\<lambda>k. jwkJson (jwkOf k)) ks))])"
    and "ks \<noteq> []" and "distinct (map KeyID ks)" and "\<forall>k \<in> set ks. keyOk pf (KeyID k) k"
  shows "ParseKeySet pf raw = Inr (keyMap ks)"
proof -
  have "mapAll decodeJwk (map (\<lambda>j. jwkJson j) (map jwkOf ks)) = Some (map jwkOf ks)"
    by (intro mapAll_map) (simp add: jwk_roundtrip)
  then have "decodeKeySet (JObj [(''keys'', JArr (map (\<lambda>k. jwkJson (jwkOf k)) ks))]) = Some (map jwkOf ks)"
    by (simp add: decodeKeySet_def comp_def)
  moreover have "keysRead pf Map.empty (map jwkOf ks) ks"
    using assms(3,4) by (auto simp: keysRead_def list_all2_conv_all_nth intro!: jwkOf_describes)
  ultimately show ?thesis
    using assms(1,2) by (simp add: ParseKeySet_def parseKeys_complete)
qed

section \<open>A sample token\<close>

definition sampleMoqt :: moqt where
  "sampleMoqt = \<lparr>ParseGrantPattern = (\<lambda>root s. Some (\<lambda>p. HasPrefix p root)), Validate = (\<lambda>_. True)\<rparr>"

definition sampleKey :: SigningKey where
  "sampleKey = \<lparr>SigningID = thumbprint (tablePlatform []) sampleSeed, Private = sampleSeed @ sampleSeed,
     SigningPrefix = ''/acme/''\<rparr>"

definition sampleGrant :: Grant where
  "sampleGrant = \<lparr>Root = ''/acme/room/'', Publish = [''/cam''], Subscribe = [], MaxAge = 0,
     Create = [], Post = [], Redact = [], Subject = ''ann''\<rparr>"

definition samplePlatform :: platform where
  "samplePlatform = tablePlatform [(''h'', headerJson sampleKey),
     (''b'', claimsJson (signedClaims sampleGrant MaxLifetime 0 ''j'')),
     (''set'', JObj [(''keys'', JArr [jwkJson (jwkOf (publicKey sampleKey))])])]"

lemma table_faithful: "distinct (map fst docs) \<Longrightarrow> jsonFaithful (tablePlatform docs)"
  by (auto simp: jsonFaithful_def tablePlatform_def dest!: map_of_SomeD)

lemma sample_platform: "jsonFaithful samplePlatform" "signatureFaithful samplePlatform" "patternsRelative sampleMoqt"
  by (simp_all add: samplePlatform_def table_faithful)
    (simp_all add: tablePlatform_def signatureFaithful_def privatePublic_def patternsRelative_def sampleMoqt_def)

lemma sample_thumbprint: "thumbprint (tablePlatform docs) x = thumbprint (tablePlatform []) x"
  by (simp add: thumbprint_def tablePlatform_def)

lemma sample_checked: "checked sampleMoqt sampleGrant ''/acme/'' = Inr sampleGrant"
  by (simp add: checked_def sampleGrant_def sampleMoqt_def Actions_def Patterns_def action_defs checkPattern_def
      Directory_def normalizePath_def ContainsAny_def within_def HasPrefix_def)

lemma sample_prefix: "SigningPrefix sampleKey = ''/acme/''"
  by (simp add: sampleKey_def)

lemma sample_public: "publicKey sampleKey = \<lparr>KeyID = thumbprint (tablePlatform []) sampleSeed,
    Public = sampleSeed, Prefix = ''/acme/'', Pause = []\<rparr>"
  by (simp add: publicKey_def sampleKey_def privatePublic_def sampleSeed_def)

lemma sample_id: "KeyID (publicKey sampleKey) = SigningID sampleKey"
  by (simp add: publicKey_def)

lemma sample_keys: "ParseKeySet samplePlatform ''set'' = Inr [SigningID sampleKey \<mapsto> publicKey sampleKey]"
proof -
  let ?j = "jwkOf (publicKey sampleKey)"
  have "jsonUnmarshal samplePlatform ''set'' = Some (JObj [(''keys'', JArr [jwkJson ?j])])"
    by (simp add: samplePlatform_def tablePlatform_def)
  moreover have "decodeKeySet (JObj [(''keys'', JArr [jwkJson ?j])]) = Some [?j]"
    by (simp add: decodeKeySet_def jwk_roundtrip)
  moreover have "Directory ''/acme/'' = Inr ''/acme/''"
    by (simp add: Directory_def normalizePath_def ContainsAny_def)
  then have "parseKey samplePlatform Map.empty ?j = Inr (publicKey sampleKey)"
    unfolding parseKey_Inr
    by (simp add: describes_def keyOk_def jwkOf_def sample_public normalizePause_def samplePlatform_def
        sample_thumbprint [of "_ # _"]) (simp add: sampleSeed_def)
  ultimately show ?thesis
    by (simp add: ParseKeySet_def sample_id)
qed

lemma sample_documents: "headerJson sampleKey \<noteq> claimsJson (signedClaims sampleGrant MaxLifetime 0 ''j'')"
  by (simp add: headerJson_def claimsJson_def signedClaims_def Let_def sampleGrant_def omitempty_def)

lemma sample_signed: "\<exists>tok. signAt samplePlatform sampleMoqt sampleKey sampleGrant MaxLifetime 0 ''j'' = Inr tok"
  using sample_documents
  by (simp add: signAt_def sample_prefix sample_checked samplePlatform_def tablePlatform_def Let_def)
    (simp add: MaxLifetime_def second_def)

definition sampleToken :: string where
  "sampleToken = (case signAt samplePlatform sampleMoqt sampleKey sampleGrant MaxLifetime 0 ''j'' of Inr t \<Rightarrow> t | Inl _ \<Rightarrow> [])"

lemma sample_token: "signAt samplePlatform sampleMoqt sampleKey sampleGrant MaxLifetime 0 ''j'' = Inr sampleToken"
  using sample_signed by (auto simp: sampleToken_def)

lemma sample_verified:
  "Verify samplePlatform sampleMoqt sampleToken [SigningID sampleKey \<mapsto> publicKey sampleKey] (5 * second) =
     Inr \<lparr>ClaimsGrant = sampleGrant, ExpiresAt = MaxLifetime, TokenID = ''j'', ClaimsKey = publicKey sampleKey\<rparr>"
proof -
  have "Public (publicKey sampleKey) = privatePublic (Private sampleKey)"
    "Prefix (publicKey sampleKey) = SigningPrefix sampleKey" by (simp_all add: publicKey_def)
  from sign_verify [OF sample_token sample_platform(1,2) _ this, of "[SigningID sampleKey \<mapsto> publicKey sampleKey]" "5 * second"]
  show ?thesis by (simp add: MaxLifetime_def second_def Leeway_def)
qed

section \<open>Properties of tokens\<close>

lemma verified_confined:
  assumes "keySetOk pf keys" and "verify pf mq token keys now expiry = Inr cl"
  shows "keys (KeyID (ClaimsKey cl)) = Some (ClaimsKey cl)"
    and "confined mq (segments (Prefix (ClaimsKey cl))) (ClaimsGrant cl)"
proof -
  from assms(2) obtain kid members c where v: "keys kid = Some (ClaimsKey cl)"
    "grantFrom mq members c (Prefix (ClaimsKey cl)) = Inr (ClaimsGrant cl)"
    unfolding verify_Inr by auto
  from assms(1) v(1) have key: "keyOk pf kid (ClaimsKey cl)" by (simp add: keySetOk_def)
  then show "keys (KeyID (ClaimsKey cl)) = Some (ClaimsKey cl)" using v(1) by (simp add: keyOk_def)
  let ?ps = "segments (Prefix (ClaimsKey cl))"
  from key have "Prefix (ClaimsKey cl) = dirOf ?ps" "list_all plainSeg ?ps" by (auto simp: keyOk_def Directory_iff)
  with v(2) show "confined mq ?ps (ClaimsGrant cl)" by (metis grantFrom_confined)
qed

text \<open>
  No token reaches outside its key's tenant. Whatever the token, if \<open>Verify\<close> or
  \<open>VerifyLive\<close> accepts it under a loaded key set, then it is signed by the trusted key it names, and every
  broadcast path its grant allows, for any action, has only plain segments, of which the first
  are the segments of that key's prefix, or \<open>.hls\<close> and then those. This holds for both forms a grant is
  carried in, given that a pattern of \<^verbatim>\<open>gomoqt\<close> matches only paths beneath its root.
\<close>

theorem token_confined:
  assumes "ParseKeySet pf raw = Inr keys"
    and "verify pf mq token keys now expiry = Inr cl"
    and "patternsRelative mq"
  shows "keys (KeyID (ClaimsKey cl)) = Some (ClaimsKey cl)
    \<and> (\<exists>h b s sig. token = h @ ''.'' @ b @ ''.'' @ s \<and> DecodeString s = Some sig
           \<and> ed25519_Verify pf (Public (ClaimsKey cl)) (h @ ''.'' @ b) sig)
    \<and> (\<forall>action path. Allows mq (ClaimsGrant cl) action path \<longrightarrow>
           list_all plainSeg (segments path)
           \<and> (prefix (segments (Prefix (ClaimsKey cl))) (segments path)
              \<or> prefix (''.hls'' # segments (Prefix (ClaimsKey cl))) (segments path)))"
proof (intro conjI)
  from assms(2) obtain h b s sig where v:
    "splitOn (CHR ''.'') token = [h, b, s]" "DecodeString s = Some sig"
    "ed25519_Verify pf (Public (ClaimsKey cl)) (h @ ''.'' @ b) sig"
    unfolding verify_Inr by auto
  show "\<exists>h b s sig. token = h @ ''.'' @ b @ ''.'' @ s \<and> DecodeString s = Some sig
      \<and> ed25519_Verify pf (Public (ClaimsKey cl)) (h @ ''.'' @ b) sig"
    using v(2,3) splitOn_three [OF v(1)] by auto
  note ok = verified_confined [OF ParseKeySet_ok [OF assms(1)] assms(2)]
  show "keys (KeyID (ClaimsKey cl)) = Some (ClaimsKey cl)" by (rule ok(1))
  show "\<forall>action path. Allows mq (ClaimsGrant cl) action path \<longrightarrow>
      list_all plainSeg (segments path)
      \<and> (prefix (segments (Prefix (ClaimsKey cl))) (segments path)
         \<or> prefix (''.hls'' # segments (Prefix (ClaimsKey cl))) (segments path))"
    using Allows_confined [OF ok(2) assms(3)] by blast
qed

text \<open>
  A token is worth at most its lifetime: two moments at which \<open>Verify\<close> accepts the same token,
  under whatever key sets, are less than an hour and two minutes apart (\<open>MaxLifetime\<close> and \<open>Leeway\<close> on
  both sides), and each lies before the token's expiry plus \<open>Leeway\<close>. This holds for every number
  a token can carry as its dates, with the conversions and the wrap-around of \<^verbatim>\<open>time\<close>.
\<close>

theorem token_lifetime_bounded:
  assumes "Verify pf mq token keys now = Inr cl" and "Verify pf mq token keys' now' = Inr cl'" and "0 \<le> now"
    and "0 \<le> now'"
  shows "now' < now + MaxLifetime + 2 * Leeway \<and> now < ExpiresAt cl + Leeway \<and> ExpiresAt cl = ExpiresAt cl'"
proof -
  from assms(1) obtain b c where c: "splitOn (CHR ''.'') token ! 1 = b"
    "Option.bind (decodeSegment pf b) decodeClaims = Some c" "checkTime pf c now True = Inr (ExpiresAt cl)"
    unfolding Verify_def verify_Inr by auto
  from assms(2) c(1,2) have c': "checkTime pf c now' True = Inr (ExpiresAt cl')"
    unfolding Verify_def verify_Inr by auto
  obtain e iat where w: "c_ExpiresAt c = Some e" "ExpiresAt cl = numericDate pf e" "c_IssuedAt c = Some iat"
    "numericDate pf iat \<le> now + Leeway" "now < ExpiresAt cl + Leeway"
    using checkTime_window [OF c(3) assms(3)] by metis
  obtain e' iat' where w': "c_ExpiresAt c = Some e'" "ExpiresAt cl' = numericDate pf e'" "c_IssuedAt c = Some iat'"
    "ExpiresAt cl' \<le> numericDate pf iat' + MaxLifetime" "now' < ExpiresAt cl' + Leeway"
    using checkTime_window [OF c' assms(4)] by metis
  from w w' show ?thesis by simp
qed

text \<open>
  A session outlives its token and ends with its key. When \<open>Verify\<close> accepted a token, \<open>VerifyLive\<close> at any
  later time accepts it with the same grant as long as the key set still has the key with its prefix
  under the same \<open>kid\<close>, whatever else the set holds and whatever the key pauses, and refuses the token
  as soon as the set does not have the key.
\<close>

lemma verify_live:
  assumes "Verify pf mq token keys now = Inr cl" and "keySetOk pf keys"
    and "0 \<le> now" and "now \<le> now'" and "now' + Leeway < 2 ^ 62 * second"
  shows "(keys' (KeyID (ClaimsKey cl)) = None \<longrightarrow> VerifyLive pf mq token keys' now' = Inl ErrInvalid)
     \<and> (\<forall>key. keys' (KeyID (ClaimsKey cl)) = Some key \<longrightarrow> Public key = Public (ClaimsKey cl)
          \<longrightarrow> Prefix key = Prefix (ClaimsKey cl)
          \<longrightarrow> VerifyLive pf mq token keys' now' = Inr (cl \<lparr>ClaimsKey := key\<rparr>))"
proof -
  from assms(1) obtain h b s kid sig members c where v: "splitOn (CHR ''.'') token = [h, b, s]"
    "Option.bind (decodeSegment pf h) decodeHeader = Some (''EdDSA'', kid, False)" "keys kid = Some (ClaimsKey cl)"
    "DecodeString s = Some sig" "ed25519_Verify pf (Public (ClaimsKey cl)) (h @ ''.'' @ b) sig"
    "Option.bind (decodeSegment pf b) asMembers = Some members"
    "list_all (\<lambda>(name, _). name \<in> set allowedClaims) members"
    "Option.bind (decodeSegment pf b) decodeClaims = Some c" "checkTime pf c now True = Inr (ExpiresAt cl)"
    "grantFrom mq members c (Prefix (ClaimsKey cl)) = Inr (ClaimsGrant cl)" "TokenID cl = c_ID c"
    unfolding Verify_def verify_Inr by auto
  with assms(2) have kid: "KeyID (ClaimsKey cl) = kid" by (auto simp: keySetOk_def keyOk_def)
  have "VerifyLive pf mq token keys' now' = Inl ErrInvalid" if "keys' kid = None"
    using v that by (simp add: VerifyLive_def verify_def)
  moreover have "VerifyLive pf mq token keys' now' = Inr (cl \<lparr>ClaimsKey := key\<rparr>)"
    if "keys' kid = Some key" "Public key = Public (ClaimsKey cl)" "Prefix key = Prefix (ClaimsKey cl)" for key
    using v that checkTime_live [OF v(9) assms(3-5)] by (simp add: VerifyLive_def verify_def Let_def)
  ultimately show ?thesis unfolding kid by blast
qed

text \<open>
  A key set file reads back as the keys it was written from, each under its identifier, with
  the pause listed once: \<open>MarshalKeySet\<close> then \<open>ParseKeySet\<close>, for any number of different keys that carry
  their thumbprint and a prefix in the form of \<open>Directory\<close>.
\<close>

theorem key_set_roundtrip:
  assumes "MarshalKeySet pf ks = Inr raw" and "jsonFaithful pf" and "ks \<noteq> []" and "distinct (map KeyID ks)"
    and "\<forall>k \<in> set ks. keyOk pf (KeyID k) (pausedOnce k)"
  shows "ParseKeySet pf raw = Inr (keyMap (map pausedOnce ks))"
proof -
  from assms(1) obtain js where "marshalKeys 0 ks = Inr js"
    and "jsonMarshalIndent pf (JObj [(''keys'', JArr js)]) = Some raw"
    by (auto simp: MarshalKeySet_def bindE_Inr_iff split: option.splits)
  with assms(2) have raw: "jsonUnmarshal pf raw
      = Some (JObj [(''keys'', JArr (map (\<lambda>k. jwkJson (jwkOf k)) (map pausedOnce ks)))])"
    by (auto simp: jsonFaithful_def comp_def dest: marshalKeys_Inr)
  have id: "KeyID (pausedOnce k) = KeyID k" for k by (simp add: pausedOnce_def)
  show ?thesis by (rule key_set_read [OF raw]) (use assms(3-5) in \<open>auto simp: comp_def id\<close>)
qed

text \<open>
  A generated key is what its file says it is: \<open>GenerateKey\<close>, \<open>MarshalJWK\<close> and \<open>ParseSigningKey\<close> return the same
  key, and its public half is one a verifier trusts under its identifier, confined to the prefix
  the key was generated for.
\<close>

theorem signing_key_roundtrip:
  assumes "GenerateKey pf seed pre = Inr key" and "MarshalJWK pf key = Some raw" and "jsonFaithful pf"
    and "length seed = 32" and "length (ed25519_public pf seed) = 32"
  shows "ParseSigningKey pf raw = Inr key \<and> keyOk pf (SigningID key) (publicKey key)
     \<and> Directory pre = Inr (Prefix (publicKey key))"
proof -
  from assms(1) obtain norm where d: "Directory pre = Inr norm"
    and key: "key = \<lparr>SigningID = thumbprint pf (ed25519_public pf seed), Private = seed @ ed25519_public pf seed,
      SigningPrefix = norm\<rparr>"
    using assms(4) by (auto simp: GenerateKey_def bindE_Inr_iff Let_def NewKeyFromSeed_def privatePublic_def)
  note dd = Directory_idem [OF d]
  let ?j = "jwkOf (publicKey key) \<lparr>D := EncodeToString seed\<rparr>"
  have "jsonUnmarshal pf raw = Some (jwkJson ?j)"
    using assms(2-4) by (auto simp: MarshalJWK_def jsonFaithful_def key privateSeed_def)
  then have "ParseSigningKey pf raw = Inr key"
    using assms(4) dd
    by (simp add: ParseSigningKey_def jwk_roundtrip Let_def NewKeyFromSeed_def)
      (simp add: jwkOf_def publicKey_def key privatePublic_def)
  moreover have "keyOk pf (SigningID key) (publicKey key)"
    using assms(4,5) dd by (simp add: keyOk_def publicKey_def key privatePublic_def)
  ultimately show ?thesis using d by (simp add: publicKey_def key)
qed

end
