(* ===== verification/Verifier.thy ===== *)
theory Verifier
  imports Token_Sign Usage_Report
begin

text \<open>
  The relay's verifier of credentials (\<^verbatim>\<open>src/internal/auth\<close>: \<^verbatim>\<open>keyset.go\<close>, \<^verbatim>\<open>keysource.go\<close>, \<^verbatim>\<open>grant.go\<close>, \<^verbatim>\<open>verifier.go\<close>): the key set
  it keeps, refreshed from a file or a URL, and its decisions about sessions, requests and tickets. What a
  file system or an HTTP server answers is an argument. Error texts are left out: a refusal is its HTTP
  status, every other error has a constructor of its own.
\<close>

section \<open>The key store\<close>

record keyStore =
  storeSet :: "(string \<rightharpoonup> Key) option"
  lastSuccess :: int

definition keysRefresh :: int where "keysRefresh = 30 * second"
definition keysRefreshJitter :: int where "keysRefreshJitter = keysRefresh div 10"
definition keysMaxStale :: int where "keysMaxStale = 6 * 3600 * second"
definition maxKeySetBytes :: nat where "maxKeySetBytes = 32 * 2 ^ 20"

definition currentSet :: "int \<Rightarrow> keyStore \<Rightarrow> (string \<rightharpoonup> Key) option \<times> bool" where
  "currentSet now st = (storeSet st, storeSet st \<noteq> None \<and> timeSub now (lastSuccess st) \<le> keysMaxStale)"

definition replaceSet :: "(string \<rightharpoonup> Key) \<Rightarrow> int \<Rightarrow> keyStore \<Rightarrow> keyStore" where
  "replaceSet keys now st = st \<lparr>storeSet := Some keys, lastSuccess := now\<rparr>"

definition confirm :: "int \<Rightarrow> keyStore \<Rightarrow> keyStore" where
  "confirm now st = st \<lparr>lastSuccess := now\<rparr>"

text \<open>\<open>draw\<close> is the number the random source gives, or none when it fails.\<close>

definition nextRefresh :: "int option \<Rightarrow> int" where
  "nextRefresh draw = (case draw of None \<Rightarrow> keysRefresh | Some n \<Rightarrow> keysRefresh - keysRefreshJitter + n)"

datatype keySetError = decodeKeySetFailed | noKeysList | badKeySet keyError

definition parseKeySet :: "platform \<Rightarrow> string \<Rightarrow> keySetError + (string \<rightharpoonup> Key)" where
  "parseKeySet pf raw =
     (case Option.bind (jsonUnmarshal pf raw) asMembers of
        None \<Rightarrow> Inl decodeKeySetFailed
      | Some ms \<Rightarrow>
          (case member_of ms ''keys'' of
             JNull \<Rightarrow> Inl noKeysList
           | JArr vs \<Rightarrow> if vs = [] then Inr Map.empty else mapErr badKeySet (ParseKeySet pf raw)
           | _ \<Rightarrow> Inl decodeKeySetFailed))"

section \<open>Key sources\<close>

text \<open>
  A refresh returns whether it succeeded. \<open>stat\<close> is the modification time of the file and \<open>raw\<close> its text;
  \<open>None\<close> is a call that failed.
\<close>

definition fileRefresh :: "platform \<Rightarrow> int option \<Rightarrow> string option \<Rightarrow> int \<Rightarrow> int \<Rightarrow> keyStore \<Rightarrow> bool \<times> int \<times> keyStore" where
  "fileRefresh pf stat raw now modTime st =
     (case stat of
        None \<Rightarrow> (False, modTime, st)
      | Some m \<Rightarrow>
          if fst (currentSet now st) \<noteq> None \<and> m = modTime then (True, modTime, confirm now st)
          else case raw of
                 None \<Rightarrow> (False, modTime, st)
               | Some text \<Rightarrow>
                   (case parseKeySet pf text of
                      Inl _ \<Rightarrow> (False, modTime, st)
                    | Inr keys \<Rightarrow> (True, m, replaceSet keys now st)))"

text \<open>
  The URL source keeps the last ETag and, when \<open>caches\<close>, a cache file: its text and its modification time.
  \<open>wrote\<close> is when the cache file is written, or none when that fails; \<open>touched\<close> whether setting its time works.
\<close>

record urlKeySource =
  etag :: string
  caches :: bool
  cacheFile :: "(string \<times> int) option"

datatype response = requestFailed | answer nat "string option" string

definition saveCache :: "string \<Rightarrow> int option \<Rightarrow> urlKeySource \<Rightarrow> urlKeySource" where
  "saveCache raw wrote u =
     (if \<not> caches u then u else case wrote of None \<Rightarrow> u | Some t \<Rightarrow> u \<lparr>cacheFile := Some (raw, t)\<rparr>)"

definition touchCache :: "int \<Rightarrow> bool \<Rightarrow> urlKeySource \<Rightarrow> urlKeySource" where
  "touchCache now touched u =
     (if \<not> caches u \<or> \<not> touched then u
      else u \<lparr>cacheFile := map_option (\<lambda>(raw, _). (raw, now)) (cacheFile u)\<rparr>)"

definition urlStart :: "platform \<Rightarrow> int \<Rightarrow> urlKeySource \<Rightarrow> keyStore \<Rightarrow> keyStore" where
  "urlStart pf now u st =
     (if \<not> caches u then st
      else case cacheFile u of
             None \<Rightarrow> st
           | Some (raw, modTime) \<Rightarrow>
               (case parseKeySet pf raw of
                  Inl _ \<Rightarrow> st
                | Inr keys \<Rightarrow> replaceSet keys (if modTime > now then now else modTime) st))"

definition urlRefresh :: "platform \<Rightarrow> response \<Rightarrow> int option \<Rightarrow> bool \<Rightarrow> int \<Rightarrow> urlKeySource \<Rightarrow> keyStore \<Rightarrow>
    bool \<times> urlKeySource \<times> keyStore" where
  "urlRefresh pf resp wrote touched now u st =
     (case resp of
        requestFailed \<Rightarrow> (False, u, st)
      | answer status body tag \<Rightarrow>
          if status = 304 then (True, touchCache now touched u, confirm now st)
          else if status \<noteq> 200 then (False, u, st)
          else case body of
                 None \<Rightarrow> (False, u, st)
               | Some raw \<Rightarrow>
                   if length raw > maxKeySetBytes then (False, u, st)
                   else case parseKeySet pf raw of
                          Inl _ \<Rightarrow> (False, u, st)
                        | Inr keys \<Rightarrow> (True, saveCache raw wrote (u \<lparr>etag := tag\<rparr>), replaceSet keys now st))"

section \<open>Credentials in a query\<close>

text \<open>\<^verbatim>\<open>url.ParseQuery\<close>: pairs separated by \<open>&\<close>, percent-encoded; a semicolon or a bad escape is an error.\<close>

definition hexDigit :: "char \<Rightarrow> nat option" where
  "hexDigit c =
     (let n = of_char c in
      if 48 \<le> n \<and> n \<le> 57 then Some (n - 48)
      else if 97 \<le> n \<and> n \<le> 102 then Some (n - 87)
      else if 65 \<le> n \<and> n \<le> 70 then Some (n - 55)
      else None)"

fun queryUnescape :: "string \<Rightarrow> string option" where
  "queryUnescape [] = Some []"
| "queryUnescape (c # cs) =
     (if c = CHR ''%'' then
        (case cs of
           a # b # rest \<Rightarrow>
             (case (hexDigit a, hexDigit b) of
                (Some x, Some y) \<Rightarrow> map_option (Cons (char_of (16 * x + y))) (queryUnescape rest)
              | _ \<Rightarrow> None)
         | _ \<Rightarrow> None)
      else if c = CHR ''+'' then map_option (Cons (CHR '' '')) (queryUnescape cs)
      else map_option (Cons c) (queryUnescape cs))"

definition cut :: "char \<Rightarrow> string \<Rightarrow> string \<times> string" where
  "cut c s = (takeWhile (\<lambda>x. x \<noteq> c) s, drop 1 (dropWhile (\<lambda>x. x \<noteq> c) s))"

fun queryPairs :: "string list \<Rightarrow> (string \<times> string) list option" where
  "queryPairs [] = Some []"
| "queryPairs (p # ps) =
     (if CHR '';'' \<in> set p then None
      else if p = [] then queryPairs ps
      else case (queryUnescape (fst (cut (CHR ''='') p)), queryUnescape (snd (cut (CHR ''='') p))) of
             (Some k, Some v) \<Rightarrow> map_option (Cons (k, v)) (queryPairs ps)
           | _ \<Rightarrow> None)"

definition ParseQuery :: "string \<Rightarrow> (string \<times> string) list option" where
  "ParseQuery q = queryPairs (splitOn (CHR ''&'') q)"

section \<open>Decisions\<close>

record authGrant =
  agGrant :: Grant
  agRevalidate :: int
  agKeyID :: string
  agExpires :: int
  agAnonymous :: bool

definition revalidateEvery :: int where "revalidateEvery = 30 * second"

definition NewGrant :: "Grant \<Rightarrow> int \<Rightarrow> authGrant" where
  "NewGrant g rv = \<lparr>agGrant = g, agRevalidate = rv, agKeyID = [], agExpires = zeroTime, agAnonymous = False\<rparr>"

datatype authError = noKeySet | staleKeySet | RefusedError nat

definition RefusalStatus :: "authError \<Rightarrow> nat" where
  "RefusalStatus e = (case e of RefusedError status \<Rightarrow> status | _ \<Rightarrow> 503)"

datatype credential = noCredential | badQuery | credentialText string

definition credentialOf :: "string \<Rightarrow> credential" where
  "credentialOf rawQuery =
     (case ParseQuery rawQuery of
        None \<Rightarrow> badQuery
      | Some kvs \<Rightarrow> (case map_of kvs ''jwt'' of None \<Rightarrow> noCredential | Some v \<Rightarrow> credentialText v))"

definition publishesBroadcast :: "Grant \<Rightarrow> bool" where
  "publishesBroadcast g \<longleftrightarrow> Publish g \<noteq> []"

definition claimsAuth :: "Claims \<Rightarrow> authGrant" where
  "claimsAuth c = \<lparr>agGrant = ClaimsGrant c, agRevalidate = revalidateEvery, agKeyID = KeyID (ClaimsKey c),
     agExpires = ExpiresAt c, agAnonymous = False\<rparr>"

text \<open>
  \<open>decide\<close>; \<open>cred\<close> is an error for a query that does not parse. It returns the grant, with the key and
  whether it publishes for the usage report.
\<close>

definition decide :: "platform \<Rightarrow> moqt \<Rightarrow> keyStore \<Rightarrow> int \<Rightarrow> authError + string \<Rightarrow> bool \<Rightarrow> (authGrant \<Rightarrow> bool) \<Rightarrow>
    authError + (authGrant \<times> string \<times> bool)" where
  "decide pf mq st now cred connect paused =
     (case currentSet now st of
        (None, _) \<Rightarrow> Inl noKeySet
      | (Some keys, fresh) \<Rightarrow>
          if connect \<and> \<not> fresh then Inl staleKeySet
          else bindE cred (\<lambda>text.
            case (if connect then Verify else VerifyLive) pf mq text keys now of
              Inl e \<Rightarrow> Inl (RefusedError (if e = ErrForbidden then 403 else 401))
            | Inr c \<Rightarrow>
                let g = claimsAuth c
                in if Pauses (ClaimsKey c) ActionPublish \<and> paused g then Inl (RefusedError 403)
                   else Inr (g, KeyID (ClaimsKey c), publishesBroadcast (ClaimsGrant c))))"

record verifier =
  vStore :: keyStore
  vUsage :: "usageReporter option"

datatype event = EventConnect | EventRevalidate | EventEnd

record request =
  reqID :: string
  reqEvent :: event
  reqQuery :: string
  reqBytes :: Bytes

definition anonymousGrant :: authGrant where
  "anonymousGrant =
     \<lparr>agGrant = \<lparr>Root = [], Publish = [], Subscribe = [], MaxAge = 0, Create = [], Post = [], Redact = [], Subject = []\<rparr>,
      agRevalidate = revalidateEvery, agKeyID = [], agExpires = zeroTime, agAnonymous = True\<rparr>"

definition anonymousAuth :: "int \<Rightarrow> request \<Rightarrow> verifier \<Rightarrow> verifier" where
  "anonymousAuth now req v =
     (if reqEvent req = EventRevalidate then v \<lparr>vUsage := map_option (revalidated now (reqID req) (reqBytes req) True) (vUsage v)\<rparr>
      else v)"

definition isRefusal :: "authError + 'a \<Rightarrow> bool" where
  "isRefusal r \<longleftrightarrow> (case r of Inl (RefusedError _) \<Rightarrow> True | _ \<Rightarrow> False)"

definition Authorize :: "platform \<Rightarrow> moqt \<Rightarrow> int \<Rightarrow> request \<Rightarrow> verifier \<Rightarrow> (authError + authGrant) \<times> verifier" where
  "Authorize pf mq now req v =
     (let connect = (reqEvent req = EventConnect); cred = credentialOf (reqQuery req)
      in if cred = noCredential then (Inr anonymousGrant, anonymousAuth now req v)
         else let res = decide pf mq (vStore v) now
                    (case cred of credentialText t \<Rightarrow> Inr t | _ \<Rightarrow> Inl (RefusedError 401)) connect
                    (\<lambda>g. connect \<and> publishesBroadcast (agGrant g));
                  opened = (case res of
                       Inr (g, kid, pub) \<Rightarrow> if reqEvent req = EventConnect
                         then map_option (usageOpen now (reqID req) \<lparr>uKid = kid, uPublishes = pub, uSeen = zeroTime, uCounted = noBytes\<rparr>)
                         else (\<lambda>u. u)
                     | Inl _ \<Rightarrow> (\<lambda>u. u));
                  seen = (if reqEvent req = EventRevalidate
                     then map_option (revalidated now (reqID req) (reqBytes req) (\<not> isRefusal res)) else (\<lambda>u. u))
              in (bindE res (\<lambda>(g, _). Inr g), v \<lparr>vUsage := seen (opened (vUsage v))\<rparr>))"

definition Check :: "platform \<Rightarrow> moqt \<Rightarrow> int \<Rightarrow> string \<Rightarrow> Action \<Rightarrow> string \<Rightarrow> verifier \<Rightarrow> authError + authGrant" where
  "Check pf mq now text action path v =
     bindE (decide pf mq (vStore v) now (Inr text) True
       (\<lambda>g. (action = ActionCreate \<or> action = ActionPublish) \<and> Allows mq (agGrant g) action path)) (\<lambda>(g, _). Inr g)"

definition Ticket :: "platform \<Rightarrow> moqt \<Rightarrow> int \<Rightarrow> string \<Rightarrow> string \<Rightarrow> bool \<Rightarrow> verifier \<Rightarrow> authError + authGrant" where
  "Ticket pf mq now text keyID published v =
     bindE (decide pf mq (vStore v) now (Inr text) True (\<lambda>g. \<not> published \<and> publishesBroadcast (agGrant g))) (\<lambda>(g, _).
       if keyID = [] then Inl (RefusedError 403)
       else if agKeyID g \<noteq> keyID then Inl (RefusedError 403)
       else Inr g)"

definition FirstTicket :: "platform \<Rightarrow> moqt \<Rightarrow> int \<Rightarrow> string \<Rightarrow> verifier \<Rightarrow> authError + authGrant" where
  "FirstTicket pf mq now text v =
     bindE (decide pf mq (vStore v) now (Inr text) True (\<lambda>g. publishesBroadcast (agGrant g))) (\<lambda>(g, _). Inr g)"

definition Trusts :: "int \<Rightarrow> authGrant \<Rightarrow> verifier \<Rightarrow> authError + bool" where
  "Trusts now g v =
     (case fst (currentSet now (vStore v)) of
        None \<Rightarrow> Inl noKeySet
      | Some keys \<Rightarrow> (case keys (agKeyID g) of None \<Rightarrow> Inr False | Some key \<Rightarrow> Inr (Holds key (Root (agGrant g)))))"

definition Bind :: "int \<Rightarrow> string \<Rightarrow> string \<Rightarrow> bool \<Rightarrow> verifier \<Rightarrow> verifier" where
  "Bind now sid kid pub v =
     v \<lparr>vUsage := map_option (usageOpen now sid \<lparr>uKid = kid, uPublishes = pub, uSeen = zeroTime, uCounted = noBytes\<rparr>) (vUsage v)\<rparr>"

definition Publishing :: "int \<Rightarrow> string \<Rightarrow> verifier \<Rightarrow> verifier" where
  "Publishing now sid v = v \<lparr>vUsage := map_option (publishing now sid) (vUsage v)\<rparr>"

definition End :: "int \<Rightarrow> request \<Rightarrow> string \<Rightarrow> verifier \<Rightarrow> verifier" where
  "End now req reason v =
     v \<lparr>vUsage := map_option (\<lambda>u. snd (usageClose now (reqID req) (reqBytes req) reason u)) (vUsage v)\<rparr>"

section \<open>The loop over a key source\<close>

text \<open>
  \<open>runKeySource\<close> with the times of the refreshes and what each of them meets: the times of those that
  succeeded, the source and the store at the end. The interface \<^verbatim>\<open>keySource\<close> is the argument \<open>refresh\<close>.
\<close>

fun runKeySource :: "('i \<Rightarrow> int \<Rightarrow> 's \<Rightarrow> keyStore \<Rightarrow> bool \<times> 's \<times> keyStore) \<Rightarrow> ('i \<times> int) list \<Rightarrow> 's \<Rightarrow> keyStore \<Rightarrow>
    int list \<times> 's \<times> keyStore" where
  "runKeySource refresh [] s st = ([], s, st)"
| "runKeySource refresh ((i, now) # es) s st =
     (let (ok, s1, st1) = refresh i now s st; (ts, r) = runKeySource refresh es s1 st1
      in (if ok then now # ts else ts, r))"

lemma run_Cons:
  assumes "runKeySource refresh (e # es) s st = (ts, s', st')"
  shows "\<exists>ok s1 st1 ts1. refresh (fst e) (snd e) s st = (ok, s1, st1) \<and> runKeySource refresh es s1 st1 = (ts1, s', st')
    \<and> ts = (if ok then snd e # ts1 else ts1)"
  using assms by (cases e) (auto simp: Let_def split: prod.splits)

definition storeOk :: "platform \<Rightarrow> keyStore \<Rightarrow> bool" where
  "storeOk pf st \<longleftrightarrow> (\<forall>keys. storeSet st = Some keys \<longrightarrow> keySetOk pf keys)"

text \<open>
  What the verifier relies on of a source: a refresh that fails leaves the store as it is, one that
  succeeds confirms it or fills it with keys that are what they say.
\<close>

locale key_source =
  fixes pf :: platform and refresh :: "'i \<Rightarrow> int \<Rightarrow> 's \<Rightarrow> keyStore \<Rightarrow> bool \<times> 's \<times> keyStore"
  assumes refresh_cases: "refresh i now s st = (ok, s', st') \<Longrightarrow>
      (\<not> ok \<and> st' = st) \<or> (ok \<and> st' = confirm now st) \<or> (ok \<and> (\<exists>keys. keySetOk pf keys \<and> st' = replaceSet keys now st))"
begin

lemma refresh_ok: "refresh i now s st = (ok, s', st') \<Longrightarrow> storeOk pf st \<Longrightarrow> storeOk pf st'"
  using refresh_cases [of i now s st ok s' st'] by (auto simp: storeOk_def confirm_def replaceSet_def)

lemma refresh_age: "refresh i now s st = (ok, s', st') \<Longrightarrow> lastSuccess st' = (if ok then now else lastSuccess st)"
  using refresh_cases [of i now s st ok s' st'] by (auto simp: confirm_def replaceSet_def)

lemma run_ok: "runKeySource refresh es s st = (ts, s', st') \<Longrightarrow> storeOk pf st \<Longrightarrow> storeOk pf st'"
proof (induction es arbitrary: s st ts)
  case (Cons e es)
  from run_Cons [OF Cons.prems(1)] show ?case using Cons.IH Cons.prems(2) refresh_ok by blast
qed simp

lemma run_age: "runKeySource refresh es s st = (ts, s', st') \<Longrightarrow> lastSuccess st' = last (lastSuccess st # ts)"
proof (induction es arbitrary: s st ts)
  case (Cons e es)
  from run_Cons [OF Cons.prems] obtain ok s1 st1 ts1 where
    r: "refresh (fst e) (snd e) s st = (ok, s1, st1)" "runKeySource refresh es s1 st1 = (ts1, s', st')"
    "ts = (if ok then snd e # ts1 else ts1)" by blast
  show ?case using Cons.IH [OF r(2)] refresh_age [OF r(1)] r(3) by simp
qed simp

lemma run_static: "runKeySource refresh es s st = ([], s', st') \<Longrightarrow> st' = st"
proof (induction es arbitrary: s st)
  case (Cons e es)
  from run_Cons [OF Cons.prems] obtain s1 st1 where
    r: "refresh (fst e) (snd e) s st = (False, s1, st1)" "runKeySource refresh es s1 st1 = ([], s', st')"
    by (auto split: if_splits)
  show ?case using Cons.IH [OF r(2)] refresh_cases [OF r(1)] by simp
qed simp

end

lemma parseKeySet_ok: "parseKeySet pf raw = Inr keys \<Longrightarrow> keySetOk pf keys"
  using ParseKeySet_ok [of pf raw]
  by (auto simp: parseKeySet_def keySetOk_def mapErr_Inr_iff split: option.splits json.splits if_splits)

text \<open>Both sources of the relay.\<close>

abbreviation "fileSource pf i \<equiv> (case i of (stat, raw) \<Rightarrow> fileRefresh pf stat raw)"
abbreviation "urlSource pf i \<equiv> (case i of (resp, wrote, touched) \<Rightarrow> urlRefresh pf resp wrote touched)"

interpretation file_source: key_source pf "fileSource pf" for pf
  by unfold_locales
    (auto simp: fileRefresh_def currentSet_def split: prod.splits option.splits if_splits sum.splits dest: parseKeySet_ok)

interpretation url_source: key_source pf "urlSource pf" for pf
  by unfold_locales
    (auto simp: urlRefresh_def split: prod.splits response.splits option.splits if_splits sum.splits dest: parseKeySet_ok)

section \<open>Decisions under a key set\<close>

lemma decide_Inr:
  assumes "decide pf mq st now cred connect paused = Inr (g, kid, pub)"
  obtains keys tok c where "storeSet st = Some keys" "cred = Inr tok"
    "(if connect then Verify else VerifyLive) pf mq tok keys now = Inr c"
    "connect \<Longrightarrow> timeSub now (lastSuccess st) \<le> keysMaxStale" "g = claimsAuth c"
    "\<not> (Pauses (ClaimsKey c) ActionPublish \<and> paused g)"
proof -
  from assms obtain keys where k: "storeSet st = Some keys" by (cases "storeSet st") (auto simp: decide_def currentSet_def)
  with assms obtain tok where t: "cred = Inr tok" by (cases cred) (auto simp: decide_def currentSet_def split: if_splits)
  let ?v = "(if connect then Verify else VerifyLive) pf mq tok keys now"
  from assms k t obtain c where c: "?v = Inr c"
    by (cases ?v) (auto simp: decide_def currentSet_def simp del: if_split split: if_splits(2))
  from assms k t c have "connect \<Longrightarrow> timeSub now (lastSuccess st) \<le> keysMaxStale" "g = claimsAuth c"
    "\<not> (Pauses (ClaimsKey c) ActionPublish \<and> paused g)"
    by (simp_all add: decide_def currentSet_def Let_def split: if_splits(2))
  with k t c that show ?thesis by blast
qed

text \<open>The grant is confined to the tenant of its key.\<close>

definition tenantGrant :: "moqt \<Rightarrow> keyStore \<Rightarrow> authGrant \<Rightarrow> bool" where
  "tenantGrant mq st g \<longleftrightarrow>
     (\<exists>keys key. storeSet st = Some keys \<and> keys (agKeyID g) = Some key \<and> confined mq (segments (Prefix key)) (agGrant g))"

lemma decide_tenant:
  assumes "storeOk pf st" and "decide pf mq st now cred connect paused = Inr (g, kid, pub)"
  shows "tenantGrant mq st g"
  using assms(2)
proof (rule decide_Inr)
  fix keys tok c
  assume c: "storeSet st = Some keys" "(if connect then Verify else VerifyLive) pf mq tok keys now = Inr c"
    and g: "g = claimsAuth c"
  from c(2) obtain expiry where "verify pf mq tok keys now expiry = Inr c"
    by (auto simp: Verify_def VerifyLive_def split: if_splits)
  from verified_confined [OF _ this] assms(1) c(1) g show ?thesis by (auto simp: tenantGrant_def storeOk_def claimsAuth_def)
qed

lemma Authorize_credential:
  assumes "fst (Authorize pf mq now req v) = Inr g" and "\<not> agAnonymous g"
  obtains tok kid pub where "credentialOf (reqQuery req) = credentialText tok"
    "decide pf mq (vStore v) now (Inr tok) (reqEvent req = EventConnect)
       (\<lambda>g. reqEvent req = EventConnect \<and> publishesBroadcast (agGrant g)) = Inr (g, kid, pub)"
proof (cases "credentialOf (reqQuery req)")
  case noCredential
  with assms show ?thesis by (auto simp: Authorize_def anonymousGrant_def)
next
  case badQuery
  with assms(1) have "\<exists>r. decide pf mq (vStore v) now (Inl (RefusedError 401)) (reqEvent req = EventConnect)
      (\<lambda>g. reqEvent req = EventConnect \<and> publishesBroadcast (agGrant g)) = Inr r"
    by (auto simp: Authorize_def Let_def bindE_Inr_iff)
  then show ?thesis using decide_Inr by (metis Inl_Inr_False prod_cases3)
next
  case (credentialText tok)
  with assms(1) that show ?thesis by (auto simp: Authorize_def Let_def bindE_Inr_iff)
qed

lemma anonymous_nothing: "\<not> Allows mq (agGrant anonymousGrant) action path"
  by (simp add: Allows_def anonymousGrant_def Patterns_def split: sum.splits)

text \<open>A key that is paused starts nothing new that publishes, on any of the ways in.\<close>

lemma paused_key_refuses:
  assumes "storeSet (vStore v) = Some keys" and "timeSub now (lastSuccess (vStore v)) \<le> keysMaxStale"
    and "Verify pf mq tok keys now = Inr c" and "Pauses (ClaimsKey c) ActionPublish" and "Publish (ClaimsGrant c) \<noteq> []"
  shows "FirstTicket pf mq now tok v = Inl (RefusedError 403)"
    and "Ticket pf mq now tok kid False v = Inl (RefusedError 403)"
    and "credentialOf (reqQuery req) = credentialText tok \<Longrightarrow> reqEvent req = EventConnect \<Longrightarrow>
      fst (Authorize pf mq now req v) = Inl (RefusedError 403)"
  using assms
  by (simp_all add: FirstTicket_def Ticket_def Authorize_def decide_def currentSet_def publishesBroadcast_def claimsAuth_def Let_def)

section \<open>Tokens in a query\<close>

lemma queryUnescape_plain: "CHR ''%'' \<notin> set s \<Longrightarrow> CHR ''+'' \<notin> set s \<Longrightarrow> queryUnescape s = Some s"
  by (induction s) auto

text \<open>Text that needs no escape is the credential of the query \<open>jwt=\<close> followed by it.\<close>

lemma credentialOf_plain:
  assumes "\<And>c. c \<in> set tok \<Longrightarrow> c \<notin> set ''&;%+=''"
  shows "credentialOf (''jwt='' @ tok) = credentialText tok"
proof -
  have n: "CHR ''&'' \<notin> set tok" "CHR '';'' \<notin> set tok" "CHR ''%'' \<notin> set tok" "CHR ''+'' \<notin> set tok"
    using assms by auto
  then have "splitOn (CHR ''&'') (''jwt='' @ tok) = [''jwt='' @ tok]" by (intro splitOn_plain) simp
  moreover have "queryUnescape ''jwt'' = Some ''jwt''" "queryUnescape tok = Some tok" using n by (simp_all add: queryUnescape_plain)
  ultimately show ?thesis using n by (simp add: credentialOf_def ParseQuery_def cut_def)
qed

lemma signed_url_safe:
  assumes "signAt pf mq key g ttl now jti = Inr tok" and "c \<in> set tok"
  shows "c \<notin> set ''&;%+=''"
proof -
  from assms(1) obtain x y g' where "checked mq g (SigningPrefix key) = Inr g'" "jsonMarshal pf (headerJson key) = Some x"
    "jsonMarshal pf (claimsJson (signedClaims g' ttl now jti)) = Some y"
    "tok = (EncodeToString x @ ''.'' @ EncodeToString y) @ ''.''
      @ EncodeToString (ed25519_Sign pf (Private key) (EncodeToString x @ ''.'' @ EncodeToString y))"
    by (auto simp: signAt_def bindE_Inr_iff Let_def split: if_splits option.splits)
  with assms(2) have "c = CHR ''.'' \<or> (\<exists>s. c \<in> set (EncodeToString s))" by auto
  then show ?thesis using EncodeToString_url_safe by auto
qed

text \<open>A relay with the sample key set, confirmed at the epoch.\<close>

definition sampleVerifier :: verifier where
  "sampleVerifier = \<lparr>vStore = \<lparr>storeSet = Some [SigningID sampleKey \<mapsto> publicKey sampleKey], lastSuccess = 0\<rparr>, vUsage = None\<rparr>"

definition sampleConnect :: request where
  "sampleConnect = \<lparr>reqID = ''s'', reqEvent = EventConnect, reqQuery = ''jwt='' @ sampleToken, reqBytes = noBytes\<rparr>"

definition sampleAuth :: authGrant where
  "sampleAuth = \<lparr>agGrant = sampleGrant, agRevalidate = revalidateEvery, agKeyID = SigningID sampleKey,
     agExpires = MaxLifetime, agAnonymous = False\<rparr>"

lemma sample_credential: "credentialOf (''jwt='' @ sampleToken) = credentialText sampleToken"
  by (rule credentialOf_plain) (rule signed_url_safe [OF sample_token])

lemma sample_storeOk: "storeOk samplePlatform (vStore sampleVerifier)"
  using ParseKeySet_ok [OF sample_keys] by (simp add: sampleVerifier_def storeOk_def)

lemma sample_fresh: "timeSub (5 * second) 0 \<le> keysMaxStale"
  by (simp add: timeSub_def keysMaxStale_def second_def)

lemma sample_unpaused: "\<not> Pauses (publicKey sampleKey) ActionPublish"
  by (simp add: sample_public Pauses_def)

lemma sample_authorized: "fst (Authorize samplePlatform sampleMoqt (5 * second) sampleConnect sampleVerifier) = Inr sampleAuth"
  using sample_fresh sample_verified sample_unpaused sample_id
  by (simp add: Authorize_def sampleConnect_def sample_credential [simplified] decide_def currentSet_def sampleVerifier_def Let_def
      claimsAuth_def sampleAuth_def)

section \<open>Properties of the verifier\<close>

text \<open>
  C12: Whatever the verifier grants lies within one tenant. A grant for a connection, a ticket or a single
  request names a key of the current set, and every broadcast it allows, for any action, lies beneath the
  prefix of that key (or beneath it in \<open>.hls\<close>); a session without a credential is allowed nothing. A
  later ticket of a session is always of the session's own key.
\<close>

theorem verifier_grants_confined:
  assumes ok: "storeOk pf (vStore v)" and mq: "patternsRelative mq"
    and got: "Ticket pf mq now tok kid published v = Inr g \<or> FirstTicket pf mq now tok v = Inr g
      \<or> Check pf mq now tok act p v = Inr g \<or> fst (Authorize pf mq now req v) = Inr g"
  shows "(if agAnonymous g then \<forall>action path. \<not> Allows mq (agGrant g) action path
      else \<exists>keys key. storeSet (vStore v) = Some keys \<and> keys (agKeyID g) = Some key
        \<and> (\<forall>action path. Allows mq (agGrant g) action path \<longrightarrow> list_all plainSeg (segments path)
            \<and> (prefix (segments (Prefix key)) (segments path) \<or> prefix (''.hls'' # segments (Prefix key)) (segments path))))
    \<and> (Ticket pf mq now tok kid published v = Inr g \<longrightarrow> agKeyID g = kid)"
proof
  show "Ticket pf mq now tok kid published v = Inr g \<longrightarrow> agKeyID g = kid"
    by (auto simp: Ticket_def bindE_Inr_iff split: if_splits)
  have anon: "agAnonymous g \<Longrightarrow> g = anonymousGrant" and dec: "\<not> agAnonymous g \<Longrightarrow>
      \<exists>cred connect paused kid pub. decide pf mq (vStore v) now cred connect paused = Inr (g, kid, pub)"
  proof -
    show "g = anonymousGrant" if "agAnonymous g"
    proof -
      have "\<not> agAnonymous g'" if "decide pf mq (vStore v) now cred connect paused = Inr (g', k, pub)" for g' k pub cred connect paused
        using that by (rule decide_Inr) (simp add: claimsAuth_def)
      then show ?thesis using that got
        by (fastforce simp: Ticket_def FirstTicket_def Check_def Authorize_def Let_def bindE_Inr_iff split: if_splits)
    qed
    show "\<exists>cred connect paused kid pub. decide pf mq (vStore v) now cred connect paused = Inr (g, kid, pub)" if "\<not> agAnonymous g"
      using got Authorize_credential [OF _ that]
      by (fastforce simp: Ticket_def FirstTicket_def Check_def bindE_Inr_iff split: if_splits)
  qed
  show "if agAnonymous g then \<forall>action path. \<not> Allows mq (agGrant g) action path
      else \<exists>keys key. storeSet (vStore v) = Some keys \<and> keys (agKeyID g) = Some key
        \<and> (\<forall>action path. Allows mq (agGrant g) action path \<longrightarrow> list_all plainSeg (segments path)
            \<and> (prefix (segments (Prefix key)) (segments path) \<or> prefix (''.hls'' # segments (Prefix key)) (segments path)))"
  proof (cases "agAnonymous g")
    case False
    with dec obtain cred connect paused kid pub where
      "decide pf mq (vStore v) now cred connect paused = Inr (g, kid, pub)" by blast
    from decide_tenant [OF ok this] obtain keys key where k: "storeSet (vStore v) = Some keys" "keys (agKeyID g) = Some key"
      "confined mq (segments (Prefix key)) (agGrant g)" by (auto simp: tenantGrant_def)
    with Allows_confined [OF k(3) mq] False show ?thesis by auto
  qed (use anon anonymous_nothing in simp)
qed

theorem verifier_grants_confined_witness:
  "\<not> Allows sampleMoqt (agGrant sampleAuth) ActionPublish ''/other/cam''"
proof
  assume "Allows sampleMoqt (agGrant sampleAuth) ActionPublish ''/other/cam''"
  moreover have "segments (Prefix (publicKey sampleKey)) = [''acme'']" by (simp add: sample_public segments_def)
  ultimately have "prefix [''acme''] (segments ''/other/cam'') \<or> prefix [''.hls'', ''acme''] (segments ''/other/cam'')"
    using verifier_grants_confined [OF sample_storeOk sample_platform(3) disjI2 [OF disjI2 [OF disjI2 [OF sample_authorized]]]]
    by (auto simp: sampleAuth_def sampleVerifier_def)
  then show False by (simp add: segments_def)
qed

text \<open>
  C34: A session outlives its credential's expiry and ends with its key. Once it was admitted at connect, a revalidate
  at any later time, however old the key set has become and whatever the key pauses by then, is refused
  with 401 when the current set does not have the key of the session, and otherwise returns the
  same grant, as long as the key still has its public key and prefix.
\<close>

theorem session_recheck:
  assumes con: "fst (Authorize pf mq now req v) = Inr g" "reqEvent req = EventConnect" "\<not> agAnonymous g"
    and ok: "storeOk pf (vStore v)"
    and time: "0 \<le> now" "now \<le> now'" "now' + Leeway < 2 ^ 62 * second"
    and later: "storeSet (vStore v') = Some keys'"
    and again: "again = fst (Authorize pf mq now' (req \<lparr>reqEvent := EventRevalidate, reqBytes := b\<rparr>) v')"
  shows "\<exists>keys key. storeSet (vStore v) = Some keys \<and> keys (agKeyID g) = Some key
    \<and> (keys' (agKeyID g) = None \<longrightarrow> again = Inl (RefusedError 401))
    \<and> (\<forall>key'. keys' (agKeyID g) = Some key' \<and> Public key' = Public key \<and> Prefix key' = Prefix key
          \<and> KeyID key' = KeyID key \<longrightarrow> again = Inr g)"
proof -
  obtain tok kid pub where cred: "credentialOf (reqQuery req) = credentialText tok"
    and d: "decide pf mq (vStore v) now (Inr tok) True (\<lambda>g. publishesBroadcast (agGrant g)) = Inr (g, kid, pub)"
    using Authorize_credential [OF con(1,3)] con(2) by auto
  obtain keys c where k: "storeSet (vStore v) = Some keys" "Verify pf mq tok keys now = Inr c" "g = claimsAuth c"
    using decide_Inr [OF d] by (metis sum.inject(2))
  have set: "keySetOk pf keys" using ok k(1) by (simp add: storeOk_def)
  then have "keys (agKeyID g) = Some (ClaimsKey c)"
    using verified_confined(1) [OF set k(2) [unfolded Verify_def]] k(3) by (simp add: claimsAuth_def)
  moreover note live = verify_live [OF k(2) set time, of keys']
  have "again = Inl (RefusedError 401)" if "keys' (agKeyID g) = None"
    using that live k(3) later cred
    by (simp add: again Authorize_def decide_def currentSet_def Let_def claimsAuth_def)
  moreover have "again = Inr g" if "keys' (agKeyID g) = Some key'" "Public key' = Public (ClaimsKey c)"
    "Prefix key' = Prefix (ClaimsKey c)" "KeyID key' = KeyID (ClaimsKey c)" for key'
    using that live k(3) later cred
    by (simp add: again Authorize_def decide_def currentSet_def Let_def claimsAuth_def)
  ultimately show ?thesis using k(1) by (intro exI [of _ keys], intro exI [of _ "ClaimsKey c"]) auto
qed

theorem session_recheck_witness:
  "fst (Authorize samplePlatform sampleMoqt (90000 * second)
       (sampleConnect \<lparr>reqEvent := EventRevalidate, reqBytes := noBytes\<rparr>) sampleVerifier) = Inr sampleAuth
   \<and> fst (Authorize samplePlatform sampleMoqt (90000 * second) (sampleConnect \<lparr>reqEvent := EventRevalidate, reqBytes := noBytes\<rparr>)
       (sampleVerifier \<lparr>vStore := \<lparr>storeSet = Some Map.empty, lastSuccess = 0\<rparr>\<rparr>)) = Inl (RefusedError 401)"
proof -
  have con: "reqEvent sampleConnect = EventConnect" "\<not> agAnonymous sampleAuth" "agKeyID sampleAuth = SigningID sampleKey"
    by (simp_all add: sampleConnect_def sampleAuth_def)
  have time: "0 \<le> 5 * second" "5 * second \<le> 90000 * second" "90000 * second + Leeway < 2 ^ 62 * second"
    by (simp_all add: second_def Leeway_def)
  note recheck = session_recheck [OF sample_authorized con(1,2) sample_storeOk time]
  show ?thesis
    using recheck [OF _ refl, of sampleVerifier "[SigningID sampleKey \<mapsto> publicKey sampleKey]"]
      recheck [OF _ refl, of "sampleVerifier \<lparr>vStore := \<lparr>storeSet = Some Map.empty, lastSuccess = 0\<rparr>\<rparr>" Map.empty] con(3)
    by (auto simp: sampleVerifier_def)
qed





end
