(* ===== verification/Quic_Varint.thy ===== *)
theory Quic_Varint
  imports Prelude
begin

text \<open>
  The QUIC variable-length integers (RFC 9000, section 16) that frame media. The program has three
  copies of the code: \<^verbatim>\<open>src/internal/ingest/media_frame.go\<close> writes them into a slice,
  \<^verbatim>\<open>src/internal/cmaf/loc.go\<close> and \<^verbatim>\<open>src/internal/hls/frame.go\<close> append and read them. The locale \<open>varint_codec\<close> is
  what the frame formats rely on.
\<close>

section \<open>The writers\<close>

definition quicVarintLen :: "u64 \<Rightarrow> nat" where
  "quicVarintLen v = (if v \<le> 63 then 1 else if v \<le> 16383 then 2 else if v \<le> 1073741823 then 4 else 8)"

text \<open>
  \<open>putQuicVarint dst v\<close> overwrites the front of \<open>dst\<close> and returns it with the number of bytes written;
  \<open>None\<close> is the panic on a slice that is too short.
\<close>

definition overwrite :: "bytes \<Rightarrow> bytes \<Rightarrow> (bytes \<times> nat) option" where
  "overwrite dst b = (if length dst < length b then None else Some (b @ drop (length b) dst, length b))"

definition putQuicVarint :: "bytes \<Rightarrow> u64 \<Rightarrow> (bytes \<times> nat) option" where
  "putQuicVarint dst v =
     (if v \<le> 63 then overwrite dst [ucast v]
      else if v \<le> 16383 then overwrite dst (PutUint16 (ucast v OR 0x4000))
      else if v \<le> 1073741823 then overwrite dst (PutUint32 (ucast v OR 0x80000000))
      else overwrite dst (PutUint64 (v OR 0xC000000000000000)))"

definition loc_appendVarint :: "bytes \<Rightarrow> u64 \<Rightarrow> bytes" where
  "loc_appendVarint b v =
     (if v < 2 ^ 6 then b @ [ucast v]
      else if v < 2 ^ 14 then b @ [ucast (drop_bit 8 v) OR 0x40, ucast v]
      else if v < 2 ^ 30 then b @ [ucast (drop_bit 24 v) OR 0x80, ucast (drop_bit 16 v), ucast (drop_bit 8 v), ucast v]
      else b @ [ucast (drop_bit 56 v) OR 0xc0, ucast (drop_bit 48 v), ucast (drop_bit 40 v), ucast (drop_bit 32 v),
                ucast (drop_bit 24 v), ucast (drop_bit 16 v), ucast (drop_bit 8 v), ucast v])"

definition hls_appendVarint :: "bytes \<Rightarrow> u64 \<Rightarrow> bytes" where
  "hls_appendVarint b v =
     (if v < 2 ^ 6 then b @ [ucast v]
      else if v < 2 ^ 14 then b @ [0x40 OR ucast (drop_bit 8 v), ucast v]
      else if v < 2 ^ 30 then b @ [0x80 OR ucast (drop_bit 24 v), ucast (drop_bit 16 v), ucast (drop_bit 8 v), ucast v]
      else b @ [0xc0 OR ucast (drop_bit 56 v), ucast (drop_bit 48 v), ucast (drop_bit 40 v), ucast (drop_bit 32 v),
                ucast (drop_bit 24 v), ucast (drop_bit 16 v), ucast (drop_bit 8 v), ucast v])"

section \<open>The readers\<close>

text \<open>\<open>varint\<close> returns the value and its size, or the error of an input that is too short.\<close>

datatype varintError = NoBytes | NeedBytes nat nat

definition varint :: "bytes \<Rightarrow> varintError + u64 \<times> nat" where
  "varint b =
     (if b = [] then Inl NoBytes
      else let size = 2 ^ unat (drop_bit 6 (b ! 0)) in
        if length b < size then Inl (NeedBytes size (length b))
        else if size = 1 then Inr (ucast (b ! 0 AND 0x3f), 1)
        else if size = 2 then Inr (ucast (Uint16 (take 2 b) AND 0x3fff), 2)
        else if size = 4 then Inr (ucast (Uint32 (take 4 b) AND 0x3fffffff), 4)
        else Inr (Uint64 (take 8 b) AND 0x3fffffffffffffff, 8))"

text \<open>\<open>readVarint\<close> of the HLS egress returns \<open>n = 0\<close> for an input that is too short.\<close>

definition readVarint :: "bytes \<Rightarrow> u64 \<times> nat" where
  "readVarint b =
     (if b = [] then (0, 0)
      else let n = 2 ^ unat (drop_bit 6 (b ! 0)) in
        if length b < n then (0, 0)
        else (fold (\<lambda>c v. push_bit 8 v OR ucast c) (drop 1 (take n b)) (ucast (b ! 0 AND 0x3f)), n))"

section \<open>What a frame format relies on\<close>

text \<open>
  The three writers write the same bytes. The largest value is \<open>2 ^ 62 - 1\<close>; the top two bits of a larger
  one are lost.
\<close>

definition varintBytes :: "u64 \<Rightarrow> bytes" where
  "varintBytes v = loc_appendVarint [] v"

locale varint_codec =
  fixes put :: "u64 \<Rightarrow> bytes" and get :: "bytes \<Rightarrow> (u64 \<times> nat) option"
  assumes get_put: "get (put v @ r) = Some (take_bit 62 v, length (put v))"
    and put_length: "length (put v) = quicVarintLen v"
    and get_bounds: "get b = Some (v, n) \<Longrightarrow> 0 < n \<and> n \<le> length b \<and> v < 2 ^ 62"
begin

text \<open>A field and a payload with its length, as both frame formats have them.\<close>

definition putField :: "u64 \<Rightarrow> bytes \<Rightarrow> bytes" where
  "putField v body = put v @ put (of_nat (length body)) @ body"

definition getField :: "bytes \<Rightarrow> (u64 \<times> bytes \<times> bytes) option" where
  "getField b =
     (case get b of None \<Rightarrow> None | Some (v, n) \<Rightarrow>
       (case get (drop n b) of None \<Rightarrow> None | Some (len, m) \<Rightarrow>
         (let rest = drop m (drop n b) in
          if unat len > length rest then None else Some (v, take (unat len) rest, drop (unat len) rest))))"

lemma unat_length: "length body < 2 ^ 62 \<Longrightarrow> unat (take_bit 62 (of_nat (length body) :: u64)) = length body"
  by (simp add: unsigned_take_bit_eq unsigned_of_nat take_bit_nat_eq_self)

lemma getField_put:
  assumes "length body < 2 ^ 62"
  shows "getField (putField v body @ r) = Some (take_bit 62 v, body, r)"
  using unat_length [OF assms] get_put [of v "put (of_nat (length body)) @ body @ r"]
    get_put [of "of_nat (length body)" "body @ r"]
  by (simp add: getField_def putField_def)

lemma getField_shorter:
  assumes "getField b = Some (v, body, r)"
  shows "length r + length body < length b \<and> v < 2 ^ 62"
proof -
  from assms obtain n len m where g: "get b = Some (v, n)" and g': "get (drop n b) = Some (len, m)"
    and "\<not> unat len > length (drop m (drop n b))"
    and "body = take (unat len) (drop m (drop n b))" "r = drop (unat len) (drop m (drop n b))"
    by (auto simp: getField_def Let_def split: option.splits if_splits)
  with get_bounds [OF g] get_bounds [OF g'] show ?thesis by auto
qed

end

lemmas varint_defs = quicVarintLen_def putQuicVarint_def loc_appendVarint_def hls_appendVarint_def

text \<open>A value below \<open>2 ^ k\<close> has no bit from \<open>k\<close> on.\<close>

lemma bit_below:
  fixes v :: u64
  assumes "v < 2 ^ k" and "k < 64" and "bit v n"
  shows "n < k"
proof -
  have "unat (of_nat (2 ^ k) :: u64) = 2 ^ k"
    using assms(2) by (simp only: unsigned_of_nat take_bit_nat_eq_self_iff) simp
  then have "unat ((2 :: u64) ^ k) = 2 ^ k" by (simp only: of_nat_power of_nat_numeral)
  with assms(1) have "unat v < 2 ^ k" by (simp add: word_less_nat_alt)
  then have "take_bit k v = v" by (simp add: word_unat_eq_iff unsigned_take_bit_eq take_bit_nat_eq_self)
  with assms(3) have "bit (take_bit k v) n" by simp
  then show ?thesis by (simp add: bit_simps)
qed

lemma masks:
  "(x :: byte) AND 0x3f = take_bit 6 x" "(y :: u16) AND 0x3fff = take_bit 14 y"
  "(z :: u32) AND 0x3fffffff = take_bit 30 z" "(w :: u64) AND 0x3fffffffffffffff = take_bit 62 w"
  by (simp_all add: take_bit_eq_mask mask_eq_exp_minus_1)

text \<open>The bits of the length tags.\<close>

lemma tag_bits:
  "bit (0x40 :: int) n \<longleftrightarrow> n = 6" "bit (0x80 :: int) n \<longleftrightarrow> n = 7" "bit (0x4000 :: int) n \<longleftrightarrow> n = 14"
  "bit (0x80000000 :: int) n \<longleftrightarrow> n = 31" "bit (0x8000 :: int) n \<longleftrightarrow> n = 15" "bit (0x800000 :: int) n \<longleftrightarrow> n = 23"
  "bit (0xC0000000 :: int) n \<longleftrightarrow> n = 30 \<or> n = 31" "bit (0xc0 :: int) n \<longleftrightarrow> n = 6 \<or> n = 7"
  "bit (0xC000000000000000 :: int) n \<longleftrightarrow> n = 62 \<or> n = 63"
proof -
  have e: "bit ((2 :: int) ^ k) n \<longleftrightarrow> n = k" for k by (auto simp only: bit_exp_iff possible_bit_int)
  show "bit (0x40 :: int) n \<longleftrightarrow> n = 6" "bit (0x80 :: int) n \<longleftrightarrow> n = 7" "bit (0x4000 :: int) n \<longleftrightarrow> n = 14"
    "bit (0x80000000 :: int) n \<longleftrightarrow> n = 31" "bit (0x8000 :: int) n \<longleftrightarrow> n = 15" "bit (0x800000 :: int) n \<longleftrightarrow> n = 23"
    using e [of 6] e [of 7] e [of 14] e [of 31] e [of 15] e [of 23] by simp_all
  have "bit ((2 :: int) ^ k OR 2 ^ (Suc k)) n \<longleftrightarrow> n = k \<or> n = Suc k" for k
    by (simp only: bit_or_iff e)
  from this [of 6] this [of 30] this [of 62] show "bit (0xC0000000 :: int) n \<longleftrightarrow> n = 30 \<or> n = 31" "bit (0xc0 :: int) n \<longleftrightarrow> n = 6 \<or> n = 7"
    "bit (0xC000000000000000 :: int) n \<longleftrightarrow> n = 62 \<or> n = 63" by simp_all
qed

text \<open>The bytes of a varint, one width at a time.\<close>

lemma varint_1:
  fixes v :: u64
  assumes "v < 2 ^ 6"
  shows "drop_bit 6 (ucast v :: byte) = 0" "ucast (take_bit 6 (ucast v :: byte)) = v"
proof -
  note v = bit_below [OF assms, simplified]
  show "drop_bit 6 (ucast v :: byte) = 0" by (rule bit_word_eqI) (auto simp: bit_simps dest: v)
  show "ucast (take_bit 6 (ucast v :: byte)) = v" by (rule bit_word_eqI) (auto simp: bit_simps dest: v)
qed

lemma varint_2:
  fixes v :: u64
  assumes "v < 2 ^ 14"
  shows "PutUint16 (ucast v OR 0x4000) = [ucast (drop_bit 8 v) OR 0x40, ucast v]"
    and "drop_bit 6 (ucast (drop_bit 8 v) OR 0x40 :: byte) = 1"
    and "ucast (take_bit 14 (ucast v OR 0x4000 :: u16)) = v"
proof -
  note v = bit_below [OF assms, simplified]
  show "PutUint16 (ucast v OR 0x4000) = [ucast (drop_bit 8 v) OR 0x40, ucast v]"
    by (auto intro!: bit_word_eqI simp: bit_simps PutUint16_def tag_bits)
  show "drop_bit 6 (ucast (drop_bit 8 v) OR 0x40 :: byte) = 1"
    by (rule bit_word_eqI) (auto simp: bit_simps tag_bits dest: v)
  show "ucast (take_bit 14 (ucast v OR 0x4000 :: u16)) = v"
    by (rule bit_word_eqI) (auto simp: bit_simps tag_bits dest: v)
qed

lemma varint_4:
  fixes v :: u64
  assumes "v < 2 ^ 30"
  shows "PutUint32 (ucast v OR 0x80000000)
      = [ucast (drop_bit 24 v) OR 0x80, ucast (drop_bit 16 v), ucast (drop_bit 8 v), ucast v]"
    and "drop_bit 6 (ucast (drop_bit 24 v) OR 0x80 :: byte) = 2"
    and "ucast (take_bit 30 (ucast v OR 0x80000000 :: u32)) = v"
proof -
  note v = bit_below [OF assms, simplified]
  show "PutUint32 (ucast v OR 0x80000000)
      = [ucast (drop_bit 24 v) OR 0x80, ucast (drop_bit 16 v), ucast (drop_bit 8 v), ucast v]"
    by (auto intro!: bit_word_eqI simp: bit_simps PutUint32_def tag_bits)
  have two: "bit (2 :: int) n \<longleftrightarrow> n = 1" for n using bit_exp_iff [of 1 n, where ?'a = int] by auto
  show "drop_bit 6 (ucast (drop_bit 24 v) OR 0x80 :: byte) = 2"
    by (rule bit_word_eqI) (auto simp: bit_simps tag_bits two dest: v)
  show "ucast (take_bit 30 (ucast v OR 0x80000000 :: u32)) = v"
    by (rule bit_word_eqI) (auto simp: bit_simps tag_bits dest: v)
qed

lemma varint_8:
  fixes v :: u64
  shows "PutUint64 (v OR 0xC000000000000000)
      = [ucast (drop_bit 56 v) OR 0xc0, ucast (drop_bit 48 v), ucast (drop_bit 40 v), ucast (drop_bit 32 v),
         ucast (drop_bit 24 v), ucast (drop_bit 16 v), ucast (drop_bit 8 v), ucast v]"
    and "drop_bit 6 (ucast (drop_bit 56 v) OR 0xc0 :: byte) = 3"
    and "take_bit 62 (v OR 0xC000000000000000) = take_bit 62 v"
proof -
  show "PutUint64 (v OR 0xC000000000000000)
      = [ucast (drop_bit 56 v) OR 0xc0, ucast (drop_bit 48 v), ucast (drop_bit 40 v), ucast (drop_bit 32 v),
         ucast (drop_bit 24 v), ucast (drop_bit 16 v), ucast (drop_bit 8 v), ucast v]"
    by (auto intro!: bit_word_eqI simp: bit_simps PutUint64_def PutUint32_def tag_bits)
  have three: "bit (3 :: int) n \<longleftrightarrow> n = 0 \<or> n = 1" for n
    using bit_or_iff [of "2 :: int" 1 n] bit_exp_iff [of 1 n, where ?'a = int] by (auto simp: bit_1_iff)
  show "drop_bit 6 (ucast (drop_bit 56 v) OR 0xc0 :: byte) = 3"
    by (rule bit_word_eqI) (auto simp: bit_simps tag_bits three)
  show "take_bit 62 (v OR 0xC000000000000000) = take_bit 62 v"
    by (rule bit_word_eqI) (auto simp: bit_simps tag_bits)
qed

text \<open>The copies agree.\<close>

lemma limits: "(v \<le> (63 :: u64)) \<longleftrightarrow> v < 2 ^ 6" "(v \<le> (16383 :: u64)) \<longleftrightarrow> v < 2 ^ 14"
  "(v \<le> (1073741823 :: u64)) \<longleftrightarrow> v < 2 ^ 30"
  by (simp_all add: word_le_nat_alt word_less_nat_alt less_Suc_eq_le [symmetric])

lemma appendVarint_bytes:
  "loc_appendVarint b v = b @ varintBytes v" "hls_appendVarint b v = b @ varintBytes v"
  by (simp_all add: varintBytes_def loc_appendVarint_def hls_appendVarint_def or.commute)

lemma putQuicVarint_bytes: "putQuicVarint dst v = overwrite dst (varintBytes v)"
proof -
  consider "v < 2 ^ 6" | "\<not> v < 2 ^ 6" "v < 2 ^ 14" | "\<not> v < 2 ^ 6" "\<not> v < 2 ^ 14" "v < 2 ^ 30"
    | "\<not> v < 2 ^ 6" "\<not> v < 2 ^ 14" "\<not> v < 2 ^ 30" by blast
  then show ?thesis
    by cases (simp_all only: putQuicVarint_def varintBytes_def loc_appendVarint_def limits varint_2(1) varint_4(1)
        varint_8(1) if_True if_False append_Nil)
qed

lemma varintBytes_length: "length (varintBytes v) = quicVarintLen v"
  by (simp add: varintBytes_def loc_appendVarint_def quicVarintLen_def limits)

text \<open>What was written is read back.\<close>

lemma small_take_bit: "v < 2 ^ k \<Longrightarrow> k < 62 \<Longrightarrow> take_bit 62 (v :: u64) = v"
  by (rule bit_word_eqI) (auto simp: bit_simps dest: bit_below)

lemma varint_varintBytes: "varint (varintBytes v @ r) = Inr (take_bit 62 v, quicVarintLen v)"
proof -
  consider "v < 2 ^ 6" | "\<not> v < 2 ^ 6" "v < 2 ^ 14" | "\<not> v < 2 ^ 6" "\<not> v < 2 ^ 14" "v < 2 ^ 30"
    | "\<not> v < 2 ^ 6" "\<not> v < 2 ^ 14" "\<not> v < 2 ^ 30" by blast
  then show ?thesis
  proof cases
    case 1
    then have "varintBytes v = [ucast v]" by (simp add: varintBytes_def loc_appendVarint_def)
    with 1 varint_1 [OF 1] small_take_bit [OF 1] show ?thesis
      by (simp add: varint_def quicVarintLen_def limits masks)
  next
    case 2
    then have "varintBytes v = [ucast (drop_bit 8 v) OR 0x40, ucast v]"
      by (simp add: varintBytes_def loc_appendVarint_def)
    with 2 varint_2 [OF 2(2)] Uint16_Put [of "ucast v OR 0x4000"] small_take_bit [OF 2(2)] show ?thesis
      by (simp add: varint_def quicVarintLen_def limits masks)
  next
    case 3
    then have "varintBytes v = [ucast (drop_bit 24 v) OR 0x80, ucast (drop_bit 16 v), ucast (drop_bit 8 v), ucast v]"
      by (simp add: varintBytes_def loc_appendVarint_def)
    with 3 varint_4 [OF 3(3)] Uint32_Put [of "ucast v OR 0x80000000"] small_take_bit [OF 3(3)] show ?thesis
      by (simp add: varint_def quicVarintLen_def limits masks)
  next
    case 4
    then have "varintBytes v = [ucast (drop_bit 56 v) OR 0xc0, ucast (drop_bit 48 v), ucast (drop_bit 40 v),
        ucast (drop_bit 32 v), ucast (drop_bit 24 v), ucast (drop_bit 16 v), ucast (drop_bit 8 v), ucast v]"
      by (simp add: varintBytes_def loc_appendVarint_def)
    with 4 varint_8 [of v] Uint64_Put [of "v OR 0xC000000000000000"] show ?thesis
      by (simp add: varint_def quicVarintLen_def limits masks)
  qed
qed

lemma unat_tag: "unat (drop_bit 6 (x :: byte)) < 4"
proof -
  have "unat x < 2 ^ LENGTH(8)" by (rule unsigned_less)
  then have "take_bit LENGTH(8) (unat x) div 2 ^ 6 < 4" by (simp add: take_bit_eq_mod)
  then show ?thesis by (simp only: unsigned_drop_bit_eq) (simp only: drop_bit_eq_div)
qed

text \<open>Reading byte by byte gives the same value.\<close>

lemma byte_bit: "bit (b :: byte) n \<Longrightarrow> n < 8"
  using bit_imp_le_length [of b n] by simp

lemma ucast_shifted: "k \<le> 24 \<Longrightarrow> (ucast (push_bit k (ucast (b :: byte) :: u32)) :: u64) = push_bit k (ucast b)"
  by (rule bit_word_eqI) (auto simp: bit_simps, (drule byte_bit, arith)+)

lemma ucast_Uint32: "(ucast (Uint32 [a, b, c, d]) :: u64)
    = push_bit 24 (ucast a) OR push_bit 16 (ucast b) OR push_bit 8 (ucast c) OR ucast d"
  using ucast_shifted [of 0 d] by (simp add: Uint32_def unsigned_or_eq ucast_shifted ac_simps)

lemma take_bit_shifted: "k + 8 \<le> m \<Longrightarrow> take_bit m (push_bit k (ucast (b :: byte)) :: u64) = push_bit k (ucast b)"
  by (rule bit_word_eqI) (auto simp: bit_simps, (drule byte_bit, arith)+)

lemma take_bit_first: "take_bit (k + 6) (push_bit k (ucast (b :: byte)) :: u64) = push_bit k (ucast (take_bit 6 b))"
  by (rule bit_word_eqI) (auto simp: bit_simps)

lemma fold_4: "push_bit 24 (ucast (take_bit 6 x)) OR push_bit 16 (ucast y) OR push_bit 8 (ucast z) OR ucast w
    = (ucast (take_bit 30 (Uint32 [x, y, z, w])) :: u64)"
  using take_bit_first [of 24 x] take_bit_shifted [of 0 30 w]
  by (simp add: unsigned_take_bit_eq ucast_Uint32 take_bit_shifted)

lemma fold_8: "push_bit 56 (ucast (take_bit 6 x)) OR push_bit 48 (ucast y) OR push_bit 40 (ucast z) OR push_bit 32 (ucast w)
      OR push_bit 24 (ucast x') OR push_bit 16 (ucast y') OR push_bit 8 (ucast z') OR ucast w'
    = (take_bit 62 (Uint64 [x, y, z, w, x', y', z', w']) :: u64)"
  using take_bit_first [of 56 x] take_bit_shifted [of 0 62 w']
  by (simp add: Uint64_def ucast_Uint32 take_bit_shifted ac_simps)

lemma readVarint_varint: "readVarint b = (case varint b of Inl _ \<Rightarrow> (0, 0) | Inr x \<Rightarrow> x)"
proof (cases "b = [] \<or> length b < 2 ^ unat (drop_bit 6 (b ! 0))")
  case True
  then show ?thesis by (auto simp: readVarint_def varint_def Let_def)
next
  case False
  let ?k = "unat (drop_bit 6 (b ! 0))"
  from unat_tag [of "b ! 0"] consider "?k = 0" | "?k = 1" | "?k = 2" | "?k = 3" by linarith
  then show ?thesis
  proof cases
    case 1
    with False show ?thesis by (simp add: readVarint_def varint_def)
  next
    case 2
    with False obtain x y r where b: "b = x # y # r" by (cases b; cases "tl b") auto
    have "push_bit 8 (ucast (take_bit 6 x)) OR ucast y = (ucast (take_bit 14 (Uint16 [x, y])) :: u64)"
      by (rule bit_word_eqI) (auto simp: bit_simps Uint16_def dest: byte_bit)
    with 2 False show ?thesis by (simp add: readVarint_def varint_def b masks)
  next
    case 3
    with False have "4 \<le> length b" by simp
    then obtain x y z w r where "b = x # y # z # w # r"
      by (auto simp: neq_Nil_conv Suc_le_length_iff eval_nat_numeral)
    with 3 False show ?thesis by (simp add: readVarint_def varint_def masks or.assoc fold_4)
  next
    case 4
    with False have "8 \<le> length b" by simp
    then obtain x y z w x' y' z' w' r where "b = x # y # z # w # x' # y' # z' # w' # r"
      by (auto simp: neq_Nil_conv Suc_le_length_iff eval_nat_numeral)
    with 4 False show ?thesis by (simp add: readVarint_def varint_def masks or.assoc fold_8)
  qed
qed

text \<open>The two readers, each with the writer of its package, are codecs.\<close>

definition getVarint :: "bytes \<Rightarrow> (u64 \<times> nat) option" where
  "getVarint b = (case varint b of Inl _ \<Rightarrow> None | Inr x \<Rightarrow> Some x)"

definition getReadVarint :: "bytes \<Rightarrow> (u64 \<times> nat) option" where
  "getReadVarint b = (let (v, n) = readVarint b in if n = 0 then None else Some (v, n))"

lemma take_bit_less: "take_bit 62 (v :: u64) < 2 ^ 62"
  using take_bit_nat_less_exp [of 62 "unat v"] by (simp add: word_less_nat_alt unsigned_take_bit_eq)

lemma varint_bounds:
  assumes "varint b = Inr (v, n)"
  shows "0 < n \<and> n \<le> length b \<and> v < 2 ^ 62"
proof -
  have "ucast (take_bit 6 x) = take_bit 62 (ucast (take_bit 6 x) :: u64)"
    "ucast (take_bit 14 y) = take_bit 62 (ucast (take_bit 14 y) :: u64)"
    "ucast (take_bit 30 z) = take_bit 62 (ucast (take_bit 30 z) :: u64)" for x :: byte and y :: u16 and z :: u32
    by (simp_all add: unsigned_take_bit_eq)
  then have "\<exists>w. v = take_bit 62 w"
    using assms by (auto simp: varint_def Let_def masks split: if_splits)
  moreover have "0 < n \<and> n \<le> length b"
  proof -
    let ?k = "unat (drop_bit 6 (b ! 0))"
    from unat_tag [of "b ! 0"] consider "?k = 0" | "?k = 1" | "?k = 2" | "?k = 3" by linarith
    then show ?thesis using assms by cases (auto simp: varint_def neq_Nil_conv split: if_splits)
  qed
  ultimately show ?thesis using take_bit_less by auto
qed

lemma getReadVarint_eq: "getReadVarint b = getVarint b"
proof (cases "varint b")
  case (Inr x)
  then show ?thesis using varint_bounds [of b "fst x" "snd x"]
    by (cases x) (simp add: getVarint_def getReadVarint_def readVarint_varint)
qed (simp add: getVarint_def getReadVarint_def readVarint_varint)

interpretation loc_codec: varint_codec "loc_appendVarint []" getVarint
proof
  show "getVarint (loc_appendVarint [] v @ r) = Some (take_bit 62 v, length (loc_appendVarint [] v))" for v r
    using varint_varintBytes [of v r] by (simp add: getVarint_def appendVarint_bytes(1) varintBytes_length)
  show "length (loc_appendVarint [] v) = quicVarintLen v" for v
    by (simp add: appendVarint_bytes(1) varintBytes_length)
  show "getVarint b = Some (v, n) \<Longrightarrow> 0 < n \<and> n \<le> length b \<and> v < 2 ^ 62" for b v n
    using varint_bounds [of b v n] by (simp add: getVarint_def split: sum.splits)
qed

interpretation hls_codec: varint_codec "hls_appendVarint []" getReadVarint
proof -
  have "hls_appendVarint [] = loc_appendVarint []" and "getReadVarint = getVarint"
    by (simp_all add: fun_eq_iff appendVarint_bytes getReadVarint_eq)
  with loc_codec.varint_codec_axioms show "varint_codec (hls_appendVarint []) getReadVarint" by simp
qed

end
