(* ===== verification/Media_Frame.thy ===== *)
theory Media_Frame
  imports Quic_Varint
begin

text \<open>
  The envelopes of media frames: the MediaFrame that ingest writes (\<^verbatim>\<open>src/internal/ingest/media_frame.go\<close>),
  the LOC frame the packager reads (\<^verbatim>\<open>src/internal/cmaf/loc.go\<close>), which has the same layout, and the
  frames of a group as the HLS egress stores them (\<^verbatim>\<open>src/internal/hls/frame.go\<close>). A \<^verbatim>\<open>moqt.Frame\<close> is the bytes
  written to it.
\<close>

section \<open>MediaFrame\<close>

text \<open>A timestamp is an \<open>int64\<close>; the encoder takes its bits as a \<open>uint64\<close>.\<close>

definition mediaFrameSize :: "int \<Rightarrow> nat \<Rightarrow> nat" where
  "mediaFrameSize timestampUS dataLen =
     quicVarintLen (word_of_int timestampUS) + quicVarintLen (of_nat dataLen) + dataLen"

text \<open>The new contents of \<open>dst\<close> and the bytes written; \<open>None\<close> is a panic. \<open>copy\<close> stops at the end of \<open>dst\<close>.\<close>

definition encodeMediaFrame :: "bytes \<Rightarrow> int \<Rightarrow> bytes \<Rightarrow> (bytes \<times> nat) option" where
  "encodeMediaFrame dst timestampUS data =
     (case putQuicVarint dst (word_of_int timestampUS) of None \<Rightarrow> None
      | Some (d1, n) \<Rightarrow>
        (case putQuicVarint (drop n d1) (of_nat (length data)) of None \<Rightarrow> None
         | Some (d2, m) \<Rightarrow>
            let tail = drop m d2; k = min (length tail) (length data)
            in Some (take n d1 @ take m d2 @ take k data @ drop k tail, n + m + k)))"

definition buildMediaFrame :: "int \<Rightarrow> bytes \<Rightarrow> bytes option" where
  "buildMediaFrame timestampUS data =
     map_option fst (encodeMediaFrame (replicate (mediaFrameSize timestampUS (length data)) 0) timestampUS data)"

definition writeMediaFrame :: "bytes \<Rightarrow> int \<Rightarrow> bytes \<Rightarrow> bytes option" where
  "writeMediaFrame f timestampUS data =
     (let tmp = replicate 8 0 in
      case putQuicVarint tmp (word_of_int timestampUS) of None \<Rightarrow> None
      | Some (t1, n) \<Rightarrow>
        (case putQuicVarint t1 (of_nat (length data)) of None \<Rightarrow> None
         | Some (t2, m) \<Rightarrow> Some (f @ take n t1 @ take m t2 @ data)))"

section \<open>LOC frames\<close>

datatype locError = LocTimestamp varintError | LocSize varintError | LocShort u64 nat

definition DecodeLOC :: "bytes \<Rightarrow> locError + u64 \<times> bytes" where
  "DecodeLOC b =
     bindE (mapErr LocTimestamp (varint b)) (\<lambda>(timestamp, n).
       let b = drop n b in
       bindE (mapErr LocSize (varint b)) (\<lambda>(size, n).
         let b = drop n b in
         if length b < unat size then Inl (LocShort size (length b)) else Inr (timestamp, take (unat size) b)))"

definition EncodeLOC :: "u64 \<Rightarrow> bytes \<Rightarrow> bytes" where
  "EncodeLOC timestamp payload =
     loc_appendVarint (loc_appendVarint [] timestamp) (of_nat (length payload)) @ payload"

section \<open>The frames of a stored group\<close>

record storedFrame =
  Timestamp :: u64
  Body :: bytes

datatype frameError = errTimestampRange nat | errMalformed nat

definition maxVarint :: u64 where
  "maxVarint = 2 ^ 62 - 1"

text \<open>An \<open>int64\<close> is its 64 bits here; \<open>>>\<close> on it shifts in the sign.\<close>

definition zigzag :: "u64 \<Rightarrow> u64" where
  "zigzag s = push_bit 1 s XOR signed_drop_bit 63 s"

definition unzigzag :: "u64 \<Rightarrow> u64" where
  "unzigzag u = drop_bit 1 u XOR - (u AND 1)"

definition addDelta :: "u64 \<Rightarrow> u64 \<Rightarrow> u64 option" where
  "addDelta prev delta =
     (let s = prev + delta in
      if 0 <s delta \<and> s <s prev then None
      else if s <s 0 then None
      else Some s)"

fun encodeFramesFrom :: "nat \<Rightarrow> u64 \<Rightarrow> bytes \<Rightarrow> storedFrame list \<Rightarrow> frameError + bytes" where
  "encodeFramesFrom i prev payload [] = Inr payload"
| "encodeFramesFrom i prev payload (f # fs) =
     (if 2 ^ 63 - 1 < Timestamp f then Inl (errTimestampRange i)
      else let delta = zigzag (Timestamp f - prev) in
        if maxVarint < delta then Inl (errTimestampRange i)
        else encodeFramesFrom (Suc i) (Timestamp f)
          (hls_appendVarint (hls_appendVarint payload delta) (of_nat (length (Body f))) @ Body f) fs)"

definition encodeFrames :: "storedFrame list \<Rightarrow> frameError + bytes" where
  "encodeFrames fs = encodeFramesFrom 0 0 [] fs"

text \<open>What the iterator yields when it is not stopped: the frames, and the error after them.\<close>

function allFramesFrom :: "nat \<Rightarrow> u64 \<Rightarrow> bytes \<Rightarrow> storedFrame list \<times> frameError option" where
  "allFramesFrom i prev payload =
     (if payload = [] then ([], None)
      else let (delta, n) = readVarint payload in
        if n = 0 then ([], Some (errMalformed i))
        else let payload = drop n payload; (len, n) = readVarint payload in
          if n = 0 then ([], Some (errMalformed i))
          else let payload = drop n payload in
            if length payload < unat len then ([], Some (errMalformed i))
            else case addDelta prev (unzigzag delta) of
                None \<Rightarrow> ([], Some (errMalformed i))
              | Some ts \<Rightarrow>
                  let (fs, e) = allFramesFrom (Suc i) ts (drop (unat len) payload)
                  in (\<lparr>Timestamp = ts, Body = take (unat len) payload\<rparr> # fs, e))"
  by pat_completeness auto
termination
  by (relation "measure (\<lambda>(i, prev, payload). length payload)") auto

declare allFramesFrom.simps [simp del]

definition allFrames :: "bytes \<Rightarrow> storedFrame list \<times> frameError option" where
  "allFrames payload = allFramesFrom 0 0 payload"

section \<open>The envelopes agree\<close>

lemma overwrite_fits: "length b \<le> length dst \<Longrightarrow> overwrite dst b = Some (b @ drop (length b) dst, length b)"
  by (simp add: overwrite_def)

lemma quicVarintLen_le: "quicVarintLen v \<le> 8"
  by (simp add: quicVarintLen_def)

lemma EncodeLOC_field: "EncodeLOC ts data = loc_codec.putField ts data"
  by (simp add: EncodeLOC_def loc_codec.putField_def appendVarint_bytes)

lemma EncodeLOC_bytes: "EncodeLOC ts data = varintBytes ts @ varintBytes (of_nat (length data)) @ data"
  by (simp add: EncodeLOC_def appendVarint_bytes)

lemma buildMediaFrame_LOC: "buildMediaFrame ts data = Some (EncodeLOC (word_of_int ts) data)"
  by (simp add: buildMediaFrame_def encodeMediaFrame_def putQuicVarint_bytes overwrite_fits varintBytes_length
      mediaFrameSize_def Let_def EncodeLOC_bytes)

lemma writeMediaFrame_LOC: "writeMediaFrame f ts data = Some (f @ EncodeLOC (word_of_int ts) data)"
  by (simp add: writeMediaFrame_def putQuicVarint_bytes overwrite_fits varintBytes_length quicVarintLen_le
      EncodeLOC_bytes)

lemma EncodeLOC_length: "length (EncodeLOC (word_of_int ts) data) = mediaFrameSize ts (length data)"
  by (simp add: EncodeLOC_bytes varintBytes_length mediaFrameSize_def)

lemma DecodeLOC_field:
  "DecodeLOC b = Inr (ts, data) \<longleftrightarrow> (\<exists>r. loc_codec.getField b = Some (ts, data, r))"
proof (cases "varint b")
  case (Inr x)
  obtain v n where x: "x = (v, n)" by (cases x)
  show ?thesis
  proof (cases "varint (drop n b)")
    case (Inr y)
    then show ?thesis using \<open>varint b = Inr x\<close>
      by (cases y) (auto simp: x DecodeLOC_def loc_codec.getField_def getVarint_def Let_def)
  qed (use Inr in \<open>simp add: x DecodeLOC_def loc_codec.getField_def getVarint_def\<close>)
qed (simp add: DecodeLOC_def loc_codec.getField_def getVarint_def)

lemma DecodeLOC_EncodeLOC:
  assumes "length data < 2 ^ 62"
  shows "DecodeLOC (EncodeLOC ts data @ r) = Inr (take_bit 62 ts, data)"
  unfolding DecodeLOC_field EncodeLOC_field using loc_codec.getField_put [OF assms] by blast

section \<open>Stored groups\<close>

lemma len64: "LENGTH(64) = 64"
  by simp

lemma bit_minus_lsb: "n < 64 \<Longrightarrow> bit (- (u AND 1) :: u64) n \<longleftrightarrow> bit u 0"
  by (cases "bit u 0") (simp_all add: and_one_eq mod2_eq_if bit_0)

lemma unzigzag_zigzag: "unzigzag (zigzag s) = s"
proof (rule bit_word_eqI)
  fix n assume n: "n < LENGTH(64)"
  have z: "bit (zigzag s) m \<longleftrightarrow> (m \<noteq> 0 \<and> bit s (m - 1)) \<noteq> bit s 63" if "m < 64" for m
  proof -
    have "bit (push_bit 1 s) m \<longleftrightarrow> m \<noteq> 0 \<and> bit s (m - 1)"
      using that bit_push_bit_iff [of 1 s m] by (auto simp only: possible_bit_word) simp
    moreover have "bit (signed_drop_bit 63 s) m \<longleftrightarrow> bit s 63"
      using that by (cases m) (auto simp: bit_signed_drop_bit_iff)
    ultimately show ?thesis by (simp only: zigzag_def bit_xor_iff)
  qed
  have "bit (unzigzag (zigzag s)) n \<longleftrightarrow> bit (zigzag s) (Suc n) \<noteq> bit (zigzag s) 0"
    using n by (simp only: unzigzag_def bit_xor_iff bit_minus_lsb len64 bit_drop_bit_eq) simp
  moreover have "bit (zigzag s) (Suc n) \<longleftrightarrow> n \<noteq> 63 \<and> bit s n \<noteq> bit s 63"
    using n z [of "Suc n"] bit_imp_le_length [of "zigzag s" "Suc n"] by (cases "n = 63") auto
  ultimately show "bit (unzigzag (zigzag s)) n = bit s n" using z [of 0] n by auto
qed

text \<open>Timestamps are below \<open>2 ^ 63\<close>, so their difference is exact.\<close>

lemma signed_63: "- (2 ^ 63) \<le> k \<Longrightarrow> k < 2 ^ 63 \<Longrightarrow> signed_take_bit 63 k = (k :: int)"
  by (rule signed_take_bit_int_eq_self)

lemma sint_timestamp:
  assumes "unat (t :: u64) < 2 ^ 63"
  shows "sint t = uint t" and "0 \<le> uint t" and "uint t < 2 ^ 63"
proof -
  have "int (unat t) < int (2 ^ 63)" using assms by (simp only: of_nat_less_iff)
  then show "0 \<le> uint t" and "uint t < 2 ^ 63" by simp_all
  then have "signed_take_bit 63 (uint t) = uint t" by (intro signed_63) linarith+
  then show "sint t = uint t" by (simp add: sint_uint)
qed

lemma addDelta_back:
  assumes "unat t < 2 ^ 63" and "unat p < 2 ^ 63"
  shows "addDelta p (t - p) = Some t"
proof -
  note t = sint_timestamp [OF assms(1)] and p = sint_timestamp [OF assms(2)]
  have "sint (t - p) = signed_take_bit 63 (uint t - uint p)" by (simp add: sint_word_diff t(1) p(1))
  also have "\<dots> = uint t - uint p" using t(2,3) p(2,3) by (intro signed_63) linarith+
  finally show ?thesis using t p by (simp add: addDelta_def word_sless_alt)
qed

lemma allFrames_step:
  assumes "length (Body f) < 2 ^ 62" and "unat (Timestamp f) < 2 ^ 63" and "unat p < 2 ^ 63"
    and "zigzag (Timestamp f - p) \<le> maxVarint"
  shows "allFramesFrom i p (hls_codec.putField (zigzag (Timestamp f - p)) (Body f) @ r)
    = (let (fs, e) = allFramesFrom (Suc i) (Timestamp f) r in (f # fs, e))"
proof -
  let ?z = "zigzag (Timestamp f - p)"
  let ?rest = "hls_appendVarint [] (of_nat (length (Body f))) @ Body f @ r"
  have z: "take_bit 62 ?z = ?z"
    using assms(4) by (simp add: maxVarint_def word_le_nat_alt word_unat_eq_iff unsigned_take_bit_eq take_bit_nat_eq_self_iff)
  have rd: "readVarint (hls_appendVarint [] v @ x) = (take_bit 62 v, quicVarintLen v)" for v x
    using varint_varintBytes [of v x] by (simp add: readVarint_varint appendVarint_bytes(2))
  have len: "length (hls_appendVarint [] v) = quicVarintLen v" "quicVarintLen v \<noteq> 0" for v
    by (simp add: hls_codec.put_length) (simp add: quicVarintLen_def)
  then have ne: "hls_appendVarint [] v \<noteq> []" for v by (metis list.size(3))
  show ?thesis
    using hls_codec.unat_length [OF assms(1)] addDelta_back [OF assms(2,3)] ne
    by (subst allFramesFrom.simps)
      (simp add: hls_codec.putField_def rd len z unzigzag_zigzag split: prod.splits)
qed

lemma encodeFramesFrom_append:
  "encodeFramesFrom i p (payload @ b) fs = map_sum id (append payload) (encodeFramesFrom i p b fs)"
proof (induction fs arbitrary: i p b)
  case (Cons f fs)
  then show ?case by (simp add: Let_def appendVarint_bytes)
qed simp

lemma in_timeline: "2 ^ 63 - 1 < (t :: u64) \<longleftrightarrow> \<not> unat t < 2 ^ 63"
  by (simp add: word_less_nat_alt) arith

lemma encodeFramesFrom_Cons:
  "encodeFramesFrom i p [] (f # fs) =
    (if unat (Timestamp f) < 2 ^ 63 \<and> zigzag (Timestamp f - p) \<le> maxVarint
     then map_sum id (append (hls_codec.putField (zigzag (Timestamp f - p)) (Body f)))
       (encodeFramesFrom (Suc i) (Timestamp f) [] fs)
     else Inl (errTimestampRange i))"
proof -
  let ?b = "hls_codec.putField (zigzag (Timestamp f - p)) (Body f)"
  have "hls_appendVarint (hls_appendVarint [] (zigzag (Timestamp f - p))) (of_nat (length (Body f))) @ Body f = ?b"
    by (simp add: hls_codec.putField_def appendVarint_bytes(2))
  then show ?thesis using encodeFramesFrom_append [of "Suc i" "Timestamp f" ?b "[]" fs]
    by (simp only: encodeFramesFrom.simps in_timeline Let_def append_Nil2) (auto simp: not_le not_less)
qed

lemma allFrames_encode:
  "encodeFramesFrom i p [] fs = Inr payload \<Longrightarrow> unat p < 2 ^ 63 \<Longrightarrow> \<forall>f \<in> set fs. length (Body f) < 2 ^ 62
    \<Longrightarrow> allFramesFrom j p payload = (fs, None)"
proof (induction fs arbitrary: i p payload j)
  case Nil
  then show ?case by (simp add: allFramesFrom.simps)
next
  case (Cons f fs)
  from Cons.prems(1) obtain q where ok: "unat (Timestamp f) < 2 ^ 63" "zigzag (Timestamp f - p) \<le> maxVarint"
    and q: "encodeFramesFrom (Suc i) (Timestamp f) [] fs = Inr q"
    and payload: "payload = hls_codec.putField (zigzag (Timestamp f - p)) (Body f) @ q"
    by (cases "encodeFramesFrom (Suc i) (Timestamp f) [] fs")
      (auto simp: encodeFramesFrom_Cons simp del: encodeFramesFrom.simps split: if_splits)
  from Cons.IH [OF q ok(1)] Cons.prems(3) have "allFramesFrom (Suc j) (Timestamp f) q = (fs, None)" by simp
  with allFrames_step [OF _ ok(1) Cons.prems(2) ok(2)] Cons.prems(3) show ?case by (simp add: payload)
qed

text \<open>Which deltas fit.\<close>

lemma uint_zigzag: "uint (zigzag s) = (if 0 \<le> sint s then 2 * sint s else - 2 * sint s - 1)"
proof -
  have b: "bit s 63 \<longleftrightarrow> sint s < 0" using bit_last_iff [of s] by simp
  have rng: "- (2 ^ 63) \<le> sint s" "sint s < 2 ^ 63" using sint_ge [of s] sint_lt [of s] by simp_all
  have dbl: "push_bit 1 s = word_of_int (2 * sint s)" by simp
  show ?thesis
  proof (cases "sint s < 0")
    case True
    have "signed_drop_bit 63 s = - 1" 
      by (rule bit_word_eqI) (use b True in \<open>auto simp: bit_signed_drop_bit_iff not_less_eq_eq\<close>)
    then have "zigzag s = word_of_int (- 2 * sint s - 1)"
      by (simp add: zigzag_def dbl not_eq_complement)
    then have "uint (zigzag s) = (- 2 * sint s - 1) mod 2 ^ 64" by (simp only: uint_word_of_int len64)
    with True rng show ?thesis by simp
  next
    case False
    have "signed_drop_bit 63 s = 0" by (rule bit_word_eqI) (use b False in \<open>auto simp: bit_signed_drop_bit_iff not_less_eq_eq\<close>)
    then have "zigzag s = word_of_int (2 * sint s)" by (simp only: zigzag_def dbl xor.right_neutral)
    then have "uint (zigzag s) = 2 * sint s mod 2 ^ 64" by (simp only: uint_word_of_int len64)
    with False rng show ?thesis by simp
  qed
qed

lemma zigzag_fits: "zigzag s \<le> maxVarint \<longleftrightarrow> - (2 ^ 61) \<le> sint s \<and> sint s < 2 ^ 61"
proof -
  have "uint maxVarint = 2 ^ 62 - 1" by (simp add: maxVarint_def)
  then show ?thesis by (auto simp: word_le_def uint_zigzag)
qed

text \<open>The timestamps that can be stored: below \<open>2 ^ 63\<close>, and less than \<open>2 ^ 61\<close> from one frame to the next.\<close>

fun timelineOk :: "int \<Rightarrow> int list \<Rightarrow> bool" where
  "timelineOk p [] \<longleftrightarrow> True"
| "timelineOk p (t # ts) \<longleftrightarrow> t < 2 ^ 63 \<and> - (2 ^ 61) \<le> t - p \<and> t - p < 2 ^ 61 \<and> timelineOk t ts"

lemma encode_iff:
  "unat p < 2 ^ 63 \<Longrightarrow> (\<exists>payload. encodeFramesFrom i p [] fs = Inr payload)
    \<longleftrightarrow> timelineOk (uint p) (map (uint \<circ> Timestamp) fs)"
proof (induction fs arbitrary: i p)
  case (Cons f fs)
  let ?t = "Timestamp f"
  have t: "unat ?t < 2 ^ 63 \<longleftrightarrow> uint ?t < 2 ^ 63" 
    using of_nat_less_iff [of "unat ?t" "2 ^ 63", where ?'a = int] by simp
  show ?case
  proof (cases "unat ?t < 2 ^ 63")
    case True
    note b = sint_timestamp [OF True] and c = sint_timestamp [OF Cons.prems]
    have "sint (?t - p) = signed_take_bit 63 (uint ?t - uint p)" by (simp add: sint_word_diff b(1) c(1))
    also have "\<dots> = uint ?t - uint p" using b(2,3) c(2,3) by (intro signed_63) linarith+
    finally have "zigzag (?t - p) \<le> maxVarint \<longleftrightarrow> - (2 ^ 61) \<le> uint ?t - uint p \<and> uint ?t - uint p < 2 ^ 61"
      by (simp only: zigzag_fits)
    moreover have "(\<exists>payload. map_sum id (append x) (encodeFramesFrom (Suc i) ?t [] fs) = Inr payload)
        \<longleftrightarrow> (\<exists>payload. encodeFramesFrom (Suc i) ?t [] fs = Inr payload)" for x
      by (cases "encodeFramesFrom (Suc i) ?t [] fs") auto
    ultimately show ?thesis using Cons.IH [OF True, of "Suc i"] True t
      by (simp only: encodeFramesFrom_Cons list.map timelineOk.simps comp_apply) auto
  qed (use t in \<open>simp add: encodeFramesFrom_Cons del: encodeFramesFrom.simps\<close>)
qed simp

lemma timestamp_62: "take_bit 62 (word_of_int ts :: u64) = word_of_int (ts mod 2 ^ 62)"
proof -
  have "take_bit 62 (word_of_int ts :: u64) = word_of_int (take_bit 62 ts)"
    by (rule bit_word_eqI) (simp add: bit_simps)
  then show ?thesis by (simp only: take_bit_eq_mod)
qed

section \<open>Properties\<close>

text \<open>
  C26: A media frame is read as it was written. The two writers of ingest never run past their buffers and
  write the same bytes, as many as \<open>mediaFrameSize\<close> says, and the packager reads the payload back from
  them, whatever follows, with its timestamp. A timestamp outside \<open>0\<close> to \<open>2 ^ 62 - 1\<close> comes back
  modulo \<open>2 ^ 62\<close>.
\<close>

theorem media_frame_roundtrip:
  assumes "length data < 2 ^ 62"
  shows "\<exists>b. buildMediaFrame ts data = Some b \<and> writeMediaFrame f ts data = Some (f @ b)
    \<and> length b = mediaFrameSize ts (length data)
    \<and> DecodeLOC (b @ r) = Inr (word_of_int (ts mod 2 ^ 62), data)"
  using DecodeLOC_EncodeLOC [OF assms]
  by (simp add: buildMediaFrame_LOC writeMediaFrame_LOC EncodeLOC_length timestamp_62)

theorem media_frame_roundtrip_witness:
  "\<exists>b. buildMediaFrame (- 40000) [1, 2, 3] = Some b \<and> writeMediaFrame [] (- 40000) [1, 2, 3] = Some b \<and> length b = 12
    \<and> DecodeLOC b = Inr (word_of_int (2 ^ 62 - 40000), [1, 2, 3])"
  using media_frame_roundtrip [of "[1, 2, 3]" "- 40000" "[]" "[]"]
  by (simp add: mediaFrameSize_def quicVarintLen_def)

text \<open>
  C29: A group is stored without loss. Encoding succeeds exactly for timestamps the format can carry, and
  then the frames that are read back are the ones that were written, in order and without an error.
\<close>

theorem stored_group_roundtrip:
  assumes "\<forall>f \<in> set fs. length (Body f) < 2 ^ 62"
  shows "(timelineOk 0 (map (uint \<circ> Timestamp) fs) \<longrightarrow> (\<exists>payload. encodeFrames fs = Inr payload \<and> allFrames payload = (fs, None)))
    \<and> (\<not> timelineOk 0 (map (uint \<circ> Timestamp) fs) \<longrightarrow> (\<exists>i. encodeFrames fs = Inl (errTimestampRange i)))"
proof -
  have err: "encodeFramesFrom i p b gs = Inl e \<Longrightarrow> \<exists>j. e = errTimestampRange j" for i p b gs e
    by (induction gs arbitrary: i p b) (auto simp: Let_def split: if_splits)
  show ?thesis
    using encode_iff [of 0 0 fs] allFrames_encode [of 0 0 fs _ 0] err [of 0 0 "[]" fs] assms
    by (cases "encodeFramesFrom 0 0 [] fs") (auto simp: encodeFrames_def allFrames_def)
qed

theorem stored_group_roundtrip_witness:
  "\<exists>payload. encodeFrames [\<lparr>Timestamp = 40, Body = [7]\<rparr>, \<lparr>Timestamp = 20, Body = []\<rparr>] = Inr payload
    \<and> allFrames payload = ([\<lparr>Timestamp = 40, Body = [7]\<rparr>, \<lparr>Timestamp = 20, Body = []\<rparr>], None)"
  using stored_group_roundtrip [of "[\<lparr>Timestamp = 40, Body = [7]\<rparr>, \<lparr>Timestamp = 20, Body = []\<rparr>]"] by simp

end
