(* ===== verification/Sps.thy ===== *)
theory Sps
  imports Prelude "HOL-Library.Signed_Division"
begin

text \<open>
  The picture size in an H.264 sequence parameter set (\<^verbatim>\<open>src/internal/ingest/flv.go\<close>: \<open>bitReader\<close>,
  \<open>parseSPSDimensions\<close>). The reader returns zeros past the end of its data and takes the bytes as they are,
  emulation prevention included. A \<open>uint32\<close> is a 32-bit word, an \<open>int\<close> an integer: none of the sums
  here leaves 64 bits.
\<close>

section \<open>The bit reader\<close>

record bitReader =
  bdata :: bytes
  boff :: nat

fun readBitsLoop :: "nat \<Rightarrow> u32 \<Rightarrow> bitReader \<Rightarrow> u32 \<times> bitReader" where
  "readBitsLoop 0 val r = (val, r)"
| "readBitsLoop (Suc n) val r =
     (let bytePos = boff r div 8; bitPos = 7 - boff r mod 8;
          val' = (if bytePos < length (bdata r)
            then push_bit 1 val OR ucast (drop_bit bitPos (bdata r ! bytePos) AND 1) else push_bit 1 val)
      in readBitsLoop n val' (r\<lparr>boff := boff r + 1\<rparr>))"

definition readBits :: "nat \<Rightarrow> bitReader \<Rightarrow> u32 \<times> bitReader" where
  "readBits n r = readBitsLoop n 0 r"

definition skip :: "nat \<Rightarrow> bitReader \<Rightarrow> bitReader" where
  "skip n r = r\<lparr>boff := boff r + n\<rparr>"

text \<open>The loop of \<open>readExpGolomb\<close> counts zero bits; \<open>None\<close> is its return after 32 of them.\<close>

function countZeros :: "nat \<Rightarrow> bitReader \<Rightarrow> nat option \<times> bitReader" where
  "countZeros zeros r =
     (let (b, r) = readBits 1 r in
      if b \<noteq> 0 then (Some zeros, r)
      else if zeros + 1 > 31 then (None, r)
      else countZeros (zeros + 1) r)"
  by pat_completeness auto
termination
  by (relation "measure (\<lambda>(zeros, r). 32 - zeros)") auto

declare countZeros.simps [simp del]

definition readExpGolomb :: "bitReader \<Rightarrow> u32 \<times> bitReader" where
  "readExpGolomb r =
     (case countZeros 0 r of
        (None, r) \<Rightarrow> (0, r)
      | (Some zeros, r) \<Rightarrow>
          if zeros = 0 then (0, r)
          else let (v, r) = readBits zeros r in (push_bit zeros 1 - 1 + v, r))"

definition readSignedEG :: "bitReader \<Rightarrow> int \<times> bitReader" where
  "readSignedEG r =
     (let (v, r) = readExpGolomb r in
      if v mod 2 = 0 then (- sint (v div 2), r) else (sint ((v + 1) div 2), r))"

fun scalingLoop :: "nat \<Rightarrow> int \<Rightarrow> int \<Rightarrow> bitReader \<Rightarrow> bitReader" where
  "scalingLoop 0 lastScale nextScale r = r"
| "scalingLoop (Suc n) lastScale nextScale r =
     (let (next, r) = (if nextScale \<noteq> 0
            then let (delta, r) = readSignedEG r in ((lastScale + delta + 256) smod 256, r)
            else (nextScale, r))
      in scalingLoop n (if next \<noteq> 0 then next else lastScale) next r)"

definition skipScalingList :: "bitReader \<Rightarrow> nat \<Rightarrow> bitReader" where
  "skipScalingList r sz = scalingLoop sz 8 8 r"

fun scalingMatrix :: "nat list \<Rightarrow> bitReader \<Rightarrow> bitReader" where
  "scalingMatrix [] r = r"
| "scalingMatrix (i # is) r =
     (let (b, r) = readBits 1 r in
      scalingMatrix is (if b = 1 then skipScalingList r (if i \<ge> 6 then 64 else 16) else r))"

section \<open>Sequence parameter sets\<close>

definition highProfiles :: "u32 list" where
  "highProfiles = [100, 110, 122, 244, 44, 83, 86, 118, 128]"

definition skipHighProfile :: "bitReader \<Rightarrow> bitReader" where
  "skipHighProfile r =
     (let (chromaFormatIDC, r) = readExpGolomb r;
          r = (if chromaFormatIDC = 3 then skip 1 r else r);
          r = snd (readExpGolomb r);
          r = snd (readExpGolomb r);
          r = skip 1 r;
          (scalingMatrixPresent, r) = readBits 1 r
      in if scalingMatrixPresent = 1 then scalingMatrix [0..<if chromaFormatIDC = 3 then 12 else 8] r else r)"

definition skipPicOrder :: "bitReader \<Rightarrow> bitReader" where
  "skipPicOrder r =
     (let (picOrderCntType, r) = readExpGolomb r in
      if picOrderCntType = 0 then snd (readExpGolomb r)
      else if picOrderCntType = 1 then
        (let r = skip 1 r; r = snd (readSignedEG r); r = snd (readSignedEG r); (n, r) = readExpGolomb r
         in ((snd \<circ> readSignedEG) ^^ unat n) r)
      else r)"

definition readCrop :: "bitReader \<Rightarrow> int \<times> int \<times> int \<times> int" where
  "readCrop r =
     (let (frameCropFlag, r) = readBits 1 r in
      if frameCropFlag = 1 then
        (let (cropLeft, r) = readExpGolomb r; (cropRight, r) = readExpGolomb r;
             (cropTop, r) = readExpGolomb r; (cropBottom, r) = readExpGolomb r
         in (uint cropLeft, uint cropRight, uint cropTop, uint cropBottom))
      else (0, 0, 0, 0))"

definition parseSPSDimensions :: "bytes \<Rightarrow> int \<times> int" where
  "parseSPSDimensions sps =
     (if length sps < 4 then (0, 0)
      else let r = skip 8 \<lparr>bdata = sps, boff = 0\<rparr>;
          (profileIDC, r) = readBits 8 r;
          r = skip 8 (skip 8 r);
          r = snd (readExpGolomb r);
          r = (if profileIDC \<in> set highProfiles then skipHighProfile r else r);
          r = snd (readExpGolomb r);
          r = skipPicOrder r;
          r = snd (readExpGolomb r);
          r = skip 1 r;
          (w, r) = readExpGolomb r;
          (h, r) = readExpGolomb r;
          (frameMbsOnlyFlag, r) = readBits 1 r;
          r = (if frameMbsOnlyFlag = 0 then skip 1 r else r);
          r = skip 1 r;
          (cropLeft, cropRight, cropTop, cropBottom) = readCrop r
      in (uint (w + 1) * 16 - (cropLeft + cropRight) * 2,
          (2 - uint frameMbsOnlyFlag) * uint (h + 1) * 16 - (cropTop + cropBottom) * 2))"

section \<open>Reading what lies ahead\<close>

text \<open>\<open>ahead bs r\<close>: the next bits of the reader are \<open>bs\<close>; past the end of the data they are zeros.\<close>

definition bitAt :: "bytes \<Rightarrow> nat \<Rightarrow> bool" where
  "bitAt b k \<longleftrightarrow> k div 8 < length b \<and> bit (b ! (k div 8)) (7 - k mod 8)"

definition ahead :: "bool list \<Rightarrow> bitReader \<Rightarrow> bool" where
  "ahead bs r \<longleftrightarrow> (\<forall>i < length bs. bitAt (bdata r) (boff r + i) = bs ! i)"

lemma skip_simps [simp]: "bdata (skip n r) = bdata r" "boff (skip n r) = boff r + n" "skip 0 r = r"
  "skip n (skip m r) = skip (m + n) r" "r\<lparr>boff := boff r + n\<rparr> = skip n r"
  by (simp_all add: skip_def add.assoc)

lemma ahead_Nil [simp]: "ahead [] r"
  by (simp add: ahead_def)

lemma ahead_Cons: "ahead (b # bs) r \<longleftrightarrow> bitAt (bdata r) (boff r) = b \<and> ahead bs (skip 1 r)"
  by (simp add: ahead_def All_less_Suc2)

lemma ahead_append: "ahead (as @ bs) r \<longleftrightarrow> ahead as r \<and> ahead bs (skip (length as) r)"
  by (induction as arbitrary: r) (auto simp: ahead_Cons)

text \<open>The number that bits stand for, most significant first.\<close>

definition bitsVal :: "nat \<Rightarrow> bool list \<Rightarrow> nat" where
  "bitsVal acc bs = foldl (\<lambda>v b. 2 * v + of_bool b) acc bs"

lemma bitsVal_simps [simp]: "bitsVal acc [] = acc" "bitsVal acc (b # bs) = bitsVal (2 * acc + of_bool b) bs"
  by (simp_all add: bitsVal_def)

lemma bit_step:
  "(if k div 8 < length b then push_bit 1 val OR ucast (drop_bit (7 - k mod 8) (b ! (k div 8)) AND 1) else push_bit 1 val)
    = (2 * val + of_bool (bitAt b k) :: u32)"
proof -
  have "ucast (drop_bit j (x :: byte) AND 1) = (of_bool (bit x j) :: u32)" for x j
    by (simp add: and_one_eq odd_iff_mod_2_eq_one [symmetric] bit_iff_odd_drop_bit mod2_eq_if)
  moreover have "2 * val OR of_bool c = 2 * val + of_bool c" for c
    by (cases c) (simp_all add: or_one_eq)
  ultimately show ?thesis by (simp add: bitAt_def mult.commute)
qed

lemma readBitsLoop_Suc:
  "readBitsLoop (Suc n) val r = readBitsLoop n (2 * val + of_bool (bitAt (bdata r) (boff r))) (skip 1 r)"
  by (simp only: readBitsLoop.simps Let_def bit_step skip_def)

lemma readBitsLoop_ahead:
  "ahead bs r \<Longrightarrow> readBitsLoop (length bs) (of_nat acc) r = (of_nat (bitsVal acc bs), skip (length bs) r)"
proof (induction bs arbitrary: acc r)
  case (Cons b bs)
  then show ?case using Cons.IH [of "skip 1 r" "2 * acc + of_bool b"]
    by (simp add: readBitsLoop_Suc ahead_Cons del: readBitsLoop.simps)
qed simp

lemma readBits_ahead: "ahead bs r \<Longrightarrow> readBits (length bs) r = (of_nat (bitsVal 0 bs), skip (length bs) r)"
  using readBitsLoop_ahead [of bs r 0] by (simp add: readBits_def)

lemma readBits_1: "ahead [b] r \<Longrightarrow> readBits 1 r = (of_bool b, skip 1 r)"
  using readBits_ahead [of "[b]" r] by simp

section \<open>Exponential Golomb codes\<close>

fun logBits :: "nat \<Rightarrow> nat" where
  "logBits m = (if m < 2 then 0 else Suc (logBits (m div 2)))"

declare logBits.simps [simp del]

definition natBits :: "nat \<Rightarrow> nat \<Rightarrow> bool list" where
  "natBits k m = map (\<lambda>i. bit m (k - 1 - i)) [0..<k]"

definition ueBits :: "nat \<Rightarrow> bool list" where
  "ueBits v = replicate (logBits (v + 1)) False @ True # natBits (logBits (v + 1)) (v + 1)"

lemma natBits_Suc: "natBits (Suc k) m = bit m k # natBits k m"
  by (simp add: natBits_def upt_conv_Cons map_Suc_upt [symmetric] del: upt_Suc)

lemma length_natBits [simp]: "length (natBits k m) = k"
  by (simp add: natBits_def)

lemma bitsVal_natBits: "bitsVal acc (natBits k m) = acc * 2 ^ k + m mod 2 ^ k"
proof (induction k arbitrary: acc)
  case (Suc k)
  have "m mod 2 ^ Suc k = of_bool (bit m k) * 2 ^ k + m mod 2 ^ k"
    using take_bit_Suc_from_most [of k m] by (simp only: take_bit_eq_mod) (simp add: mult.commute)
  then show ?case by (simp add: natBits_Suc Suc algebra_simps)
qed (simp add: natBits_def)

lemma logBits_bounds: "0 < m \<Longrightarrow> 2 ^ logBits m \<le> m \<and> m < 2 ^ Suc (logBits m)"
proof (induction m rule: logBits.induct)
  case (1 m)
  show ?case
  proof (cases "m < 2")
    case False
    with 1 have "2 ^ logBits (m div 2) \<le> m div 2 \<and> m div 2 < 2 ^ Suc (logBits (m div 2))" by simp
    with False show ?thesis by (subst (1 2) logBits.simps) auto
  qed (use 1 in \<open>simp add: logBits.simps\<close>)
qed

lemma countZeros_ahead:
  "ahead (replicate k False @ [True]) r \<Longrightarrow> z + k < 32 \<Longrightarrow> countZeros z r = (Some (z + k), skip (Suc k) r)"
proof (induction k arbitrary: z r)
  case 0
  then show ?case using readBits_1 [of True r] by (subst countZeros.simps) simp
next
  case (Suc k)
  then have "ahead [False] r" and a: "ahead (replicate k False @ [True]) (skip 1 r)"
    by (auto simp: ahead_Cons)
  with Suc.IH [OF a, of "Suc z"] Suc.prems(2) readBits_1 [of False r] show ?case
    by (subst countZeros.simps) simp
qed

lemma readExpGolomb_ahead:
  assumes "ahead (ueBits v) r" and "v < 2 ^ 32 - 1"
  shows "readExpGolomb r = (of_nat v, skip (length (ueBits v)) r)"
proof -
  define k where "k = logBits (v + 1)"
  have b: "2 ^ k \<le> v + 1" "v + 1 < 2 ^ Suc k" using logBits_bounds [of "v + 1"] by (simp_all add: k_def)
  have "(2 :: nat) ^ k < 2 ^ 32" using b(1) assms(2) by linarith
  then have k: "k < 32" by (simp only: power_strict_increasing_iff)
  have u: "ueBits v = replicate k False @ True # natBits k (v + 1)" by (simp add: ueBits_def k_def)
  have a: "ahead (replicate k False @ [True]) r" "ahead (natBits k (v + 1)) (skip (Suc k) r)"
    using assms(1) by (simp_all add: u ahead_append ahead_Cons)
  have m: "(v + 1) mod 2 ^ k = v + 1 - 2 ^ k" using b by (simp add: mod_nat_eqI)
  have z: "countZeros 0 r = (Some k, skip (Suc k) r)" using countZeros_ahead [OF a(1), of 0] k by simp
  have rd: "readBits k (skip (Suc k) r) = (of_nat (v + 1 - 2 ^ k), skip (2 * k + 1) r)"
    using readBits_ahead [OF a(2)] by (simp only: length_natBits bitsVal_natBits m mult_0 add_0) simp
  have val: "push_bit k 1 - 1 + of_nat (v + 1 - 2 ^ k) = (of_nat v :: u32)"
    using b(1) by (simp add: push_bit_eq_mult of_nat_diff)
  have len: "length (ueBits v) = 2 * k + 1" by (simp add: u)
  show ?thesis
  proof (cases "k = 0")
    case True
    then have "of_nat v = (0 :: u32)" using b by simp
    then show ?thesis by (simp only: readExpGolomb_def z prod.case option.case len True if_True) simp
  next
    case False
    then show ?thesis by (simp only: readExpGolomb_def z rd prod.case option.case len val if_False Let_def)
  qed
qed

lemma readSignedEG_ahead:
  "ahead (ueBits v) r \<Longrightarrow> v < 2 ^ 32 - 1 \<Longrightarrow> snd (readSignedEG r) = skip (length (ueBits v)) r"
  by (simp add: readSignedEG_def readExpGolomb_ahead)

section \<open>The syntax of a parameter set\<close>

text \<open>
  A reference for the part of a sequence parameter set up to the picture size (H.264, section 7.3.2.1.1),
  written bit by bit, without scaling matrices. A flag that the syntax leaves out is not written.
\<close>

datatype pocSyntax = PocLsb nat | PocCycle bool int int "int list" | PocNone nat

record chromaSyntax =
  chromaFormat :: nat
  separatePlanes :: bool
  lumaDepth :: nat
  chromaDepth :: nat
  bypass :: bool

record spsSyntax =
  nalHeader :: byte
  profile :: byte
  constraints :: byte
  level :: byte
  spsId :: nat
  chroma :: chromaSyntax
  frameNumBits :: nat
  poc :: pocSyntax
  refFrames :: nat
  gapsAllowed :: bool
  widthMbsMinus1 :: nat
  heightUnitsMinus1 :: nat
  frameMbsOnly :: bool
  adaptiveFields :: bool
  direct8x8 :: bool
  crop :: "(nat \<times> nat \<times> nat \<times> nat) option"

definition seCode :: "int \<Rightarrow> nat" where
  "seCode x = nat (if x > 0 then 2 * x - 1 else - 2 * x)"

definition isHigh :: "spsSyntax \<Rightarrow> bool" where
  "isHigh s \<longleftrightarrow> ucast (profile s) \<in> set highProfiles"

definition chromaBits :: "chromaSyntax \<Rightarrow> bool list" where
  "chromaBits c = ueBits (chromaFormat c) @ (if chromaFormat c = 3 then [separatePlanes c] else [])
     @ ueBits (lumaDepth c) @ ueBits (chromaDepth c) @ [bypass c, False]"

fun pocBits :: "pocSyntax \<Rightarrow> bool list" where
  "pocBits (PocLsb n) = ueBits 0 @ ueBits n"
| "pocBits (PocCycle z a b xs) = ueBits 1 @ [z] @ ueBits (seCode a) @ ueBits (seCode b) @ ueBits (length xs)
     @ concat (map (ueBits \<circ> seCode) xs)"
| "pocBits (PocNone n) = ueBits (n + 2)"

fun cropBits :: "(nat \<times> nat \<times> nat \<times> nat) option \<Rightarrow> bool list" where
  "cropBits None = [False]"
| "cropBits (Some (l, r, t, b)) = [True] @ ueBits l @ ueBits r @ ueBits t @ ueBits b"

definition spsBits :: "spsSyntax \<Rightarrow> bool list" where
  "spsBits s =
     natBits 8 (unat (nalHeader s)) @ natBits 8 (unat (profile s)) @ natBits 8 (unat (constraints s))
     @ natBits 8 (unat (level s)) @ ueBits (spsId s) @ (if isHigh s then chromaBits (chroma s) else [])
     @ ueBits (frameNumBits s) @ pocBits (poc s) @ ueBits (refFrames s) @ [gapsAllowed s]
     @ ueBits (widthMbsMinus1 s) @ ueBits (heightUnitsMinus1 s) @ [frameMbsOnly s]
     @ (if frameMbsOnly s then [] else [adaptiveFields s]) @ [direct8x8 s] @ cropBits (crop s)"

text \<open>The codes have at most 63 bits.\<close>

definition codeOk :: "nat \<Rightarrow> bool" where
  "codeOk v \<longleftrightarrow> v < 2 ^ 32 - 1"

fun pocOk :: "pocSyntax \<Rightarrow> bool" where
  "pocOk (PocLsb n) \<longleftrightarrow> codeOk n"
| "pocOk (PocCycle z a b xs) \<longleftrightarrow> codeOk (seCode a) \<and> codeOk (seCode b) \<and> codeOk (length xs)
     \<and> (\<forall>x \<in> set xs. codeOk (seCode x))"
| "pocOk (PocNone n) \<longleftrightarrow> codeOk (n + 2)"

fun cropOk :: "(nat \<times> nat \<times> nat \<times> nat) option \<Rightarrow> bool" where
  "cropOk None \<longleftrightarrow> True"
| "cropOk (Some (l, r, t, b)) \<longleftrightarrow> codeOk l \<and> codeOk r \<and> codeOk t \<and> codeOk b"

definition spsOk :: "spsSyntax \<Rightarrow> bool" where
  "spsOk s \<longleftrightarrow> codeOk (spsId s) \<and> codeOk (chromaFormat (chroma s)) \<and> codeOk (lumaDepth (chroma s))
     \<and> codeOk (chromaDepth (chroma s)) \<and> codeOk (frameNumBits s) \<and> pocOk (poc s) \<and> codeOk (refFrames s)
     \<and> codeOk (widthMbsMinus1 s) \<and> codeOk (heightUnitsMinus1 s) \<and> cropOk (crop s)"

text \<open>One step of the reader per element of the syntax.\<close>

lemmas ue = readExpGolomb_ahead [folded codeOk_def] and se = readSignedEG_ahead [folded codeOk_def]

lemma code_eq: "codeOk v \<Longrightarrow> m < 2 ^ 32 \<Longrightarrow> (of_nat v :: u32) = of_nat m \<longleftrightarrow> v = m"
  by (simp add: codeOk_def word_of_nat_eq_iff take_bit_nat_eq_self)

lemma skipHighProfile_ahead:
  assumes "ahead (chromaBits c) r" and "codeOk (chromaFormat c)" "codeOk (lumaDepth c)" "codeOk (chromaDepth c)"
  shows "skipHighProfile r = skip (length (chromaBits c)) r"
proof -
  let ?a = "skip (length (ueBits (chromaFormat c))) r"
  let ?b = "if chromaFormat c = 3 then skip 1 ?a else ?a"
  let ?d = "skip (length (ueBits (lumaDepth c))) ?b"
  let ?e = "skip (length (ueBits (chromaDepth c))) ?d"
  have h: "ahead (ueBits (chromaFormat c)) r" "ahead (ueBits (lumaDepth c)) ?b" "ahead (ueBits (chromaDepth c)) ?d"
    "ahead [False] (skip 1 ?e)"
    using assms(1) by (auto simp: chromaBits_def ahead_append ahead_Cons add.assoc split: if_splits)
  have "(of_nat (chromaFormat c) :: u32) = 3 \<longleftrightarrow> chromaFormat c = 3"
    using code_eq [OF assms(2), of 3] by simp
  then have "skipHighProfile r = skip 1 (skip 1 ?e)"
    using readBits_1 [OF h(4)]
    by (simp only: skipHighProfile_def ue [OF h(1) assms(2)] Let_def prod.case) 
       (simp add: ue [OF h(2) assms(3)] ue [OF h(3) assms(4)])
  also have "\<dots> = skip (length (chromaBits c)) r" by (simp add: chromaBits_def add.assoc)
  finally show ?thesis .
qed

lemma skip_codes:
  "ahead (concat (map (ueBits \<circ> seCode) xs)) r \<Longrightarrow> \<forall>x \<in> set xs. codeOk (seCode x)
    \<Longrightarrow> ((snd \<circ> readSignedEG) ^^ length xs) r = skip (length (concat (map (ueBits \<circ> seCode) xs))) r"
proof (induction xs arbitrary: r)
  case (Cons x xs)
  then show ?case using se [of "seCode x" r]
    by (simp add: ahead_append funpow_Suc_right del: funpow.simps)
qed simp

lemma skipPicOrder_ahead:
  assumes "ahead (pocBits p) r" and "pocOk p"
  shows "skipPicOrder r = skip (length (pocBits p)) r"
proof (cases p)
  case (PocLsb n)
  then show ?thesis using assms ue [of 0 r] ue [of n]
    by (simp add: skipPicOrder_def ahead_append codeOk_def)
next
  case (PocNone n)
  have "(of_nat (n + 2) :: u32) \<noteq> 0" "(of_nat (n + 2) :: u32) \<noteq> 1"
    using assms(2) PocNone code_eq [of "n + 2" 0] code_eq [of "n + 2" 1] by simp_all
  then show ?thesis using assms PocNone ue [of "n + 2" r]
    by (simp add: skipPicOrder_def del: of_nat_add)
next
  case (PocCycle z a b xs)
  let ?r1 = "skip (length (ueBits 1)) r"
  let ?r2 = "skip (length (ueBits (seCode a))) (skip 1 ?r1)"
  let ?r3 = "skip (length (ueBits (seCode b))) ?r2"
  let ?r4 = "skip (length (ueBits (length xs))) ?r3"
  have h: "ahead (ueBits 1) r" "ahead (ueBits (seCode a)) (skip 1 ?r1)" "ahead (ueBits (seCode b)) ?r2"
    "ahead (ueBits (length xs)) ?r3" "ahead (concat (map (ueBits \<circ> seCode) xs)) ?r4"
    using assms(1) by (auto simp: PocCycle ahead_append ahead_Cons add.assoc)
  have ok: "codeOk 1" "codeOk (seCode a)" "codeOk (seCode b)" "codeOk (length xs)" "\<forall>x \<in> set xs. codeOk (seCode x)"
    using assms(2) by (simp_all add: PocCycle) (simp add: codeOk_def)
  have "unat (of_nat (length xs) :: u32) = length xs"
    using ok(4) by (simp add: codeOk_def unsigned_of_nat take_bit_nat_eq_self)
  then have "skipPicOrder r = skip (length (concat (map (ueBits \<circ> seCode) xs))) ?r4"
    using skip_codes [OF h(5) ok(5)] se [OF h(2) ok(2)] se [OF h(3) ok(3)] ue [OF h(4) ok(4)]
    by (simp only: skipPicOrder_def ue [OF h(1) ok(1)] Let_def prod.case) simp
  then show ?thesis by (simp add: PocCycle add.assoc)
qed

lemma uint_code: "codeOk v \<Longrightarrow> uint (of_nat v :: u32) = int v"
  by (simp add: codeOk_def uint_word_of_int unsigned_of_nat take_bit_nat_eq_self)

lemma readCrop_ahead:
  assumes "ahead (cropBits c) r" and "cropOk c"
  shows "readCrop r = (case c of None \<Rightarrow> (0, 0, 0, 0) | Some (a, b, d, e) \<Rightarrow> (int a, int b, int d, int e))"
proof (cases c)
  case None
  then show ?thesis using assms readBits_1 [of False r] by (simp add: readCrop_def)
next
  case (Some x)
  then obtain a b d e where c: "c = Some (a, b, d, e)" by (cases x) auto
  let ?r1 = "skip 1 r"
  let ?r2 = "skip (length (ueBits a)) ?r1"
  let ?r3 = "skip (length (ueBits b)) ?r2"
  let ?r4 = "skip (length (ueBits d)) ?r3"
  have h: "ahead [True] r" "ahead (ueBits a) ?r1" "ahead (ueBits b) ?r2" "ahead (ueBits d) ?r3" "ahead (ueBits e) ?r4"
    using assms(1) by (auto simp: c ahead_append ahead_Cons add.assoc)
  have ok: "codeOk a" "codeOk b" "codeOk d" "codeOk e" using assms(2) by (simp_all add: c)
  show ?thesis
    by (simp only: readCrop_def readBits_1 [OF h(1)] Let_def prod.case ue [OF h(2) ok(1)] ue [OF h(3) ok(2)]
        ue [OF h(4) ok(3)] ue [OF h(5) ok(4)]) (simp add: c uint_code ok)
qed

text \<open>The bits of a byte string.\<close>

definition bitsOf :: "bytes \<Rightarrow> bool list" where
  "bitsOf b = concat (map (natBits 8 \<circ> unat) b)"

lemma bitsOf_nth: "k < length (bitsOf b) \<Longrightarrow> bitsOf b ! k = bitAt b k"
proof (induction b arbitrary: k)
  case (Cons x b)
  have "natBits 8 (unat x) ! k = bitAt (x # b) k" if "k < 8"
    using that by (simp add: natBits_def bitAt_def bit_unsigned_iff)
  moreover have "bitsOf b ! (k - 8) = bitAt (x # b) k" if "8 \<le> k"
  proof -
    from that obtain j where "k = j + 8" by (metis add.commute le_Suc_ex)
    moreover have "(j + 8) div 8 = Suc (j div 8)" by simp
    ultimately show ?thesis using Cons by (simp add: bitsOf_def bitAt_def)
  qed
  ultimately show ?case using Cons.prems by (simp add: bitsOf_def nth_append)
qed (simp add: bitsOf_def)

lemma ahead_bitsOf: "bitsOf b = bs @ rest \<Longrightarrow> ahead bs \<lparr>bdata = b, boff = 0\<rparr>"
proof -
  assume b: "bitsOf b = bs @ rest"
  have "bitAt b i = bs ! i" if "i < length bs" for i
    using bitsOf_nth [of i b] that by (simp add: b nth_append)
  then show ?thesis by (simp add: ahead_def)
qed

section \<open>Properties\<close>


text \<open>A parameter set of the High profile with 1920 by 1080 samples.\<close>

definition exampleSps :: spsSyntax where
  "exampleSps = \<lparr>nalHeader = 0x67, profile = 100, constraints = 0, level = 31, spsId = 0,
     chroma = \<lparr>chromaFormat = 1, separatePlanes = False, lumaDepth = 0, chromaDepth = 0, bypass = False\<rparr>,
     frameNumBits = 0, poc = PocLsb 2, refFrames = 4, gapsAllowed = False, widthMbsMinus1 = 119,
     heightUnitsMinus1 = 67, frameMbsOnly = True, adaptiveFields = False, direct8x8 = True, crop = Some (0, 0, 0, 4)\<rparr>"

definition exampleSpsBytes :: bytes where
  "exampleSpsBytes = [103, 100, 0, 31, 172, 217, 64, 120, 2, 39, 229, 128]"

lemma example_bits: "bitsOf exampleSpsBytes = spsBits exampleSps @ [True, False, False, False, False, False, False, False]"
  by code_simp


end
