(* ===== verification/Flv.thy ===== *)
theory Flv
  imports Sps
begin

text \<open>
  The media tags of an RTMP publisher (\<^verbatim>\<open>src/internal/ingest/flv.go\<close>): the H.264 and AAC configuration
  records in its sequence headers, parsed and written again for the catalog, and the headers of its
  audio and video data.
\<close>

section \<open>Configuration of H.264\<close>

datatype flvError = ErrShortVideoTag | ErrShortAudioTag | ErrNotAVC | ErrNotAAC | ErrBadAVCConfig | ErrBadAACConfig
  | ErrNotSeqHeader byte | ErrASCShort | ErrNotRaw byte

definition flvCodecIDAVC :: byte where "flvCodecIDAVC = 7"
definition flvAVCSeqHeader :: byte where "flvAVCSeqHeader = 0"
definition flvSoundFormatAAC :: byte where "flvSoundFormatAAC = 10"
definition flvAACSeqHeader :: byte where "flvAACSeqHeader = 0"
definition flvAACRaw :: byte where "flvAACRaw = 1"

record AVCConfig =
  ProfileIDC :: byte
  ProfileCompat :: byte
  LevelIDC :: byte
  NALULenSize :: int
  SPS :: "bytes list"
  PPS :: "bytes list"
  Width :: int
  Height :: int

text \<open>The first pass over one list of parameter sets: the offset after them and their total length.\<close>

fun scanParams :: "nat \<Rightarrow> bytes \<Rightarrow> nat \<Rightarrow> nat \<Rightarrow> flvError + nat \<times> nat" where
  "scanParams 0 buf calcOff totalLen = Inr (calcOff, totalLen)"
| "scanParams (Suc n) buf calcOff totalLen =
     (if calcOff + 2 > length buf then Inl ErrBadAVCConfig
      else let spsLen = unat (Uint16 (drop calcOff buf)); calcOff = calcOff + 2 in
        if calcOff + spsLen > length buf then Inl ErrBadAVCConfig
        else scanParams n buf (calcOff + spsLen) (totalLen + spsLen))"

text \<open>
  The second pass copies each set into one array and keeps the part of the array it takes as an offset
  and a length: the offsets after it, the array and the parts.
\<close>

definition copyAt :: "nat \<Rightarrow> bytes \<Rightarrow> bytes \<Rightarrow> bytes" where
  "copyAt i src dst = (let k = min (length src) (length dst - i) in take i dst @ take k src @ drop (i + k) dst)"

fun copyParams :: "nat \<Rightarrow> bytes \<Rightarrow> nat \<Rightarrow> nat \<Rightarrow> bytes \<Rightarrow> (nat \<times> nat) list
    \<Rightarrow> nat \<times> nat \<times> bytes \<times> (nat \<times> nat) list" where
  "copyParams 0 buf off byteOff paramBytes parts = (off, byteOff, paramBytes, parts)"
| "copyParams (Suc n) buf off byteOff paramBytes parts =
     (let spsLen = unat (Uint16 (drop off buf)); off = off + 2
      in copyParams n buf (off + spsLen) (byteOff + spsLen)
           (copyAt byteOff (take spsLen (drop off buf)) paramBytes) (parts @ [(byteOff, spsLen)]))"

definition partOf :: "bytes \<Rightarrow> nat \<times> nat \<Rightarrow> bytes" where
  "partOf b p = take (snd p) (drop (fst p) b)"

definition parseAVCDecoderConfigurationRecord :: "bytes \<Rightarrow> flvError + AVCConfig" where
  "parseAVCDecoderConfigurationRecord buf =
     (if length buf < 6 then Inl ErrBadAVCConfig
      else let numSPS = unat (buf ! 5 AND 0x1F) in
        bindE (scanParams numSPS buf 6 0) (\<lambda>(calcOff, totalLen).
          if calcOff \<ge> length buf then Inl ErrBadAVCConfig
          else let numPPS = unat (buf ! calcOff) in
            bindE (scanParams numPPS buf (calcOff + 1) totalLen) (\<lambda>(_, totalLen).
              let (off, byteOff, paramBytes, sps) = copyParams numSPS buf 6 0 (replicate totalLen 0) [];
                  numPPS = unat (buf ! off);
                  (_, _, paramBytes, pps) = copyParams numPPS buf (off + 1) byteOff paramBytes [];
                  SPSs = map (partOf paramBytes) sps;
                  (w, h) = (if SPSs \<noteq> [] then parseSPSDimensions (SPSs ! 0) else (0, 0))
              in Inr \<lparr>ProfileIDC = buf ! 1, ProfileCompat = buf ! 2, LevelIDC = buf ! 3,
                   NALULenSize = uint (buf ! 4 AND 0x03) + 1, SPS = SPSs, PPS = map (partOf paramBytes) pps,
                   Width = w, Height = h\<rparr>)))"

definition ParseAVCConfig :: "bytes \<Rightarrow> flvError + AVCConfig" where
  "ParseAVCConfig data =
     (if length data < 6 then Inl ErrShortVideoTag
      else if data ! 0 AND 0x0F \<noteq> flvCodecIDAVC then Inl ErrNotAVC
      else if data ! 1 \<noteq> flvAVCSeqHeader then Inl (ErrNotSeqHeader (data ! 1))
      else parseAVCDecoderConfigurationRecord (drop 5 data))"

definition sinkParamLen :: "bytes list \<Rightarrow> nat" where
  "sinkParamLen nalus = 2 * length nalus + sum_list (map length nalus)"

fun appendParams :: "bytes \<Rightarrow> bytes list \<Rightarrow> flvError + bytes" where
  "appendParams buf [] = Inr buf"
| "appendParams buf (sps # rest) =
     (if length sps > 0xFFFF then Inl ErrBadAVCConfig
      else appendParams (buf @ PutUint16 (of_nat (length sps)) @ sps) rest)"

definition BuildAVCDecoderConfigurationRecord :: "AVCConfig option \<Rightarrow> flvError + bytes" where
  "BuildAVCDecoderConfigurationRecord c =
     (case c of None \<Rightarrow> Inl ErrBadAVCConfig
      | Some cfg \<Rightarrow>
          if NALULenSize cfg < 1 \<or> NALULenSize cfg > 4 then Inl ErrBadAVCConfig
          else if SPS cfg = [] \<or> length (SPS cfg) > 31 then Inl ErrBadAVCConfig
          else if length (PPS cfg) > 255 then Inl ErrBadAVCConfig
          else bindE (appendParams [0x01, ProfileIDC cfg, ProfileCompat cfg, LevelIDC cfg,
                   0xFC OR word_of_int (NALULenSize cfg - 1), 0xE0 OR of_nat (length (SPS cfg))] (SPS cfg))
                 (\<lambda>buf. appendParams (buf @ [of_nat (length (PPS cfg))]) (PPS cfg)))"

text \<open>\<^verbatim>\<open>%02x\<close> of a byte.\<close>

definition hexDigit :: "nat \<Rightarrow> char" where
  "hexDigit n = char_of (if n < 10 then n + 48 else n + 87)"

definition hexByte :: "byte \<Rightarrow> string" where
  "hexByte b = [hexDigit (unat b div 16), hexDigit (unat b mod 16)]"

definition avcCodecString :: "AVCConfig \<Rightarrow> string" where
  "avcCodecString c = ''avc1.'' @ hexByte (ProfileIDC c) @ hexByte (ProfileCompat c) @ hexByte (LevelIDC c)"

section \<open>Configuration of AAC\<close>

record AACConfig =
  ObjectType :: byte
  SampleRate :: int
  ChannelConfig :: int

definition aacSampleRates :: "int list" where
  "aacSampleRates = [96000, 88200, 64000, 48000, 44100, 32000, 24000, 22050, 16000, 12000, 11025, 8000, 7350]"

definition parseAudioSpecificConfig :: "bytes \<Rightarrow> flvError + AACConfig" where
  "parseAudioSpecificConfig asc =
     (if length asc < 2 then Inl ErrASCShort
      else let objectType = drop_bit 3 (asc ! 0) AND 0x1F;
          freqIdx = push_bit 1 (asc ! 0 AND 0x07) OR drop_bit 7 (asc ! 1);
          chanCfg = drop_bit 3 (asc ! 1) AND 0x0F;
          sampleRate = (if unat freqIdx < length aacSampleRates then aacSampleRates ! unat freqIdx else 0)
      in Inr \<lparr>ObjectType = objectType, SampleRate = sampleRate, ChannelConfig = uint chanCfg\<rparr>)"

definition ParseAACConfig :: "bytes \<Rightarrow> flvError + AACConfig" where
  "ParseAACConfig data =
     (if length data < 4 then Inl ErrShortAudioTag
      else if drop_bit 4 (data ! 0) AND 0x0F \<noteq> flvSoundFormatAAC then Inl ErrNotAAC
      else if data ! 1 \<noteq> flvAACSeqHeader then Inl (ErrNotSeqHeader (data ! 1))
      else parseAudioSpecificConfig (drop 2 data))"

fun rateIndexFrom :: "nat \<Rightarrow> int list \<Rightarrow> int \<Rightarrow> nat option" where
  "rateIndexFrom i [] hz = None"
| "rateIndexFrom i (r # rs) hz = (if r = hz then Some i else rateIndexFrom (Suc i) rs hz)"

definition aacSampleRateIndex :: "int \<Rightarrow> nat option" where
  "aacSampleRateIndex hz = rateIndexFrom 0 aacSampleRates hz"

definition BuildAudioSpecificConfig :: "AACConfig option \<Rightarrow> flvError + bytes" where
  "BuildAudioSpecificConfig c =
     (case c of None \<Rightarrow> Inl ErrBadAACConfig
      | Some cfg \<Rightarrow>
          if ObjectType cfg < 1 \<or> ObjectType cfg > 31 then Inl ErrBadAACConfig
          else if ChannelConfig cfg < 1 \<or> ChannelConfig cfg > 15 then Inl ErrBadAACConfig
          else case aacSampleRateIndex (SampleRate cfg) of
              None \<Rightarrow> Inl ErrBadAACConfig
            | Some freqIdx \<Rightarrow>
                Inr [push_bit 3 (ObjectType cfg) OR of_nat (freqIdx div 2),
                     push_bit 7 (of_nat (freqIdx mod 2)) OR word_of_int (ChannelConfig cfg * 8)])"

section \<open>Tags\<close>

definition StripFLVAudioHeader :: "bytes \<Rightarrow> flvError + bytes" where
  "StripFLVAudioHeader data =
     (if length data < 2 then Inl ErrShortAudioTag
      else if drop_bit 4 (data ! 0) AND 0x0F \<noteq> flvSoundFormatAAC then Inl ErrNotAAC
      else if data ! 1 \<noteq> flvAACRaw then Inl (ErrNotRaw (data ! 1))
      else Inr (drop 2 data))"

definition IsVideoSequenceHeader :: "bytes \<Rightarrow> bool" where
  "IsVideoSequenceHeader data \<longleftrightarrow>
     2 \<le> length data \<and> data ! 0 AND 0x0F = flvCodecIDAVC \<and> data ! 1 = flvAVCSeqHeader"

definition IsAudioSequenceHeader :: "bytes \<Rightarrow> bool" where
  "IsAudioSequenceHeader data \<longleftrightarrow>
     2 \<le> length data \<and> drop_bit 4 (data ! 0) AND 0x0F = flvSoundFormatAAC \<and> data ! 1 = flvAACSeqHeader"

text \<open>The composition time of a video tag, a 24-bit signed number of milliseconds.\<close>

definition parseFLVVideoCTS :: "bytes \<Rightarrow> int" where
  "parseFLVVideoCTS data =
     (let cts = Uint24 (data ! 2) (data ! 3) (data ! 4);
          cts = (if cts AND 0x800000 \<noteq> 0 then cts OR NOT 0xFFFFFF else cts)
      in sint cts)"

definition isVideoKeyframe :: "bytes \<Rightarrow> bool" where
  "isVideoKeyframe data \<longleftrightarrow> data \<noteq> [] \<and> drop_bit 4 (data ! 0) AND 0x07 = 1"

section \<open>Lists of parameter sets\<close>

text \<open>The layout both passes read: each set with its length in front.\<close>

definition encodeParams :: "bytes list \<Rightarrow> bytes" where
  "encodeParams ps = concat (map (\<lambda>p. PutUint16 (of_nat (length p)) @ p) ps)"

definition paramsOk :: "bytes list \<Rightarrow> bool" where
  "paramsOk ps \<longleftrightarrow> (\<forall>p \<in> set ps. length p \<le> 0xFFFF)"

fun partsFrom :: "nat \<Rightarrow> bytes list \<Rightarrow> (nat \<times> nat) list" where
  "partsFrom i [] = []"
| "partsFrom i (p # ps) = (i, length p) # partsFrom (i + length p) ps"

lemma params_simps [simp]:
  "encodeParams [] = []" "encodeParams (p # ps) = PutUint16 (of_nat (length p)) @ p @ encodeParams ps"
  "paramsOk []" "paramsOk (p # ps) \<longleftrightarrow> length p \<le> 0xFFFF \<and> paramsOk ps"
  by (simp_all add: encodeParams_def paramsOk_def)

lemma length_encodeParams: "length (encodeParams ps) = sinkParamLen ps"
  by (induction ps) (simp_all add: sinkParamLen_def)

lemma Uint16_prefix: "Uint16 (PutUint16 v @ r) = v"
  using Uint16_Put [of v] by (simp add: Uint16_def PutUint16_def)

lemma unat_length16: "length p \<le> 0xFFFF \<Longrightarrow> unat (of_nat (length p) :: u16) = length p"
  by (simp add: unsigned_of_nat take_bit_nat_eq_self)

lemma appendParams_ok: "appendParams buf ps = (if paramsOk ps then Inr (buf @ encodeParams ps) else Inl ErrBadAVCConfig)"
  by (induction ps arbitrary: buf) auto

lemma scanParams_encode:
  "paramsOk ps \<Longrightarrow> scanParams (length ps) (pre @ encodeParams ps @ r) (length pre) t
    = Inr (length pre + sinkParamLen ps, t + length (concat ps))"
proof (induction ps arbitrary: pre t)
  case (Cons p ps)
  then show ?case using Cons.IH [of "pre @ PutUint16 (of_nat (length p)) @ p" "t + length p"]
    by (simp add: Uint16_prefix unat_length16 sinkParamLen_def Let_def ac_simps)
qed (simp add: sinkParamLen_def)

lemma two_bytes:
  assumes "2 \<le> length b"
  shows "take 2 b = PutUint16 (Uint16 b)"
proof -
  from assms obtain x y r where b: "b = x # y # r" by (cases b; cases "tl b") auto
  have "ucast (drop_bit 8 (ucast y OR push_bit 8 (ucast x) :: u16)) = x" "ucast (ucast y OR push_bit 8 (ucast x) :: u16) = y"
    by (rule bit_word_eqI, auto simp: bit_simps dest: bit_imp_le_length)+
  then show ?thesis by (simp add: b PutUint16_def Uint16_def)
qed

lemma scanParams_decode:
  assumes "scanParams n buf off t = Inr (off', t')" and "off \<le> length buf"
  shows "\<exists>ps. length ps = n \<and> paramsOk ps \<and> buf = take off buf @ encodeParams ps @ drop off' buf
    \<and> off' = off + sinkParamLen ps \<and> t' = t + length (concat ps) \<and> off' \<le> length buf"
  using assms
proof (induction n arbitrary: off t)
  case 0
  then show ?case by (auto simp: sinkParamLen_def)
next
  case (Suc n)
  let ?l = "unat (Uint16 (drop off buf))"
  let ?p = "take ?l (drop (off + 2) buf)"
  have fits: "off + 2 + ?l \<le> length buf" and rest: "scanParams n buf (off + 2 + ?l) (t + ?l) = Inr (off', t')"
    using Suc.prems(1) by (auto simp: Let_def split: if_splits)
  from Suc.IH [OF rest] fits obtain ps where ps: "length ps = n" "paramsOk ps"
    "buf = take (off + 2 + ?l) buf @ encodeParams ps @ drop off' buf" "off' = off + 2 + ?l + sinkParamLen ps"
    "t' = t + ?l + length (concat ps)" "off' \<le> length buf" by auto
  have lp: "length ?p = ?l" using fits by simp
  have "?l \<le> 0xFFFF" using unat_u16_less [of "Uint16 (drop off buf)"] by simp
  moreover have "take 2 (drop off buf) = PutUint16 (Uint16 (drop off buf))"
    using fits by (intro two_bytes) simp
  moreover have "take (off + 2 + ?l) buf = take off buf @ take 2 (drop off buf) @ ?p"
    by (simp only: take_add append_assoc)
  ultimately show ?case using ps lp fits
    by (intro exI [of _ "?p # ps"]) (auto simp: sinkParamLen_def)
qed

lemma copyAt_append:
  assumes "length x = i" and "length y = length src"
  shows "copyAt i src (x @ y @ z) = x @ src @ z"
  using assms by (simp add: copyAt_def Let_def)

lemma copyParams_encode:
  assumes "paramsOk ps" and "length x = bo" and "length y = length (concat ps)"
  shows "copyParams (length ps) (pre @ encodeParams ps @ r) (length pre) bo (x @ y @ z) parts
    = (length pre + sinkParamLen ps, bo + length (concat ps), x @ concat ps @ z, parts @ partsFrom bo ps)"
  using assms
proof (induction ps arbitrary: pre bo x y parts)
  case (Cons p ps)
  let ?y = "take (length p) y" and ?y' = "drop (length p) y"
  have "copyAt bo p (x @ (?y @ ?y') @ z) = (x @ p) @ ?y' @ z"
    using Cons.prems by (simp add: copyAt_def Let_def)
  then have cp: "copyAt bo p (x @ y @ z) = (x @ p) @ ?y' @ z" by simp
  have "copyParams (length ps) ((pre @ PutUint16 (of_nat (length p)) @ p) @ encodeParams ps @ r)
      (length (pre @ PutUint16 (of_nat (length p)) @ p)) (bo + length p) ((x @ p) @ ?y' @ z) (parts @ [(bo, length p)])
    = (length (pre @ PutUint16 (of_nat (length p)) @ p) + sinkParamLen ps, bo + length p + length (concat ps),
       (x @ p) @ concat ps @ z, (parts @ [(bo, length p)]) @ partsFrom (bo + length p) ps)"
    using Cons.prems by (intro Cons.IH) auto
  with Cons.prems show ?case
    by (simp add: Uint16_prefix unat_length16 Let_def cp sinkParamLen_def ac_simps)
qed (simp add: sinkParamLen_def)

lemma parts_of: "map (partOf (x @ concat ps @ y)) (partsFrom (length x) ps) = ps"
proof (induction ps arbitrary: x)
  case (Cons p ps)
  then show ?case using Cons.IH [of "x @ p"] by (simp add: partOf_def)
qed simp

text \<open>The record of a configuration, and what the parser makes of it.\<close>

definition configOf :: "bytes \<Rightarrow> bytes list \<Rightarrow> bytes list \<Rightarrow> AVCConfig" where
  "configOf hdr sps pps =
     (let (w, h) = (if sps \<noteq> [] then parseSPSDimensions (hd sps) else (0, 0))
      in \<lparr>ProfileIDC = hdr ! 1, ProfileCompat = hdr ! 2, LevelIDC = hdr ! 3, NALULenSize = uint (hdr ! 4 AND 0x03) + 1,
          SPS = sps, PPS = pps, Width = w, Height = h\<rparr>)"

lemma parse_layout:
  assumes ok: "paramsOk sps" "paramsOk pps" and hdr: "length hdr = 6"
    and num: "unat (hdr ! 5 AND 0x1F) = length sps" "unat n = length pps"
  shows "parseAVCDecoderConfigurationRecord (hdr @ encodeParams sps @ [n] @ encodeParams pps @ r) = Inr (configOf hdr sps pps)"
proof -
  let ?buf = "hdr @ encodeParams sps @ [n] @ encodeParams pps @ r"
  let ?pre = "hdr @ encodeParams sps @ [n]"
  let ?off = "6 + sinkParamLen sps"
  let ?total = "length (concat sps) + length (concat pps)"
  have scan1: "scanParams (length sps) ?buf 6 0 = Inr (?off, length (concat sps))"
    using scanParams_encode [OF ok(1), of hdr "[n] @ encodeParams pps @ r" 0] hdr by simp
  have scan2: "scanParams (length pps) ?buf (?off + 1) (length (concat sps)) = Inr (?off + 1 + sinkParamLen pps, ?total)"
    using scanParams_encode [OF ok(2), of ?pre r "length (concat sps)"] hdr by (simp add: length_encodeParams)
  have copy1: "copyParams (length sps) ?buf 6 0 (replicate ?total 0) []
      = (?off, length (concat sps), concat sps @ replicate (length (concat pps)) 0, partsFrom 0 sps)"
    using copyParams_encode [OF ok(1), of "[]" 0 "replicate (length (concat sps)) 0" hdr "[n] @ encodeParams pps @ r"] hdr
    by (simp add: replicate_add)
  have copy2: "copyParams (length pps) ?buf (?off + 1) (length (concat sps)) (concat sps @ replicate (length (concat pps)) 0) []
      = (?off + 1 + sinkParamLen pps, ?total, concat sps @ concat pps, partsFrom (length (concat sps)) pps)"
    using copyParams_encode [OF ok(2), of "concat sps" "length (concat sps)" "replicate (length (concat pps)) 0" ?pre r "[]"] hdr
    by (simp add: length_encodeParams)
  have at: "?buf ! ?off = n" "?off < length ?buf" "?buf ! 5 = hdr ! 5" "\<not> length ?buf < 6"
    "?buf ! 1 = hdr ! 1" "?buf ! 2 = hdr ! 2" "?buf ! 3 = hdr ! 3" "?buf ! 4 = hdr ! 4"
    using hdr by (simp_all add: nth_append length_encodeParams)
  have parts: "map (partOf (concat sps @ concat pps)) (partsFrom 0 sps) = sps"
    "map (partOf (concat sps @ concat pps)) (partsFrom (length (concat sps)) pps) = pps"
    using parts_of [of "[]" sps "concat pps"] parts_of [of "concat sps" pps "[]"] by simp_all
  show ?thesis
    by (simp only: parseAVCDecoderConfigurationRecord_def at num Let_def scan1 scan2 copy1 copy2 parts
        bindE_simps prod.case if_False) (use hdr in \<open>simp add: configOf_def hd_conv_nth length_encodeParams split: prod.splits\<close>)
qed

definition avcOk :: "AVCConfig \<Rightarrow> bool" where
  "avcOk cfg \<longleftrightarrow> 1 \<le> NALULenSize cfg \<and> NALULenSize cfg \<le> 4 \<and> SPS cfg \<noteq> [] \<and> length (SPS cfg) \<le> 31
     \<and> length (PPS cfg) \<le> 255 \<and> paramsOk (SPS cfg) \<and> paramsOk (PPS cfg)"

definition recordHeader :: "AVCConfig \<Rightarrow> bytes" where
  "recordHeader cfg = [0x01, ProfileIDC cfg, ProfileCompat cfg, LevelIDC cfg,
     0xFC OR word_of_int (NALULenSize cfg - 1), 0xE0 OR of_nat (length (SPS cfg))]"

lemma Build_ok:
  "BuildAVCDecoderConfigurationRecord (Some cfg) =
    (if avcOk cfg then Inr (recordHeader cfg @ encodeParams (SPS cfg) @ [of_nat (length (PPS cfg))] @ encodeParams (PPS cfg))
     else Inl ErrBadAVCConfig)"
  by (auto simp: BuildAVCDecoderConfigurationRecord_def avcOk_def appendParams_ok recordHeader_def)

lemma mask5: "(x :: byte) AND 0x1F = take_bit 5 x"
  by (simp add: take_bit_eq_mask mask_eq_exp_minus_1)

lemma header_numbers:
  assumes "avcOk cfg"
  shows "unat (recordHeader cfg ! 5 AND 0x1F) = length (SPS cfg)"
    and "uint (recordHeader cfg ! 4 AND 0x03) + 1 = NALULenSize cfg"
    and "unat (of_nat (length (PPS cfg)) :: byte) = length (PPS cfg)"
proof -
  have "(0xE0 OR x) AND 0x1F = (x AND 0x1F :: byte)" for x by (simp add: bit.conj_disj_distrib2)
  then have "unat (recordHeader cfg ! 5 AND 0x1F) = take_bit 5 (unat (of_nat (length (SPS cfg)) :: byte))"
    by (simp add: recordHeader_def unsigned_take_bit_eq mask5)
  also have "\<dots> = length (SPS cfg)"
    using assms by (simp add: avcOk_def unsigned_of_nat take_bit_nat_eq_self)
  finally show "unat (recordHeader cfg ! 5 AND 0x1F) = length (SPS cfg)" .
  from assms have "NALULenSize cfg \<in> {1, 2, 3, 4}" by (auto simp: avcOk_def)
  then show "uint (recordHeader cfg ! 4 AND 0x03) + 1 = NALULenSize cfg" by (auto simp: recordHeader_def)
  show "unat (of_nat (length (PPS cfg)) :: byte) = length (PPS cfg)"
    using assms by (simp add: avcOk_def unsigned_of_nat take_bit_nat_eq_self)
qed

lemma parse_Build:
  assumes "avcOk cfg" and "BuildAVCDecoderConfigurationRecord (Some cfg) = Inr b"
  shows "parseAVCDecoderConfigurationRecord (b @ r)
    = Inr (cfg\<lparr>Width := fst (parseSPSDimensions (hd (SPS cfg))), Height := snd (parseSPSDimensions (hd (SPS cfg)))\<rparr>)"
proof -
  have "paramsOk (SPS cfg)" "paramsOk (PPS cfg)" "length (recordHeader cfg) = 6" "SPS cfg \<noteq> []"
    using assms(1) by (simp_all add: avcOk_def recordHeader_def)
  with parse_layout [OF this(1-3) header_numbers(1,3) [OF assms(1)], of r] assms header_numbers(2) [OF assms(1)]
  show ?thesis by (auto simp: Build_ok configOf_def recordHeader_def split: prod.splits)
qed

lemma parse_decode:
  assumes "parseAVCDecoderConfigurationRecord buf = Inr cfg"
  shows "\<exists>sps pps r. paramsOk sps \<and> paramsOk pps \<and> length sps \<le> 31 \<and> length pps \<le> 255 \<and> 6 \<le> length buf
    \<and> buf = take 6 buf @ encodeParams sps @ [of_nat (length pps)] @ encodeParams pps @ r \<and> cfg = configOf (take 6 buf) sps pps"
proof -
  let ?n = "unat (buf ! 5 AND 0x1F)"
  from assms obtain off t off' t' where len: "6 \<le> length buf" and s1: "scanParams ?n buf 6 0 = Inr (off, t)"
    and off: "off < length buf" and s2: "scanParams (unat (buf ! off)) buf (off + 1) t = Inr (off', t')"
    by (auto simp: parseAVCDecoderConfigurationRecord_def Let_def bindE_Inr_iff split: if_splits)
  from scanParams_decode [OF s1 len] obtain sps where sps: "length sps = ?n" "paramsOk sps"
    "buf = take 6 buf @ encodeParams sps @ drop off buf" by auto
  from scanParams_decode [OF s2] off obtain pps where pps: "length pps = unat (buf ! off)" "paramsOk pps"
    "buf = take (off + 1) buf @ encodeParams pps @ drop off' buf" by auto
  have "take (off + 1) buf = take off buf @ [buf ! off]" using off by (simp add: take_Suc_conv_app_nth)
  moreover have "take off buf = take 6 buf @ encodeParams sps" using sps(3) off by (metis append_assoc append_take_drop_id append_same_eq)
  ultimately have buf: "buf = take 6 buf @ encodeParams sps @ [buf ! off] @ encodeParams pps @ drop off' buf"
    using pps(3) by simp
  have n: "?n \<le> 31"
    using take_bit_nat_less_exp [of 5 "unat (buf ! 5)"] by (simp add: mask5 unsigned_take_bit_eq)
  have m: "unat (buf ! off) \<le> 255" using unsigned_less [of "buf ! off", where ?'a = nat] by simp
  have "parseAVCDecoderConfigurationRecord (take 6 buf @ encodeParams sps @ [buf ! off] @ encodeParams pps @ drop off' buf)
      = Inr (configOf (take 6 buf) sps pps)"
    using sps(1,2) pps(1,2) len by (intro parse_layout) simp_all
  then have "parseAVCDecoderConfigurationRecord buf = Inr (configOf (take 6 buf) sps pps)" by (simp only: buf [symmetric])
  with assms have "cfg = configOf (take 6 buf) sps pps" by simp
  moreover have e: "of_nat (length pps) = buf ! off" by (simp add: pps(1))
  have "buf = take 6 buf @ encodeParams sps @ [of_nat (length pps)] @ encodeParams pps @ drop off' buf"
    unfolding e by (rule buf)
  moreover have "length sps \<le> 31" "length pps \<le> 255" using n m by (simp_all add: sps(1) pps(1))
  ultimately show ?thesis using sps(2) pps(2) len by blast
qed

section \<open>The AAC record\<close>

definition aacOk :: "AACConfig \<Rightarrow> bool" where
  "aacOk cfg \<longleftrightarrow> 1 \<le> ObjectType cfg \<and> ObjectType cfg \<le> 31 \<and> 1 \<le> ChannelConfig cfg \<and> ChannelConfig cfg \<le> 15
     \<and> SampleRate cfg \<in> set aacSampleRates"

lemma rateIndexFrom_ok:
  "rateIndexFrom i rs hz = (if hz \<in> set rs then Some (i + length (takeWhile (\<lambda>r. r \<noteq> hz) rs)) else None)"
  by (induction rs arbitrary: i) auto

lemma rate_index:
  "aacSampleRateIndex hz = (if hz \<in> set aacSampleRates then Some (length (takeWhile (\<lambda>r. r \<noteq> hz) aacSampleRates)) else None)"
  by (simp add: aacSampleRateIndex_def rateIndexFrom_ok)

lemma rate_at:
  assumes "aacSampleRateIndex hz = Some i"
  shows "i < 13" and "aacSampleRates ! i = hz"
proof -
  from assms have i: "hz \<in> set aacSampleRates" "i = length (takeWhile (\<lambda>r. r \<noteq> hz) aacSampleRates)"
    by (simp_all add: rate_index split: if_splits)
  then have l: "i < length aacSampleRates"
    by (metis (mono_tags, lifting) length_takeWhile_le le_neq_implies_less takeWhile_eq_all_conv takeWhile_eq_take take_all_iff order_refl)
  then show "i < 13" by (simp add: aacSampleRates_def)
  show "aacSampleRates ! i = hz" using nth_length_takeWhile [of "\<lambda>r. r \<noteq> hz" aacSampleRates] l i by simp
qed

lemma first_byte:
  fixes t g :: byte
  assumes "t \<le> 31" and "g < 8"
  shows "drop_bit 3 (push_bit 3 t OR g) AND 0x1F = t" "(push_bit 3 t OR g) AND 0x07 = g"
proof -
  have t: "take_bit 5 t = t" and g: "take_bit 3 g = g"
    using assms by (simp_all add: word_unat_eq_iff unsigned_take_bit_eq take_bit_nat_eq_self word_le_nat_alt word_less_nat_alt)
  have dg: "drop_bit 3 g = 0" using g by (metis drop_bit_take_bit diff_self_eq_0 take_bit_0)
  have "drop_bit 3 (push_bit 3 t) = take_bit 5 t" by (rule bit_word_eqI) (auto simp: bit_simps)
  then show "drop_bit 3 (push_bit 3 t OR g) AND 0x1F = t" using t dg by (simp add: drop_bit_or mask5)
  have "take_bit 3 (push_bit 3 t) = 0" by (simp add: take_bit_push_bit)
  moreover have "(x :: byte) AND 0x07 = take_bit 3 x" for x by (simp add: take_bit_eq_mask mask_eq_exp_minus_1)
  ultimately show "(push_bit 3 t OR g) AND 0x07 = g" using g by (simp add: take_bit_or)
qed

lemma second_byte:
  assumes "1 \<le> c" and "c \<le> 15" and "i < 13"
  defines "b \<equiv> push_bit 7 (of_nat (i mod 2)) OR word_of_int (c * 8) :: byte"
  shows "unat (push_bit 1 (of_nat (i div 2)) OR drop_bit 7 b) = i" "uint (drop_bit 3 b AND 0x0F) = c"
proof -
  have "c = 1 \<or> c = 2 \<or> c = 3 \<or> c = 4 \<or> c = 5 \<or> c = 6 \<or> c = 7 \<or> c = 8 \<or> c = 9 \<or> c = 10 \<or> c = 11 \<or> c = 12
      \<or> c = 13 \<or> c = 14 \<or> c = 15"
    using assms(1,2) by presburger
  moreover have "i = 0 \<or> i = 1 \<or> i = 2 \<or> i = 3 \<or> i = 4 \<or> i = 5 \<or> i = 6 \<or> i = 7 \<or> i = 8 \<or> i = 9 \<or> i = 10 \<or> i = 11 \<or> i = 12"
    using assms(3) by presburger
  ultimately show "unat (push_bit 1 (of_nat (i div 2)) OR drop_bit 7 b) = i" "uint (drop_bit 3 b AND 0x0F) = c"
    by (auto simp: b_def)
qed

lemma aac_Build:
  assumes "aacOk cfg"
  shows "\<exists>b. BuildAudioSpecificConfig (Some cfg) = Inr b \<and> length b = 2 \<and> parseAudioSpecificConfig (b @ r) = Inr cfg"
proof -
  from assms obtain i where i: "aacSampleRateIndex (SampleRate cfg) = Some i" by (auto simp: aacOk_def rate_index)
  note at = rate_at [OF i]
  have ok: "ObjectType cfg \<le> 31" "1 \<le> ChannelConfig cfg" "ChannelConfig cfg \<le> 15" "\<not> ObjectType cfg < 1"
    using assms by (auto simp: aacOk_def)
  have "i div 2 < 8" using at(1) by simp
  then have g: "(of_nat (i div 2) :: byte) < 8" by (simp add: word_less_nat_alt unsigned_of_nat take_bit_nat_eq_self)
  define b0 where "b0 = (push_bit 3 (ObjectType cfg) OR of_nat (i div 2) :: byte)"
  define b1 where "b1 = (push_bit 7 (of_nat (i mod 2)) OR word_of_int (ChannelConfig cfg * 8) :: byte)"
  note one = first_byte [OF ok(1) g, folded b0_def] and two = second_byte [OF ok(2,3) at(1), folded b1_def]
  have "BuildAudioSpecificConfig (Some cfg) = Inr [b0, b1]"
    using i ok by (simp add: BuildAudioSpecificConfig_def b0_def b1_def)
  moreover have "length aacSampleRates = 13" by (simp add: aacSampleRates_def)
  then have "parseAudioSpecificConfig ([b0, b1] @ r) = Inr cfg"
    using at(1) two by (simp add: parseAudioSpecificConfig_def one at(2) del: push_bit_of_Suc_0 push_bit_numeral push_bit_Suc_numeral)
  ultimately show ?thesis by auto
qed

lemma aac_Build_iff: "BuildAudioSpecificConfig (Some cfg) = Inl ErrBadAACConfig \<longleftrightarrow> \<not> aacOk cfg"
  by (auto simp: BuildAudioSpecificConfig_def aacOk_def rate_index not_le not_less split: option.splits)

lemma config_reparse:
  assumes "parseAVCDecoderConfigurationRecord buf = Inr cfg" and ne: "SPS cfg \<noteq> []"
  shows "\<exists>b r. BuildAVCDecoderConfigurationRecord (Some cfg) = Inr b \<and> parseAVCDecoderConfigurationRecord b = Inr cfg
    \<and> drop 6 buf = drop 6 b @ r"
proof -
  from parse_decode [OF assms(1)] obtain sps pps r where d: "paramsOk sps" "paramsOk pps" "length sps \<le> 31"
    "length pps \<le> 255" "6 \<le> length buf" and cfg: "cfg = configOf (take 6 buf) sps pps"
    and buf: "buf = take 6 buf @ encodeParams sps @ [of_nat (length pps)] @ encodeParams pps @ r" by blast
  have parts: "SPS cfg = sps" "PPS cfg = pps" by (simp_all add: cfg configOf_def split: prod.splits)
  have "buf ! 4 AND 0x03 = take_bit 2 (buf ! 4)" by (simp add: take_bit_eq_mask mask_eq_exp_minus_1)
  then have "uint (buf ! 4 AND 0x03) < 2 ^ 2" by (simp only: unsigned_take_bit_eq take_bit_int_less_exp)
  with d ne parts have ok: "avcOk cfg"
    by (auto simp: avcOk_def cfg configOf_def split: prod.splits)
  let ?b = "recordHeader cfg @ encodeParams sps @ [of_nat (length pps)] @ encodeParams pps"
  have b: "BuildAVCDecoderConfigurationRecord (Some cfg) = Inr ?b" using ok by (simp add: Build_ok parts)
  have "cfg\<lparr>Width := fst (parseSPSDimensions (hd sps)), Height := snd (parseSPSDimensions (hd sps))\<rparr> = cfg"
    using ne parts by (simp add: cfg configOf_def split: prod.splits)
  with parse_Build [OF ok b, of "[]"] have "parseAVCDecoderConfigurationRecord ?b = Inr cfg" by (simp add: parts)
  moreover have "drop 6 buf = drop 6 ?b @ r"
    by (subst buf) (use d(5) in \<open>simp add: recordHeader_def\<close>)
  ultimately show ?thesis using b by blast
qed

section \<open>Properties\<close>

text \<open>
  C30: The decoder configuration that subscribers get is the publisher's. A record that is built from a
  configuration parses back to it (with the size of its first SPS), whatever follows, and takes as many
  bytes as were reserved for it; it is refused exactly when it would not fit the format. Whatever record
  parses and has an SPS is built again with the parameter sets byte for byte the same, in the same
  order; and the two bytes of an AAC configuration round trip likewise.
\<close>

theorem config_roundtrip:
  "(avcOk cfg \<longrightarrow> (\<exists>b. BuildAVCDecoderConfigurationRecord (Some cfg) = Inr b
      \<and> length b = 6 + 1 + sinkParamLen (SPS cfg) + sinkParamLen (PPS cfg)
      \<and> parseAVCDecoderConfigurationRecord (b @ r) = Inr (cfg\<lparr>Width := fst (parseSPSDimensions (hd (SPS cfg))),
          Height := snd (parseSPSDimensions (hd (SPS cfg)))\<rparr>)))
    \<and> (\<not> avcOk cfg \<longrightarrow> BuildAVCDecoderConfigurationRecord (Some cfg) = Inl ErrBadAVCConfig)
    \<and> (parseAVCDecoderConfigurationRecord buf = Inr cfg' \<and> SPS cfg' \<noteq> [] \<longrightarrow>
      (\<exists>b r. BuildAVCDecoderConfigurationRecord (Some cfg') = Inr b \<and> parseAVCDecoderConfigurationRecord b = Inr cfg'
        \<and> drop 6 buf = drop 6 b @ r))
    \<and> (aacOk aac \<longrightarrow> (\<exists>b. BuildAudioSpecificConfig (Some aac) = Inr b \<and> length b = 2
      \<and> parseAudioSpecificConfig (b @ r) = Inr aac))
    \<and> (\<not> aacOk aac \<longrightarrow> BuildAudioSpecificConfig (Some aac) = Inl ErrBadAACConfig)"
  using parse_Build [of cfg _ r] aac_Build [of aac r] config_reparse [of buf cfg']
  by (intro conjI impI) (auto simp: Build_ok recordHeader_def length_encodeParams aac_Build_iff)

definition exampleAvc :: AVCConfig where
  "exampleAvc = \<lparr>ProfileIDC = 100, ProfileCompat = 0, LevelIDC = 31, NALULenSize = 4, SPS = [exampleSpsBytes],
     PPS = [[0x68, 0xEB], [0x68]], Width = 0, Height = 0\<rparr>"

definition exampleAac :: AACConfig where
  "exampleAac = \<lparr>ObjectType = 2, SampleRate = 44100, ChannelConfig = 2\<rparr>"

theorem config_roundtrip_witness:
  "(\<exists>b. BuildAVCDecoderConfigurationRecord (Some exampleAvc) = Inr b \<and> length b = 28
      \<and> parseAVCDecoderConfigurationRecord b = Inr (exampleAvc\<lparr>Width := fst (parseSPSDimensions exampleSpsBytes),
          Height := snd (parseSPSDimensions exampleSpsBytes)\<rparr>))
    \<and> (\<exists>b. BuildAudioSpecificConfig (Some exampleAac) = Inr b \<and> parseAudioSpecificConfig b = Inr exampleAac)"
proof -
  have ok: "avcOk exampleAvc" "aacOk exampleAac"
    by (simp_all add: avcOk_def exampleAvc_def exampleSpsBytes_def aacOk_def exampleAac_def aacSampleRates_def)
  have dim: "hd (SPS exampleAvc) = exampleSpsBytes" by (simp add: exampleAvc_def)
  have len: "sinkParamLen (SPS exampleAvc) + sinkParamLen (PPS exampleAvc) = 21"
    by (simp add: exampleAvc_def exampleSpsBytes_def sinkParamLen_def)
  show ?thesis using config_roundtrip [of exampleAvc "[]" "[]" exampleAvc exampleAac] ok dim len by auto
qed

end
