(* ===== verification/Track_Buffer.thy ===== *)
theory Track_Buffer
  imports Prelude
begin

text \<open>
  The tracks of an ingested stream (\<^verbatim>\<open>src/internal/ingest/handler.go\<close>): a ring of the latest groups, the video
  track that opens a group at a keyframe, the audio track with a group per packet, and the loop that
  serves one subscriber. Groups are numbered from 1 in the order they are opened. A track is pushed by
  one goroutine; a subscriber reads at any moment in between, so a push is a list of atomic accesses.
\<close>

section \<open>Groups and the ring\<close>

record sourceGroup =
  gframes :: "bytes list"
  gcomplete :: bool

definition newGroup :: sourceGroup where
  "newGroup = \<lparr>gframes = [], gcomplete = False\<rparr>"

definition appendTo :: "bytes \<Rightarrow> sourceGroup \<Rightarrow> sourceGroup" where
  "appendTo f g = g\<lparr>gframes := gframes g @ [f]\<rparr>"

definition frameAt :: "nat \<Rightarrow> sourceGroup \<Rightarrow> bytes option" where
  "frameAt i g = (if i \<ge> length (gframes g) then None else Some (gframes g ! i))"

text \<open>A slot of the ring holds the number of the group stored there; the groups are kept by number.\<close>

record trackBuffer =
  ring :: "nat option list"
  tpos :: nat
  groups :: "nat \<Rightarrow> sourceGroup"

definition defaultRingSize :: nat where
  "defaultRingSize = 8"

definition newTrackBuffer :: trackBuffer where
  "newTrackBuffer = \<lparr>ring = replicate defaultRingSize None, tpos = 0, groups = (\<lambda>_. newGroup)\<rparr>"

definition updGroup :: "nat \<Rightarrow> (sourceGroup \<Rightarrow> sourceGroup) \<Rightarrow> trackBuffer \<Rightarrow> trackBuffer" where
  "updGroup p f b = b\<lparr>groups := (groups b)(p := f (groups b p))\<rparr>"

text \<open>\<open>openGroup\<close> counts the group before it stores it.\<close>

definition openReserve :: "trackBuffer \<Rightarrow> trackBuffer" where
  "openReserve b = updGroup (tpos b + 1) (\<lambda>_. newGroup) (b\<lparr>tpos := tpos b + 1\<rparr>)"

definition openStore :: "nat \<Rightarrow> trackBuffer \<Rightarrow> trackBuffer" where
  "openStore p b = b\<lparr>ring := (ring b)[p mod defaultRingSize := Some p]\<rparr>"

definition openGroup :: "trackBuffer \<Rightarrow> nat \<times> trackBuffer" where
  "openGroup b = (let b1 = openReserve b; p = tpos b1 in (p, openStore p b1))"

definition bufferHead :: "trackBuffer \<Rightarrow> nat" where
  "bufferHead b = tpos b"

definition earliestInBuffer :: "trackBuffer \<Rightarrow> nat" where
  "earliestInBuffer b = (if bufferHead b \<le> defaultRingSize then 1 else bufferHead b - defaultRingSize + 1)"

definition getGroup :: "nat \<Rightarrow> trackBuffer \<Rightarrow> nat option" where
  "getGroup seq b =
     (case ring b ! (seq mod defaultRingSize) of None \<Rightarrow> None | Some g \<Rightarrow> if g \<noteq> seq then None else Some g)"

text \<open>
  \<open>next\<close> reads the head, the head again for the earliest group, and a slot: the group to serve, the
  number served up to, and whether groups were skipped. The three buffers are those of the three reads.
\<close>

definition nextSeq :: "trackBuffer \<Rightarrow> nat \<Rightarrow> nat \<Rightarrow> nat \<times> nat \<times> bool" where
  "nextSeq b latest lst =
     (if lst + 1 < earliestInBuffer b then (latest, latest - 1, True) else (lst + 1, lst, False))"

definition nextGet :: "trackBuffer \<Rightarrow> nat \<times> nat \<times> bool \<Rightarrow> nat option \<times> nat \<times> bool" where
  "nextGet b x = (case x of (seq, lst, skipped) \<Rightarrow>
     (case getGroup seq b of None \<Rightarrow> (None, lst, skipped) | Some g \<Rightarrow> (Some g, seq, skipped)))"

definition nextGroup :: "trackBuffer \<Rightarrow> trackBuffer \<Rightarrow> trackBuffer \<Rightarrow> nat \<Rightarrow> nat option \<times> nat \<times> bool" where
  "nextGroup b0 b1 b2 lst =
     (let latest = bufferHead b0 in
      if lst \<ge> latest then (None, lst, False) else nextGet b2 (nextSeq b1 latest lst))"

section \<open>Pushing\<close>

record videoTrack =
  vbuf :: trackBuffer
  current :: "nat option"
  currentTS :: int

definition newVideoTrack :: videoTrack where
  "newVideoTrack = \<lparr>vbuf = newTrackBuffer, current = None, currentTS = 0\<rparr>"

definition setComplete :: "sourceGroup \<Rightarrow> sourceGroup" where
  "setComplete g = g\<lparr>gcomplete := True\<rparr>"

definition videoPush :: "bytes \<Rightarrow> bool \<Rightarrow> int \<Rightarrow> videoTrack \<Rightarrow> videoTrack" where
  "videoPush f isKeyframe timestampUS v0 =
     (let v = (if current v0 = None \<or> isKeyframe \<and> timestampUS \<noteq> currentTS v0 then
           (let b = (case current v0 of None \<Rightarrow> vbuf v0 | Some c \<Rightarrow> updGroup c setComplete (vbuf v0));
                (g, b) = openGroup b
            in v0\<lparr>vbuf := b, current := Some g, currentTS := timestampUS\<rparr>)
           else v0)
      in v\<lparr>vbuf := updGroup (the (current v)) (appendTo f) (vbuf v)\<rparr>)"

definition videoClose :: "videoTrack \<Rightarrow> videoTrack" where
  "videoClose v = (case current v of None \<Rightarrow> v | Some c \<Rightarrow> v\<lparr>vbuf := updGroup c setComplete (vbuf v)\<rparr>)"

definition audioPush :: "bytes \<Rightarrow> trackBuffer \<Rightarrow> trackBuffer" where
  "audioPush f b = (let (g, b) = openGroup b in updGroup g setComplete (updGroup g (appendTo f) b))"

definition audioPushFrames :: "bytes list \<Rightarrow> trackBuffer \<Rightarrow> trackBuffer" where
  "audioPushFrames fs b =
     (if fs = [] then b
      else let (g, b) = openGroup b in updGroup g setComplete (fold (\<lambda>f. updGroup g (appendTo f)) fs b))"

section \<open>What the groups of a track are\<close>

text \<open>The groups a track has had, oldest first.\<close>

definition trackGroups :: "trackBuffer \<Rightarrow> sourceGroup list" where
  "trackGroups b = map (groups b) [1..<tpos b + 1]"

type_synonym 'a videoFrame = "'a \<times> bool \<times> int"

text \<open>Reference: the pushed frames cut before each keyframe whose time differs from that of the group so far.\<close>

fun cutGroups :: "int \<Rightarrow> 'a list \<Rightarrow> 'a videoFrame list \<Rightarrow> 'a list list" where
  "cutGroups ts g [] = [g]"
| "cutGroups ts g ((f, key, t) # fs) =
     (if key \<and> t \<noteq> ts then g # cutGroups t [f] fs else cutGroups ts (g @ [f]) fs)"

fun gops :: "'a videoFrame list \<Rightarrow> 'a list list" where
  "gops [] = []"
| "gops ((f, key, t) # fs) = cutGroups t [f] fs"

definition pushAll :: "bytes videoFrame list \<Rightarrow> videoTrack \<Rightarrow> videoTrack" where
  "pushAll fs v = fold (\<lambda>(f, key, t). videoPush f key t) fs v"

lemma trackGroups_openGroup:
  "openGroup b = (p, b') \<Longrightarrow> p = tpos b + 1 \<and> tpos b' = tpos b + 1 \<and> trackGroups b' = trackGroups b @ [newGroup]"
  by (auto simp: openGroup_def openReserve_def openStore_def updGroup_def trackGroups_def Let_def)

lemma trackGroups_updGroup_last:
  "p = tpos b \<Longrightarrow> p \<noteq> 0 \<Longrightarrow> trackGroups (updGroup p f b) = butlast (trackGroups b) @ [f (last (trackGroups b))]"
  by (auto simp: trackGroups_def updGroup_def)

lemma tpos_updGroup [simp]: "tpos (updGroup p f b) = tpos b"
  by (simp add: updGroup_def)

lemma length_trackGroups [simp]: "length (trackGroups b) = tpos b"
  by (simp add: trackGroups_def)

text \<open>A track that is filling its last group, with the earlier ones complete.\<close>

definition filling :: "videoTrack \<Rightarrow> bytes list list \<Rightarrow> bytes list \<Rightarrow> int \<Rightarrow> bool" where
  "filling v gs g ts \<longleftrightarrow> tpos (vbuf v) \<noteq> 0 \<and> current v = Some (tpos (vbuf v)) \<and> currentTS v = ts
     \<and> trackGroups (vbuf v) = map (\<lambda>fs. \<lparr>gframes = fs, gcomplete = True\<rparr>) gs @ [\<lparr>gframes = g, gcomplete = False\<rparr>]"

lemma push_first:
  assumes "v = newVideoTrack"
  shows "filling (videoPush f key t v) [] [f] t"
proof -
  obtain p b where o: "openGroup newTrackBuffer = (p, b)" by (cases "openGroup newTrackBuffer")
  have "tpos newTrackBuffer = 0" "trackGroups newTrackBuffer = []" by (simp_all add: newTrackBuffer_def trackGroups_def)
  with trackGroups_openGroup [OF o] have "p = 1" "tpos b = 1" "trackGroups b = [newGroup]" by simp_all
  then show ?thesis using trackGroups_updGroup_last [of 1 b "appendTo f"] assms o
    by (simp add: filling_def videoPush_def newVideoTrack_def appendTo_def newGroup_def)
qed

lemma push_same:
  assumes "filling v gs g ts" and "\<not> (key \<and> t \<noteq> ts)"
  shows "filling (videoPush f key t v) gs (g @ [f]) ts"
  using assms trackGroups_updGroup_last [of "tpos (vbuf v)" "vbuf v" "appendTo f"]
  by (auto simp: filling_def videoPush_def appendTo_def)

lemma push_key:
  assumes "filling v gs g ts" and "key \<and> t \<noteq> ts"
  shows "filling (videoPush f key t v) (gs @ [g]) [f] t"
proof -
  let ?b = "updGroup (tpos (vbuf v)) setComplete (vbuf v)"
  obtain p b where o: "openGroup ?b = (p, b)" by (cases "openGroup ?b")
  from trackGroups_openGroup [OF o] trackGroups_updGroup_last [of "tpos (vbuf v)" "vbuf v" setComplete] assms(1)
  have "p = tpos b" "tpos b \<noteq> 0"
    "trackGroups b = map (\<lambda>fs. \<lparr>gframes = fs, gcomplete = True\<rparr>) (gs @ [g]) @ [newGroup]"
    by (auto simp: filling_def setComplete_def)
  then show ?thesis using trackGroups_updGroup_last [of p b "appendTo f"] assms o
    by (auto simp: filling_def videoPush_def appendTo_def newGroup_def butlast_append)
qed

lemma pushAll_filling:
  "filling v gs g ts \<Longrightarrow> \<exists>hs h ts'. filling (pushAll fs v) hs h ts' \<and> hs @ [h] = gs @ cutGroups ts g fs"
proof (induction fs arbitrary: v gs g ts)
  case Nil
  then show ?case by (auto simp: pushAll_def)
next
  case (Cons x fs)
  obtain f key t where x: "x = (f, key, t)" by (cases x)
  show ?case
  proof (cases "key \<and> t \<noteq> ts")
    case True
    with Cons.IH [OF push_key [OF Cons.prems True, of f]] show ?thesis by (simp add: x pushAll_def)
  next
    case False
    with Cons.IH [OF push_same [OF Cons.prems False, of f]] show ?thesis by (auto simp: x pushAll_def)
  qed
qed

lemma pushAll_groups:
  assumes "fs \<noteq> []"
  shows "map gframes (trackGroups (vbuf (pushAll fs newVideoTrack))) = gops fs"
    and "map gcomplete (trackGroups (vbuf (pushAll fs newVideoTrack))) = replicate (length (gops fs) - 1) True @ [False]"
proof -
  obtain f key t r where fs: "fs = (f, key, t) # r" using assms by (cases fs) auto
  from pushAll_filling [OF push_first [OF refl, of f key t], of r] obtain hs h ts
    where "filling (pushAll fs newVideoTrack) hs h ts" "hs @ [h] = gops fs" by (auto simp: fs pushAll_def)
  then show "map gframes (trackGroups (vbuf (pushAll fs newVideoTrack))) = gops fs"
    and "map gcomplete (trackGroups (vbuf (pushAll fs newVideoTrack))) = replicate (length (gops fs) - 1) True @ [False]"
    by (auto simp: filling_def comp_def map_replicate_const simp flip: \<open>hs @ [h] = gops fs\<close>)
qed

lemma pushAll_gops: "map gframes (trackGroups (vbuf (pushAll fs newVideoTrack))) = gops fs"
proof (cases "fs = []")
  case True
  then show ?thesis by (simp add: pushAll_def newVideoTrack_def newTrackBuffer_def trackGroups_def)
qed (rule pushAll_groups(1))

lemma gops_map: "gops (map (\<lambda>(f, key, t). (h f, key, t)) fs) = map (map h) (gops fs)"
proof -
  have "cutGroups ts (map h g) (map (\<lambda>(f, key, t). (h f, key, t)) fs) = map (map h) (cutGroups ts g fs)" for ts g fs
    by (induction ts g fs rule: cutGroups.induct) (simp_all add: split_beta)
  from this [of _ "[_]"] show ?thesis by (cases fs rule: gops.cases) simp_all
qed

lemma audioPush_groups: "trackGroups (audioPush f b) = trackGroups b @ [\<lparr>gframes = [f], gcomplete = True\<rparr>]"
proof -
  obtain p b' where o: "openGroup b = (p, b')" by (cases "openGroup b")
  from trackGroups_openGroup [OF o] trackGroups_updGroup_last [of p b' "appendTo f"]
    trackGroups_updGroup_last [of p "updGroup p (appendTo f) b'" setComplete]
  show ?thesis by (simp add: audioPush_def o appendTo_def setComplete_def newGroup_def)
qed

text \<open>The cut is a partition into pieces that start with a keyframe.\<close>

lemma concat_cutGroups: "concat (cutGroups ts g fs) = g @ map fst fs"
  by (induction ts g fs rule: cutGroups.induct) auto

lemma cutGroups_nonempty: "g \<noteq> [] \<Longrightarrow> [] \<notin> set (cutGroups ts g fs)"
  by (induction ts g fs rule: cutGroups.induct) auto

lemma hd_cutGroups: "h \<in> set (tl (cutGroups ts g fs)) \<Longrightarrow> \<exists>t. (hd h, True, t) \<in> set fs"
proof (induction ts g fs rule: cutGroups.induct)
  case (2 ts g f key t fs)
  show ?case
  proof (cases "key \<and> t \<noteq> ts")
    case True
    have "cutGroups t [f] fs \<noteq> [] \<and> hd (hd (cutGroups t [f] fs)) = f"
    proof -
      have "g' \<noteq> [] \<Longrightarrow> cutGroups s g' r \<noteq> [] \<and> hd (hd (cutGroups s g' r)) = hd g'" for s g' r
        by (induction s g' r rule: cutGroups.induct) auto
      from this [of "[f]"] show ?thesis by simp
    qed
    with 2 True show ?thesis by (cases "cutGroups t [f] fs") auto
  qed (use 2 in auto)
qed simp

section \<open>Serving\<close>

text \<open>
  The accesses of a push in their order, and a system of the pushing goroutine with the accesses it has
  still to make and one subscriber. \<open>written\<close> are the groups written in full to the subscriber's track:
  the number, whether groups were skipped before it, and the frames.
\<close>

datatype access = Complete nat | Reserve | Store nat | Append nat bytes

fun perform :: "access \<Rightarrow> trackBuffer \<Rightarrow> trackBuffer" where
  "perform (Complete p) b = updGroup p setComplete b"
| "perform Reserve b = openReserve b"
| "perform (Store p) b = openStore p b"
| "perform (Append p f) b = updGroup p (appendTo f) b"

definition videoAccesses :: "bytes \<Rightarrow> bool \<Rightarrow> int \<Rightarrow> nat option \<Rightarrow> int \<Rightarrow> nat \<Rightarrow> access list" where
  "videoAccesses f key t cur ts n =
     (if cur = None \<or> key \<and> t \<noteq> ts
      then (case cur of None \<Rightarrow> [] | Some c \<Rightarrow> [Complete c]) @ [Reserve, Store (n + 1), Append (n + 1) f]
      else [Append (the cur) f])"

definition audioAccesses :: "bytes list \<Rightarrow> nat \<Rightarrow> access list" where
  "audioAccesses fs n = (if fs = [] then [] else [Reserve, Store (n + 1)] @ map (Append (n + 1)) fs @ [Complete (n + 1)])"

lemma videoPush_accesses:
  "vbuf (videoPush f key t v) = fold perform (videoAccesses f key t (current v) (currentTS v) (tpos (vbuf v))) (vbuf v)"
  by (simp add: videoPush_def videoAccesses_def openGroup_def openReserve_def Let_def updGroup_def split: option.splits)

lemma audioPushFrames_accesses: "audioPushFrames fs b = fold perform (audioAccesses fs (tpos b)) b"
proof -
  have "fold perform (map (Append p) fs) c = fold (\<lambda>f. updGroup p (appendTo f)) fs c" for p c
    by (induction fs arbitrary: c) simp_all
  then show ?thesis by (simp add: audioPushFrames_def audioAccesses_def openGroup_def openReserve_def Let_def)
qed

lemma audioPush_frames: "audioPush f b = audioPushFrames [f] b"
  by (simp add: audioPush_def audioPushFrames_def)

datatype servePc = Next | Head nat | Slot nat nat | Frames nat "bytes list" | Flag nat "bytes list" | Ended

record serving =
  sbuf :: trackBuffer
  todo :: "access list"
  cur :: "nat option"
  curTS :: int
  closedTrack :: bool
  served :: nat
  skips :: bool
  spc :: servePc
  written :: "(nat \<times> bool \<times> bytes list) list"

inductive serve_step :: "serving \<Rightarrow> serving \<Rightarrow> bool" where
  pushVideo: "todo s = [] \<Longrightarrow> \<not> closedTrack s \<Longrightarrow> opens = (cur s = None \<or> key \<and> t \<noteq> curTS s) \<Longrightarrow>
    serve_step s (s\<lparr>todo := videoAccesses f key t (cur s) (curTS s) (tpos (sbuf s)),
      cur := (if opens then Some (tpos (sbuf s) + 1) else cur s), curTS := (if opens then t else curTS s)\<rparr>)"
| pushAudio: "todo s = [] \<Longrightarrow> cur s = None \<Longrightarrow> serve_step s (s\<lparr>todo := audioAccesses fs (tpos (sbuf s))\<rparr>)"
| closeVideo: "todo s = [] \<Longrightarrow> cur s = Some c \<Longrightarrow> serve_step s (s\<lparr>todo := [Complete c], closedTrack := True\<rparr>)"
| pushing: "todo s = a # as \<Longrightarrow> serve_step s (s\<lparr>sbuf := perform a (sbuf s), todo := as\<rparr>)"
| readHead: "spc s = Next \<Longrightarrow> served s < bufferHead (sbuf s) \<Longrightarrow> serve_step s (s\<lparr>spc := Head (bufferHead (sbuf s))\<rparr>)"
| readEarliest: "spc s = Head latest \<Longrightarrow> nextSeq (sbuf s) latest (served s) = (seq, lst, skipped) \<Longrightarrow>
    serve_step s (s\<lparr>spc := Slot seq lst, served := lst, skips := skips s \<or> skipped\<rparr>)"
| readSlot: "spc s = Slot seq lst \<Longrightarrow> getGroup seq (sbuf s) = Some g \<Longrightarrow>
    serve_step s (s\<lparr>spc := Frames g [], served := seq\<rparr>)"
| emptySlot: "spc s = Slot seq lst \<Longrightarrow> getGroup seq (sbuf s) = None \<Longrightarrow> serve_step s (s\<lparr>spc := Next\<rparr>)"
| writeFrame: "spc s = Frames g out \<Longrightarrow> frameAt (length out) (groups (sbuf s) g) = Some f \<Longrightarrow>
    serve_step s (s\<lparr>spc := Frames g (out @ [f])\<rparr>)"
| noFrame: "spc s = Frames g out \<Longrightarrow> frameAt (length out) (groups (sbuf s) g) = None \<Longrightarrow>
    serve_step s (s\<lparr>spc := Flag g out\<rparr>)"
| moreToCome: "spc s = Flag g out \<Longrightarrow> \<not> gcomplete (groups (sbuf s) g) \<Longrightarrow> serve_step s (s\<lparr>spc := Frames g out\<rparr>)"
| groupDone: "spc s = Flag g out \<Longrightarrow> gcomplete (groups (sbuf s) g) \<Longrightarrow>
    serve_step s (s\<lparr>spc := Next, written := written s @ [(g, skips s, out)], skips := False\<rparr>)"
| gone: "serve_step s (s\<lparr>spc := Ended\<rparr>)"

text \<open>A subscriber starts before the newest group.\<close>

definition startServing :: "trackBuffer \<Rightarrow> serving \<Rightarrow> serving" where
  "startServing b s = s\<lparr>served := bufferHead b - 1, spc := Next, skips := False, written := []\<rparr>"

inductive serve_reach :: "serving \<Rightarrow> bool" where
  fresh: "serve_reach \<lparr>sbuf = newTrackBuffer, todo = [], cur = None, curTS = 0, closedTrack = False, served = 0,
    skips = False, spc = Next, written = []\<rparr>"
| joining: "serve_reach s \<Longrightarrow> serve_reach (startServing (sbuf s) s)"
| step: "serve_reach s \<Longrightarrow> serve_step s s' \<Longrightarrow> serve_reach s'"

section \<open>What holds while serving\<close>

text \<open>The accesses still to come are those of a push: a group is stored right after it was counted, and
  nothing is added to a complete group.\<close>

fun storeFirst :: "access list \<Rightarrow> bool" where
  "storeFirst (Store p # as) \<longleftrightarrow> True"
| "storeFirst _ \<longleftrightarrow> False"

fun todoOk :: "trackBuffer \<Rightarrow> access list \<Rightarrow> bool" where
  "todoOk b [] \<longleftrightarrow> True"
| "todoOk b (Complete p # as) \<longleftrightarrow> 1 \<le> p \<and> p \<le> tpos b \<and> \<not> storeFirst as \<and> todoOk (perform (Complete p) b) as"
| "todoOk b (Reserve # as) \<longleftrightarrow> (\<exists>r. as = Store (tpos b + 1) # r) \<and> todoOk (openReserve b) as"
| "todoOk b (Store p # as) \<longleftrightarrow> p = tpos b \<and> 1 \<le> p \<and> \<not> storeFirst as \<and> todoOk (openStore p b) as"
| "todoOk b (Append p f # as) \<longleftrightarrow> 1 \<le> p \<and> p \<le> tpos b \<and> \<not> gcomplete (groups b p) \<and> \<not> storeFirst as
     \<and> todoOk (perform (Append p f) b) as"

definition storedUpTo :: "serving \<Rightarrow> nat" where
  "storedUpTo s = (if storeFirst (todo s) then tpos (sbuf s) - 1 else tpos (sbuf s))"

definition ringHolds :: "trackBuffer \<Rightarrow> nat \<Rightarrow> bool" where
  "ringHolds b m \<longleftrightarrow> length (ring b) = defaultRingSize
     \<and> (\<forall>p. 1 \<le> p \<and> p \<le> m \<and> m < p + defaultRingSize \<longrightarrow> ring b ! (p mod defaultRingSize) = Some p)
     \<and> (\<forall>i q. i < defaultRingSize \<longrightarrow> ring b ! i = Some q \<longrightarrow> 1 \<le> q \<and> q \<le> m)"

definition producerInv :: "serving \<Rightarrow> bool" where
  "producerInv s \<longleftrightarrow> todoOk (sbuf s) (todo s) \<and> ringHolds (sbuf s) (storedUpTo s)
     \<and> (let b = fold perform (todo s) (sbuf s) in
        \<forall>c. cur s = Some c \<longrightarrow> 1 \<le> c \<and> c \<le> tpos b \<and> (\<not> closedTrack s \<longrightarrow> \<not> gcomplete (groups b c)))"

lemmas buffer_defs = updGroup_def openReserve_def openStore_def setComplete_def appendTo_def newGroup_def

lemma ringHolds_ring: "ring b = ring b' \<Longrightarrow> ringHolds b m = ringHolds b' m"
  by (simp add: ringHolds_def)

lemma ringHolds_store:
  assumes "ringHolds b (p - 1)" and "1 \<le> p"
  shows "ringHolds (openStore p b) p"
proof -
  have len: "length (ring b) = defaultRingSize" using assms(1) by (simp add: ringHolds_def)
  have "ring (openStore p b) ! (q mod defaultRingSize) = Some q" if "1 \<le> q" "q \<le> p" "p < q + defaultRingSize" for q
  proof (cases "q = p")
    case True
    have "p mod defaultRingSize < length (ring b)" by (simp add: len) (simp add: defaultRingSize_def)
    then show ?thesis by (simp add: openStore_def True)
  next
    case False
    have "q mod defaultRingSize \<noteq> p mod defaultRingSize"
      using mod_collision [of q defaultRingSize p] that False by auto
    moreover have "ring b ! (q mod defaultRingSize) = Some q"
      using assms(1) that False unfolding ringHolds_def by auto
    ultimately show ?thesis by (simp add: openStore_def)
  qed
  moreover have "1 \<le> q \<and> q \<le> p" if "i < defaultRingSize" "ring (openStore p b) ! i = Some q" for i q
  proof (cases "i = p mod defaultRingSize")
    case True
    then show ?thesis using that assms(2) by (simp add: openStore_def len)
  next
    case False
    then have "ring b ! i = Some q" using that by (simp add: openStore_def)
    with assms(1) that(1) have "1 \<le> q \<and> q \<le> p - 1" by (simp add: ringHolds_def)
    then show ?thesis by linarith
  qed
  ultimately show ?thesis using len by (simp add: ringHolds_def openStore_def)
qed

lemma todo_push:
  assumes "producerInv s" and "todo s = []"
  shows "ringHolds (sbuf s) (tpos (sbuf s))"
    and "cur s = Some c \<Longrightarrow> 1 \<le> c \<and> c \<le> tpos (sbuf s) \<and> (\<not> closedTrack s \<longrightarrow> \<not> gcomplete (groups (sbuf s) c))"
  using assms by (auto simp: producerInv_def storedUpTo_def Let_def)

lemma producerInv_pushVideo:
  assumes "producerInv s" and "todo s = []" and "\<not> closedTrack s" and "opens = (cur s = None \<or> key \<and> t \<noteq> curTS s)"
  shows "producerInv (s\<lparr>todo := videoAccesses f key t (cur s) (curTS s) (tpos (sbuf s)),
      cur := (if opens then Some (tpos (sbuf s) + 1) else cur s), curTS := (if opens then t else curTS s)\<rparr>)"
  using todo_push [OF assms(1,2)] assms(3,4)
  by (cases "cur s") (auto simp: producerInv_def storedUpTo_def videoAccesses_def buffer_defs)

lemma storeFirst_appends [simp]: "\<not> storeFirst (map (Append p) fs @ [Complete q])"
  by (cases fs) simp_all

lemma todoOk_appends:
  "1 \<le> p \<Longrightarrow> p \<le> tpos b \<Longrightarrow> \<not> gcomplete (groups b p) \<Longrightarrow> todoOk b (map (Append p) fs @ [Complete p])"
proof (induction fs arbitrary: b)
  case (Cons f fs)
  then show ?case using Cons.IH [of "updGroup p (appendTo f) b"] by (simp add: buffer_defs)
qed simp

lemma producerInv_pushAudio:
  assumes "producerInv s" and "todo s = []" and "cur s = None"
  shows "producerInv (s\<lparr>todo := audioAccesses fs (tpos (sbuf s))\<rparr>)"
  using todo_push [OF assms(1,2)] assms(3)
    todoOk_appends [of "Suc (tpos (sbuf s))" "openStore (Suc (tpos (sbuf s))) (openReserve (sbuf s))" fs]
  by (auto simp: producerInv_def storedUpTo_def audioAccesses_def buffer_defs)

lemma producerInv_pushing:
  assumes "producerInv s" and "todo s = a # as"
  shows "producerInv (s\<lparr>sbuf := perform a (sbuf s), todo := as\<rparr>)"
proof -
  have ok: "todoOk (sbuf s) (a # as)" and h: "ringHolds (sbuf s) (storedUpTo s)"
    using assms by (simp_all add: producerInv_def)
  have "todoOk (perform a (sbuf s)) as" using ok by (cases a) auto
  moreover have "ringHolds (perform a (sbuf s)) (storedUpTo (s\<lparr>sbuf := perform a (sbuf s), todo := as\<rparr>))"
  proof (cases a)
    case (Store p)
    then have "p = tpos (sbuf s)" "1 \<le> p" using ok by auto
    moreover have "storedUpTo (s\<lparr>sbuf := perform a (sbuf s), todo := as\<rparr>) = tpos (sbuf s)"
      using ok by (simp add: Store storedUpTo_def openStore_def)
    ultimately show ?thesis using h ringHolds_store [of "sbuf s" p] assms(2) by (simp add: Store storedUpTo_def)
  qed (use ok h assms(2) in \<open>auto simp: storedUpTo_def buffer_defs ringHolds_def\<close>)
  ultimately show ?thesis using assms by (simp add: producerInv_def)
qed

lemma producerInv_close:
  assumes "producerInv s" and "todo s = []" and "cur s = Some c"
  shows "producerInv (s\<lparr>todo := [Complete c], closedTrack := True\<rparr>)"
  using todo_push [OF assms(1,2)] assms(3) by (auto simp: producerInv_def storedUpTo_def)

lemma producerInv_reader:
  "producerInv s \<Longrightarrow> sbuf s' = sbuf s \<Longrightarrow> todo s' = todo s \<Longrightarrow> cur s' = cur s \<Longrightarrow> closedTrack s' = closedTrack s \<Longrightarrow>
    producerInv s'"
  by (auto simp: producerInv_def storedUpTo_def split: if_splits)

lemma producerInv_step: "serve_step s s' \<Longrightarrow> producerInv s \<Longrightarrow> producerInv s'"
  by (cases rule: serve_step.cases)
    (auto intro: producerInv_pushVideo producerInv_pushAudio producerInv_close producerInv_pushing producerInv_reader)

lemma producerInv_reach: "serve_reach s \<Longrightarrow> producerInv s"
proof (induction rule: serve_reach.induct)
  case fresh
  show ?case by (simp add: producerInv_def storedUpTo_def ringHolds_def newTrackBuffer_def defaultRingSize_def)
next
  case (joining s)
  from joining.IH show ?case by (rule producerInv_reader) (simp_all add: startServing_def)
qed (rule producerInv_step)

text \<open>Groups only grow, and complete ones stay as they are.\<close>

definition grows :: "trackBuffer \<Rightarrow> trackBuffer \<Rightarrow> bool" where
  "grows b b' \<longleftrightarrow> tpos b \<le> tpos b' \<and> (\<forall>g. g \<le> tpos b \<longrightarrow>
     (\<exists>r. gframes (groups b' g) = gframes (groups b g) @ r)
     \<and> (gcomplete (groups b g) \<longrightarrow> groups b' g = groups b g))"

lemma grows_perform: "todoOk b (a # as) \<Longrightarrow> grows b (perform a b)"
  by (cases a) (auto simp: grows_def buffer_defs)

text \<open>One entry of \<open>written\<close> follows the other.\<close>

definition follows :: "nat \<Rightarrow> nat \<Rightarrow> nat \<times> bool \<times> bytes list \<Rightarrow> bool" where
  "follows n g y \<longleftrightarrow> g < fst y \<and> (if fst (snd y) then g + defaultRingSize + 1 \<le> n else fst y = g + 1)"

fun linked :: "nat \<Rightarrow> (nat \<times> bool \<times> bytes list) list \<Rightarrow> bool" where
  "linked n (x # y # r) \<longleftrightarrow> follows n (fst x) y \<and> linked n (y # r)"
| "linked n _ \<longleftrightarrow> True"

lemma linked_append: "linked n (xs @ [y]) \<longleftrightarrow> linked n xs \<and> (xs \<noteq> [] \<longrightarrow> follows n (fst (last xs)) y)"
  by (induction n xs rule: linked.induct) auto

lemma linked_mono: "linked n xs \<Longrightarrow> n \<le> m \<Longrightarrow> linked m xs"
  by (induction n xs rule: linked.induct) (auto simp: follows_def split: if_splits)

definition partOfGroup :: "trackBuffer \<Rightarrow> nat \<Rightarrow> bytes list \<Rightarrow> bool" where
  "partOfGroup b g out \<longleftrightarrow> 1 \<le> g \<and> g \<le> tpos b \<and> (\<exists>r. gframes (groups b g) = out @ r)"

definition caughtUp :: "serving \<Rightarrow> nat \<Rightarrow> bool" where
  "caughtUp s i \<longleftrightarrow> (written s \<noteq> [] \<longrightarrow>
     (let lw = fst (last (written s)) in lw + i \<le> served s
        \<and> (if skips s then lw + defaultRingSize + 1 \<le> tpos (sbuf s) else served s = lw + i)))"

fun pcInv :: "serving \<Rightarrow> servePc \<Rightarrow> bool" where
  "pcInv s Next \<longleftrightarrow> caughtUp s 0"
| "pcInv s (Head latest) \<longleftrightarrow> caughtUp s 0 \<and> served s < latest"
| "pcInv s (Slot seq lst) \<longleftrightarrow> caughtUp s 0 \<and> served s = lst \<and> seq = lst + 1"
| "pcInv s (Frames g out) \<longleftrightarrow> caughtUp s 1 \<and> g = served s \<and> partOfGroup (sbuf s) g out"
| "pcInv s (Flag g out) \<longleftrightarrow> caughtUp s 1 \<and> g = served s \<and> partOfGroup (sbuf s) g out"
| "pcInv s Ended \<longleftrightarrow> True"

definition readerInv :: "serving \<Rightarrow> bool" where
  "readerInv s \<longleftrightarrow> linked (tpos (sbuf s)) (written s) \<and> pcInv s (spc s)
     \<and> (\<forall>(g, k, out) \<in> set (written s). partOfGroup (sbuf s) g out \<and> gcomplete (groups (sbuf s) g))"

lemma partOfGroup_grows: "partOfGroup b g out \<Longrightarrow> grows b b' \<Longrightarrow> partOfGroup b' g out"
  by (auto simp: partOfGroup_def grows_def)

lemma readerInv_pushing:
  assumes inv: "readerInv s" and ok: "todoOk (sbuf s) (a # as)"
  shows "readerInv (s\<lparr>sbuf := perform a (sbuf s), todo := as\<rparr>)"
proof -
  let ?s = "s\<lparr>sbuf := perform a (sbuf s), todo := as\<rparr>"
  have g: "grows (sbuf s) (perform a (sbuf s))" by (rule grows_perform [OF ok])
  then have n: "tpos (sbuf s) \<le> tpos (perform a (sbuf s))" by (simp add: grows_def)
  have c: "caughtUp s i \<Longrightarrow> caughtUp ?s i" for i using n by (auto simp: caughtUp_def Let_def split: if_splits)
  have "pcInv ?s (spc s)"
    using inv c partOfGroup_grows [OF _ g] by (cases "spc s") (auto simp: readerInv_def)
  moreover have "gcomplete (groups (sbuf s) x) \<Longrightarrow> x \<le> tpos (sbuf s) \<Longrightarrow> gcomplete (groups (perform a (sbuf s)) x)" for x
    using g by (simp add: grows_def)
  ultimately show ?thesis
    using inv n partOfGroup_grows [OF _ g] by (fastforce simp: readerInv_def partOfGroup_def intro: linked_mono)
qed

lemma getGroup_Some:
  assumes "ringHolds b m" and "getGroup seq b = Some g"
  shows "g = seq \<and> 1 \<le> g \<and> g \<le> m"
proof -
  from assms(2) have "ring b ! (seq mod defaultRingSize) = Some seq" "g = seq"
    by (auto simp: getGroup_def split: option.splits if_splits)
  moreover have "seq mod defaultRingSize < defaultRingSize" by (simp add: defaultRingSize_def)
  ultimately show ?thesis using assms(1) unfolding ringHolds_def by blast
qed

lemma pcInv_cong:
  "sbuf s' = sbuf s \<Longrightarrow> served s' = served s \<Longrightarrow> skips s' = skips s \<Longrightarrow> written s' = written s \<Longrightarrow> pcInv s' pc = pcInv s pc"
  by (cases pc) (simp_all add: caughtUp_def)

lemma readerInv_reading:
  assumes "serve_step s s'" and inv: "readerInv s" and prod: "producerInv s" and same: "sbuf s' = sbuf s"
  shows "readerInv s'"
  using assms(1)
proof (cases rule: serve_step.cases)
  case (readEarliest latest seq lst skipped)
  have "pcInv s (Head latest)" using inv readEarliest(2) by (auto simp: readerInv_def)
  then have "pcInv s' (Slot seq lst)"
    using readEarliest(1,3)
    by (auto simp: nextSeq_def earliestInBuffer_def bufferHead_def caughtUp_def Let_def split: if_splits)
  with inv readEarliest(1) show ?thesis by (auto simp: readerInv_def)
next
  case (readSlot seq lst g)
  have pc: "pcInv s (Slot seq lst)" using inv readSlot(2) by (auto simp: readerInv_def)
  have "storedUpTo s \<le> tpos (sbuf s)" by (simp add: storedUpTo_def)
  moreover have "ringHolds (sbuf s) (storedUpTo s)" using prod by (simp add: producerInv_def)
  from getGroup_Some [OF this readSlot(3)] have "g = seq" "1 \<le> g" "g \<le> storedUpTo s" by simp_all
  ultimately have "pcInv s' (Frames g [])"
    using pc readSlot(1) by (auto simp: caughtUp_def partOfGroup_def Let_def split: if_splits)
  with inv readSlot(1) show ?thesis by (auto simp: readerInv_def)
next
  case (writeFrame g out f)
  have "pcInv s (Frames g out)" using inv writeFrame(2) by (auto simp: readerInv_def)
  moreover obtain r where "gframes (groups (sbuf s) g) = out @ f # r"
    using writeFrame(3) calculation
    by (fastforce simp: partOfGroup_def frameAt_def neq_Nil_conv split: if_splits)
  ultimately have "pcInv s' (Frames g (out @ [f]))"
    using writeFrame(1) by (auto simp: caughtUp_def partOfGroup_def Let_def)
  with inv writeFrame(1) show ?thesis by (auto simp: readerInv_def)
next
  case (groupDone g out)
  have pc: "pcInv s (Flag g out)" using inv groupDone(2) by (auto simp: readerInv_def)
  then have "linked (tpos (sbuf s)) (written s @ [(g, skips s, out)])"
    using inv by (auto simp: readerInv_def linked_append follows_def caughtUp_def Let_def split: if_splits)
  with inv groupDone(1,3) pc show ?thesis by (auto simp: readerInv_def caughtUp_def)
next
  case (pushing a as)
  then show ?thesis using inv same pcInv_cong [of s' s "spc s"] by (auto simp: readerInv_def)
next
  case (pushVideo opens key t f)
  then show ?thesis using inv same pcInv_cong [of s' s "spc s"] by (auto simp: readerInv_def)
next
  case (pushAudio fs)
  then show ?thesis using inv same pcInv_cong [of s' s "spc s"] by (auto simp: readerInv_def)
next
  case (closeVideo c)
  then show ?thesis using inv same pcInv_cong [of s' s "spc s"] by (auto simp: readerInv_def)
qed (use inv in \<open>auto simp: readerInv_def caughtUp_def bufferHead_def Let_def\<close>)

lemma readerInv_step:
  assumes "serve_step s s'" and "readerInv s" and "producerInv s"
  shows "readerInv s'"
proof (cases "sbuf s' = sbuf s")
  case True
  then show ?thesis using readerInv_reading assms by blast
next
  case False
  with assms(1) obtain a as where "todo s = a # as" "s' = s\<lparr>sbuf := perform a (sbuf s), todo := as\<rparr>"
    by (cases rule: serve_step.cases) auto
  with readerInv_pushing [OF assms(2)] assms(3) show ?thesis by (simp add: producerInv_def)
qed

lemma readerInv_reach: "serve_reach s \<Longrightarrow> readerInv s"
proof (induction rule: serve_reach.induct)
  case (step s s')
  then show ?case using readerInv_step producerInv_reach by blast
qed (simp_all add: readerInv_def caughtUp_def startServing_def)

text \<open>What is in the ring is found.\<close>

lemma nextGroup_finds:
  assumes "ringHolds b (tpos b)" and "l < tpos b"
  shows "\<exists>g. fst (nextGroup b b b l) = Some g \<and> l < g \<and> g \<le> tpos b"
proof -
  obtain seq lst k where n: "nextSeq b (tpos b) l = (seq, lst, k)" by (cases "nextSeq b (tpos b) l")
  then have seq: "1 \<le> seq" "l < seq" "seq \<le> tpos b" "tpos b < seq + defaultRingSize"
    using assms(2) by (auto simp: nextSeq_def earliestInBuffer_def bufferHead_def defaultRingSize_def split: if_splits)
  then have "getGroup seq b = Some seq" using assms(1) by (simp add: ringHolds_def getGroup_def)
  with seq n assms(2) show ?thesis by (simp add: nextGroup_def nextGet_def bufferHead_def)
qed

section \<open>Properties\<close>

text \<open>
  C27: Video reaches subscribers in pictures they can decode. Whatever is pushed, the groups of the track
  are the pushed frames cut into pieces: no frame is lost, repeated or moved, every group after the first
  starts with a keyframe and none is empty, and all but the last are complete; the last one is, once the
  publisher has left.
\<close>

theorem video_groups:
  assumes "fs \<noteq> []"
  shows "concat (map gframes (trackGroups (vbuf (pushAll fs newVideoTrack)))) = map fst fs
    \<and> (\<forall>g \<in> set (tl (trackGroups (vbuf (pushAll fs newVideoTrack)))). \<exists>t. (hd (gframes g), True, t) \<in> set fs)
    \<and> (\<forall>g \<in> set (trackGroups (vbuf (pushAll fs newVideoTrack))). gframes g \<noteq> [])
    \<and> map gcomplete (trackGroups (vbuf (pushAll fs newVideoTrack))) = replicate (length (gops fs) - 1) True @ [False]
    \<and> (\<forall>g \<in> set (trackGroups (vbuf (videoClose (pushAll fs newVideoTrack)))). gcomplete g)"
proof -
  let ?v = "pushAll fs newVideoTrack" and ?gs = "trackGroups (vbuf (pushAll fs newVideoTrack))"
  obtain f key t r where fs: "fs = (f, key, t) # r" using assms by (cases fs) auto
  from pushAll_filling [OF push_first [OF refl, of f key t], of r] obtain hs h ts
    where fill: "filling ?v hs h ts" by (auto simp: fs pushAll_def)
  note g = pushAll_groups [OF assms]
  have "\<exists>t. (hd (gframes x), True, t) \<in> set fs" if "x \<in> set (tl ?gs)" for x
  proof -
    have "gframes x \<in> set (tl (gops fs))" using that by (simp add: g(1) [symmetric] map_tl [symmetric])
    then show ?thesis using hd_cutGroups [of "gframes x" t "[f]" r] by (auto simp: fs)
  qed
  moreover have "gframes x \<noteq> []" if "x \<in> set ?gs" for x
  proof -
    have "gframes x \<in> set (gops fs)" using that by (simp add: g(1) [symmetric])
    then show ?thesis using cutGroups_nonempty [of "[f]" t r] by (auto simp: fs)
  qed
  moreover have "\<forall>x \<in> set (trackGroups (vbuf (videoClose ?v))). gcomplete x"
    using fill trackGroups_updGroup_last [of "tpos (vbuf ?v)" "vbuf ?v" setComplete]
    by (auto simp: filling_def videoClose_def setComplete_def)
  moreover have "concat (map gframes ?gs) = map fst fs" by (simp add: g(1)) (simp add: fs concat_cutGroups)
  ultimately show ?thesis using g(2) by blast
qed

text \<open>
  C28: A subscriber gets the groups of an ingested track in order. In every interleaving of the pushes with
  its own loop, the groups written to it in full are complete, their numbers increase, and it is at the
  next one each time unless the next one has left the ring, which then counts as a skip; what was
  written of a group is an initial part of its frames. While no push is under way a later group is found
  at once, so none is passed over.
\<close>

theorem served_in_order:
  assumes "serve_reach s"
  shows "linked (tpos (sbuf s)) (written s)
    \<and> (\<forall>(g, k, out) \<in> set (written s). 1 \<le> g \<and> g \<le> tpos (sbuf s) \<and> gcomplete (groups (sbuf s) g)
        \<and> (\<exists>r. gframes (groups (sbuf s) g) = out @ r))
    \<and> (todo s = [] \<and> served s < tpos (sbuf s) \<longrightarrow>
        (\<exists>g. fst (nextGroup (sbuf s) (sbuf s) (sbuf s) (served s)) = Some g \<and> served s < g))"
  using readerInv_reach [OF assms] todo_push(1) [OF producerInv_reach [OF assms]] nextGroup_finds [of "sbuf s" "served s"]
  by (fastforce simp: readerInv_def partOfGroup_def)

text \<open>One audio packet: a subscriber at some point of its loop after some accesses of the push.\<close>

definition audioRun :: "bytes \<Rightarrow> nat \<Rightarrow> nat \<Rightarrow> servePc \<Rightarrow> (nat \<times> bool \<times> bytes list) list \<Rightarrow> serving" where
  "audioRun f k n pc w = \<lparr>sbuf = fold perform (take k (audioAccesses [f] 0)) newTrackBuffer, todo = drop k (audioAccesses [f] 0),
     cur = None, curTS = 0, closedTrack = False, served = n, skips = False, spc = pc, written = w\<rparr>"

lemma reach_by: "serve_reach s \<Longrightarrow> serve_step s t \<Longrightarrow> t = u \<Longrightarrow> serve_reach u"
  using serve_reach.step by blast

lemma run_begun: "serve_reach (audioRun f 0 0 Next [])"
  by (rule reach_by [OF serve_reach.fresh], rule pushAudio [of _ "[f]"]) (simp_all add: audioRun_def newTrackBuffer_def)

lemma run_push:
  assumes "serve_reach (audioRun f k n pc w)" and "k < 4"
  shows "serve_reach (audioRun f (Suc k) n pc w)"
proof -
  have "length (audioAccesses [f] 0) = 4" by (simp add: audioAccesses_def)
  with assms(2) have "drop k (audioAccesses [f] 0) = audioAccesses [f] 0 ! k # drop (Suc k) (audioAccesses [f] 0)"
    and "take (Suc k) (audioAccesses [f] 0) = take k (audioAccesses [f] 0) @ [audioAccesses [f] 0 ! k]"
    by (simp_all add: Cons_nth_drop_Suc take_Suc_conv_app_nth)
  then show ?thesis
    by (intro reach_by [OF assms(1), OF pushing [of _ "audioAccesses [f] 0 ! k" "drop (Suc k) (audioAccesses [f] 0)"]])
      (simp_all add: audioRun_def)
qed

lemmas run_simps = audioRun_def audioAccesses_def nextSeq_def earliestInBuffer_def bufferHead_def getGroup_def frameAt_def
  newTrackBuffer_def defaultRingSize_def buffer_defs

lemma run_reading: "serve_reach (audioRun f 2 1 (Frames 1 []) [])"
proof -
  have "serve_reach (audioRun f 2 0 Next [])"
    using run_push [OF run_push [OF run_begun]] by (simp add: eval_nat_numeral)
  note r = this
  have "serve_reach (audioRun f 2 0 (Head 1) [])"
    by (rule reach_by [OF r], rule readHead) (simp_all add: run_simps)
  note r = this
  have "serve_reach (audioRun f 2 0 (Slot 1 0) [])"
    by (rule reach_by [OF r], rule readEarliest [of _ 1 1 0 False]) (simp_all add: run_simps)
  note r = this
  show ?thesis
    by (rule reach_by [OF r], rule readSlot [of _ 1 0 1]) (simp_all add: run_simps)
qed

theorem served_in_order_witness:
  "(\<exists>r. gframes (groups (sbuf (audioRun [7] 4 1 Next [(1, False, [[7]])])) 1) = [[7]] @ r)
    \<and> serve_reach (audioRun [7] 4 1 Next [(1, False, [[7]])])"
proof -
  have "serve_reach (audioRun [7] 4 1 (Frames 1 []) [])"
    using run_push [OF run_push [OF run_reading [of "[7]"]]] by (simp add: eval_nat_numeral)
  note r = this
  have "serve_reach (audioRun [7] 4 1 (Frames 1 [[7]]) [])"
    by (rule reach_by [OF r], rule writeFrame [of _ 1 "[]"]) (simp_all add: run_simps)
  note r = this
  have "serve_reach (audioRun [7] 4 1 (Flag 1 [[7]]) [])"
    by (rule reach_by [OF r], rule noFrame [of _ 1 "[[7]]"]) (simp_all add: run_simps)
  note r = this
  have "serve_reach (audioRun [7] 4 1 Next [(1, False, [[7]])])"
    by (rule reach_by [OF r], rule groupDone [of _ 1 "[[7]]"]) (simp_all add: run_simps)
  with served_in_order [OF this] show ?thesis by (simp add: audioRun_def)
qed

theorem video_groups_witness:
  "map gframes (trackGroups (vbuf (pushAll [([1], True, 0), ([2], False, 40), ([3], True, 80)] newVideoTrack)))
      = [[[1], [2]], [[3]]]
    \<and> concat (map gframes (trackGroups (vbuf (pushAll [([1], True, 0), ([2], False, 40), ([3], True, 80)] newVideoTrack))))
      = [[1], [2], [3]]"
  using video_groups [of "[([1], True, 0), ([2], False, 40), ([3], True, 80)]"] pushAll_groups(1) [of "[([1], True, 0), ([2], False, 40), ([3], True, 80)]"]
  by simp

text \<open>
  C39: An audio frame can be lost on its way out: when a subscriber finds the new group of a packet before its
  frame was added, and the frame is added and the group marked complete before the subscriber reads that
  mark, the group is taken for finished and the subscriber moves on without the frame.
\<close>

theorem audio_frame_lost:
  "\<exists>s. serve_reach s \<and> todo s = [] \<and> spc s = Next \<and> served s = tpos (sbuf s) \<and> written s = [(1, False, [])]
    \<and> gframes (groups (sbuf s) 1) = [f]"
proof -
  have "serve_reach (audioRun f 2 1 (Flag 1 []) [])"
    by (rule reach_by [OF run_reading], rule noFrame [of _ 1 "[]"]) (simp_all add: run_simps)
  then have "serve_reach (audioRun f 4 1 (Flag 1 []) [])"
    using run_push [OF run_push] by (simp add: eval_nat_numeral)
  note r = this
  have "serve_reach (audioRun f 4 1 Next [(1, False, [])])"
    by (rule reach_by [OF r], rule groupDone [of _ 1 "[]"]) (simp_all add: run_simps)
  then show ?thesis by (intro exI [of _ "audioRun f 4 1 Next [(1, False, [])]"]) (simp add: run_simps)
qed

end
