(* ===== verification/Ingest_Session.thy ===== *)
theory Ingest_Session
  imports Rtmp_Endpoint Verifier Media_Frame Flv Track_Buffer
begin

text \<open>
  Sessions of ingest and the RTMP bridge (\<^verbatim>\<open>src/internal/ingest\<close>: \<^verbatim>\<open>handler.go\<close>, \<^verbatim>\<open>session.go\<close>, \<^verbatim>\<open>rtmp.go\<close>, \<^verbatim>\<open>auth.go\<close>,
  and the check of a push in \<^verbatim>\<open>cmd.go\<close>): a publisher is authorized, its codec configurations enter the catalog, and its frames
  become the groups of a video and an audio track. The catalog is kept by a third-party library, whose
  calls are the fields of \<open>msfLib\<close>.
\<close>

section \<open>The catalog\<close>

text \<open>\<^verbatim>\<open>base64.StdEncoding\<close>: the standard alphabet, padded.\<close>

definition stdChar :: "nat \<Rightarrow> char" where
  "stdChar n = (if n = 62 then CHR ''+'' else if n = 63 then CHR ''/'' else b64char n)"

definition stdEncode :: "bytes \<Rightarrow> string" where
  "stdEncode b = map stdChar (b64digits (map unat b)) @ replicate ((3 - length b mod 3) mod 3) (CHR ''='')"

function decimal :: "nat \<Rightarrow> string" where
  "decimal n = (if n < 10 then [char_of (48 + n)] else decimal (n div 10) @ [char_of (48 + n mod 10)])"
  by pat_completeness auto
termination
  by (relation "measure (\<lambda>n. n)") auto

declare decimal.simps [simp del]

definition Itoa :: "int \<Rightarrow> string" where
  "Itoa i = (if i < 0 then CHR ''-'' # decimal (nat (- i)) else decimal (nat i))"

definition aacCodecString :: "AACConfig \<Rightarrow> string" where
  "aacCodecString c = ''mp4a.40.'' @ decimal (unat (ObjectType c))"

record msfTrack =
  tName :: string
  tRole :: string
  tCodec :: string
  tWidth :: "int option"
  tHeight :: "int option"
  tSampleRate :: "int option"
  tChannels :: string
  tInitRef :: string

record initDataRef =
  irID :: string
  irType :: string
  irData :: string

text \<open>
  A broadcast of the library, of a type of its own: a new one (or an error), the init data of its
  catalog, its catalog with other init data (or a refusal), the name of the catalog track, and a broadcast
  with a track added or replaced (or an error).
\<close>

record 'b msfLib =
  msfNew :: "'b option"
  msfInitData :: "'b \<Rightarrow> initDataRef list"
  msfSetInitData :: "initDataRef list \<Rightarrow> 'b \<Rightarrow> 'b option"
  msfCatalogName :: "'b \<Rightarrow> string"
  msfRegister :: "msfTrack \<Rightarrow> 'b \<Rightarrow> 'b option"

record 'b ingestHandler =
  broadcast :: 'b
  video :: videoTrack
  audio :: trackBuffer
  closed :: bool

definition newIngestHandler :: "'b msfLib \<Rightarrow> 'b ingestHandler option" where
  "newIngestHandler lib =
     map_option (\<lambda>b. \<lparr>broadcast = b, video = newVideoTrack, audio = newTrackBuffer, closed = False\<rparr>) (msfNew lib)"

record publishInfo =
  Priority :: nat
  Ordered :: bool
  MaxLatency :: nat
  Timescale :: nat

definition TrackInfo :: "'b msfLib \<Rightarrow> 'b ingestHandler \<Rightarrow> string \<Rightarrow> publishInfo option" where
  "TrackInfo lib h name =
     (if name = ''video'' then Some \<lparr>Priority = 128, Ordered = True, MaxLatency = 2000, Timescale = 1000000\<rparr>
      else if name = ''audio'' then Some \<lparr>Priority = 128, Ordered = False, MaxLatency = 2000, Timescale = 1000000\<rparr>
      else if name = msfCatalogName lib (broadcast h) then Some \<lparr>Priority = 255, Ordered = True, MaxLatency = 0, Timescale = 1000\<rparr>
      else None)"

fun replaceInitData :: "string \<Rightarrow> string \<Rightarrow> initDataRef list \<Rightarrow> initDataRef list" where
  "replaceInitData i d [] = [\<lparr>irID = i, irType = ''inline'', irData = d\<rparr>]"
| "replaceInitData i d (r # rs) = (if irID r = i then r\<lparr>irData := d\<rparr> # rs else r # replaceInitData i d rs)"

definition setInitData :: "'b msfLib \<Rightarrow> string \<Rightarrow> string \<Rightarrow> msfTrack \<Rightarrow> 'b \<Rightarrow> (msfTrack \<times> 'b) option" where
  "setInitData lib i d track b =
     (if d = [] then Some (track, b)
      else case msfSetInitData lib (replaceInitData i d (msfInitData lib b)) b of
             None \<Rightarrow> None
           | Some b' \<Rightarrow> Some (track\<lparr>tInitRef := i\<rparr>, b'))"

definition videoInitData :: "AVCConfig \<Rightarrow> string" where
  "videoInitData cfg = (case BuildAVCDecoderConfigurationRecord (Some cfg) of Inl _ \<Rightarrow> [] | Inr r \<Rightarrow> stdEncode r)"

definition audioInitData :: "AACConfig \<Rightarrow> string" where
  "audioInitData cfg = (case BuildAudioSpecificConfig (Some cfg) of Inl _ \<Rightarrow> [] | Inr asc \<Rightarrow> stdEncode asc)"

text \<open>Registering a track; the flag is false for an error, which may leave the init data changed.\<close>

definition registerTrack :: "'b msfLib \<Rightarrow> string \<Rightarrow> string \<Rightarrow> msfTrack \<Rightarrow> 'b ingestHandler \<Rightarrow> bool \<times> 'b ingestHandler" where
  "registerTrack lib i d track h =
     (case setInitData lib i d track (broadcast h) of
        None \<Rightarrow> (False, h)
      | Some (track, b) \<Rightarrow>
          (case msfRegister lib track b of
             None \<Rightarrow> (False, h\<lparr>broadcast := b\<rparr>)
           | Some b' \<Rightarrow> (True, h\<lparr>broadcast := b'\<rparr>)))"

definition registerVideo :: "'b msfLib \<Rightarrow> AVCConfig option \<Rightarrow> 'b ingestHandler \<Rightarrow> bool \<times> 'b ingestHandler" where
  "registerVideo lib cfg h =
     (case cfg of
        None \<Rightarrow> (False, h)
      | Some c \<Rightarrow> registerTrack lib ''video'' (videoInitData c)
          \<lparr>tName = ''video'', tRole = ''video'', tCodec = avcCodecString c, tWidth = Some (Width c), tHeight = Some (Height c),
           tSampleRate = None, tChannels = [], tInitRef = []\<rparr> h)"

definition registerAudio :: "'b msfLib \<Rightarrow> AACConfig option \<Rightarrow> 'b ingestHandler \<Rightarrow> bool \<times> 'b ingestHandler" where
  "registerAudio lib cfg h =
     (case cfg of
        None \<Rightarrow> (False, h)
      | Some c \<Rightarrow> registerTrack lib ''audio'' (audioInitData c)
          \<lparr>tName = ''audio'', tRole = ''audio'', tCodec = aacCodecString c, tWidth = None, tHeight = None,
           tSampleRate = Some (SampleRate c), tChannels = Itoa (ChannelConfig c), tInitRef = []\<rparr> h)"

definition closeHandler :: "'b ingestHandler \<Rightarrow> 'b ingestHandler" where
  "closeHandler h = (if closed h then h else h\<lparr>video := videoClose (video h), closed := True\<rparr>)"

section \<open>Sessions\<close>

text \<open>A session is announced at its path while it is open.\<close>

record 'b ingestSession =
  sessPath :: string
  sessHandler :: "'b ingestHandler"
  announced :: bool

definition NewSession :: "'b msfLib \<Rightarrow> string \<Rightarrow> 'b ingestSession option" where
  "NewSession lib path =
     (if \<not> prefix ''/'' path then None
      else map_option (\<lambda>h. \<lparr>sessPath = path, sessHandler = h, announced = True\<rparr>) (newIngestHandler lib))"

definition RegisterVideo :: "'b msfLib \<Rightarrow> AVCConfig option \<Rightarrow> 'b ingestSession \<Rightarrow> bool \<times> 'b ingestSession" where
  "RegisterVideo lib cfg s = (let (ok, h) = registerVideo lib cfg (sessHandler s) in (ok, s\<lparr>sessHandler := h\<rparr>))"

definition RegisterAudio :: "'b msfLib \<Rightarrow> AACConfig option \<Rightarrow> 'b ingestSession \<Rightarrow> bool \<times> 'b ingestSession" where
  "RegisterAudio lib cfg s = (let (ok, h) = registerAudio lib cfg (sessHandler s) in (ok, s\<lparr>sessHandler := h\<rparr>))"

text \<open>\<open>None\<close> is a panic of the frame writer.\<close>

definition PushVideo :: "int \<Rightarrow> bytes \<Rightarrow> bool \<Rightarrow> 'b ingestSession \<Rightarrow> 'b ingestSession option" where
  "PushVideo timestampUS data isKeyframe s =
     map_option (\<lambda>f. s\<lparr>sessHandler := (sessHandler s)\<lparr>video := videoPush f isKeyframe timestampUS (video (sessHandler s))\<rparr>\<rparr>)
       (writeMediaFrame [] timestampUS data)"

definition PushAudio :: "int \<Rightarrow> bytes \<Rightarrow> 'b ingestSession \<Rightarrow> 'b ingestSession option" where
  "PushAudio timestampUS data s =
     map_option (\<lambda>f. s\<lparr>sessHandler := (sessHandler s)\<lparr>audio := audioPush f (audio (sessHandler s))\<rparr>\<rparr>)
       (writeMediaFrame [] timestampUS data)"

fun buildFrames :: "int list \<Rightarrow> bytes list \<Rightarrow> bytes list option" where
  "buildFrames (pts # ts) (data # ds) =
     (case writeMediaFrame [] pts data of None \<Rightarrow> None | Some f \<Rightarrow> map_option (Cons f) (buildFrames ts ds))"
| "buildFrames _ _ = Some []"

definition PushAudioFrames :: "int list \<Rightarrow> bytes list \<Rightarrow> 'b ingestSession \<Rightarrow> 'b ingestSession option" where
  "PushAudioFrames timestampsUS frames s =
     (if frames = [] \<or> length timestampsUS \<noteq> length frames then Some s
      else map_option (\<lambda>built. s\<lparr>sessHandler := (sessHandler s)\<lparr>audio := audioPushFrames built (audio (sessHandler s))\<rparr>\<rparr>)
             (buildFrames timestampsUS frames))"

definition closeSession :: "'b ingestSession \<Rightarrow> 'b ingestSession" where
  "closeSession s = s\<lparr>sessHandler := closeHandler (sessHandler s), announced := False\<rparr>"

section \<open>RTMP\<close>

record 'b ingestState =
  avcCfg :: "AVCConfig option"
  aacCfg :: "AACConfig option"
  sess :: "'b ingestSession"

text \<open>One frame of \<open>ingestRTMP\<close>.\<close>

definition ingestVideo :: "'b msfLib \<Rightarrow> frame \<Rightarrow> 'b ingestState \<Rightarrow> 'b ingestState option" where
  "ingestVideo lib f s =
     (if IsVideoSequenceHeader (fData f) then
        (case ParseAVCConfig (fData f) of
           Inl _ \<Rightarrow> Some s
         | Inr cfg \<Rightarrow> Some (s\<lparr>avcCfg := Some cfg, sess := snd (RegisterVideo lib (Some cfg) (sess s))\<rparr>))
      else if avcCfg s = None then Some s
      else if length (fData f) < 5 then Some s
      else let cts = parseFLVVideoCTS (fData f);
               pts = (uint (fTimestamp f) + cts) * 1000
           in map_option (\<lambda>x. s\<lparr>sess := x\<rparr>) (PushVideo pts (drop 5 (fData f)) (isVideoKeyframe (fData f)) (sess s)))"

definition ingestAudio :: "'b msfLib \<Rightarrow> frame \<Rightarrow> 'b ingestState \<Rightarrow> 'b ingestState option" where
  "ingestAudio lib f s =
     (if IsAudioSequenceHeader (fData f) then
        (case ParseAACConfig (fData f) of
           Inl _ \<Rightarrow> Some s
         | Inr cfg \<Rightarrow> Some (s\<lparr>aacCfg := Some cfg, sess := snd (RegisterAudio lib (Some cfg) (sess s))\<rparr>))
      else case StripFLVAudioHeader (fData f) of
             Inl _ \<Rightarrow> Some s
           | Inr raw \<Rightarrow> map_option (\<lambda>x. s\<lparr>sess := x\<rparr>) (PushAudio (uint (fTimestamp f) * 1000) raw (sess s)))"

definition ingestFrame :: "'b msfLib \<Rightarrow> frame \<Rightarrow> 'b ingestState \<Rightarrow> 'b ingestState option" where
  "ingestFrame lib f s =
     (if fType f = FrameTypeVideo then ingestVideo lib f s
      else if fType f = FrameTypeAudio then ingestAudio lib f s
      else Some s)"

text \<open>
  The loop of \<open>ingestRTMP\<close>: at each turn the clock is read and the loop ends when the permission has lapsed; the readings end
  when the server stops. The zero time never lapses.
\<close>

definition lapsed :: "int \<Rightarrow> int \<Rightarrow> bool" where
  "lapsed lapses now \<longleftrightarrow> lapses \<noteq> zeroTime \<and> lapses \<le> now"

fun ingestRTMP :: "'b msfLib \<Rightarrow> messageStream \<Rightarrow> int \<Rightarrow> int list \<Rightarrow> conn \<Rightarrow> 'b ingestState \<Rightarrow> ('b ingestState \<times> conn) option" where
  "ingestRTMP lib strm lapses [] c s = Some (s, c)"
| "ingestRTMP lib strm lapses (now # nows) c s =
     (if lapsed lapses now then Some (s, c)
      else case ReadFrame strm c of
             (Inl _, c) \<Rightarrow> Some (s, c)
           | (Inr f, c) \<Rightarrow> (case ingestFrame lib f s of None \<Rightarrow> None | Some s \<Rightarrow> ingestRTMP lib strm lapses nows c s))"

definition text_of :: "bytes \<Rightarrow> string" where
  "text_of b = map (\<lambda>x. char_of (unat x)) b"

definition splitCredential :: "string \<Rightarrow> string \<times> string" where
  "splitCredential s =
     (let (name, rawQuery) = cut (CHR ''?'') s in
      case ParseQuery rawQuery of
        None \<Rightarrow> (name, [])
      | Some kvs \<Rightarrow> (name, case map_of kvs ''jwt'' of None \<Rightarrow> [] | Some v \<Rightarrow> v))"

definition rtmpTarget :: "string \<Rightarrow> string \<Rightarrow> string \<times> string" where
  "rtmpTarget ap streamKey =
     (let (appName, appCredential) = splitCredential ap;
          (key, credential) = splitCredential streamKey;
          credential = (if credential = [] then appCredential else credential)
      in (''/'' @ appName @ ''/'' @ key, credential))"

datatype pushError = errOutsidePublish | errNoCredential | errCheck authError | errMayNotPublish

text \<open>The check of a push; it returns when the permission lapses. \<open>None\<close> accepts every push.\<close>

definition publishAuthorizer :: "platform \<Rightarrow> moqt \<Rightarrow> verifier option \<Rightarrow> string \<Rightarrow>
    (int \<Rightarrow> string \<Rightarrow> string \<Rightarrow> pushError + int) option" where
  "publishAuthorizer pf mq v beneath =
     (if v = None \<and> beneath = [] then None
      else Some (\<lambda>now credential path.
        if beneath \<noteq> [] \<and> \<not> prefix beneath path then Inl errOutsidePublish
        else case v of
               None \<Rightarrow> Inr zeroTime
             | Some v \<Rightarrow>
                 if credential = [] then Inl errNoCredential
                 else bindE (mapErr errCheck (Check pf mq now credential ActionPublish path v)) (\<lambda>g.
                   if \<not> Allows mq (agGrant g) ActionPublish path then Inl errMayNotPublish
                   else Inr (agExpires g))))"

text \<open>
  \<open>handleConn\<close>: the callback of \<open>AcceptStreamFunc\<close> authorizes the target, and a session at its path takes the
  frames and is closed at the end. \<open>impl\<close> is the parameter of the AMF0 decoder, \<open>now\<close> the time of the check.
\<close>

definition authorizeTarget :: "(int \<Rightarrow> string \<Rightarrow> string \<Rightarrow> pushError + int) option \<Rightarrow> int \<Rightarrow> bytes \<Rightarrow> bytes \<Rightarrow> pushError + int" where
  "authorizeTarget authorize now appName streamKey =
     (case authorize of
        None \<Rightarrow> Inr zeroTime
      | Some f \<Rightarrow> let (path, credential) = rtmpTarget (text_of appName) (text_of streamKey) in f now credential path)"

definition handleConn :: "'b msfLib \<Rightarrow> (f64 \<Rightarrow> int) \<Rightarrow> (pushError \<Rightarrow> bytes) \<Rightarrow> (int \<Rightarrow> string \<Rightarrow> string \<Rightarrow> pushError + int) option \<Rightarrow>
    int \<Rightarrow> int list \<Rightarrow> conn \<Rightarrow> ('b ingestSession option \<times> conn) option" where
  "handleConn lib impl errText authorize now nows c =
     (case AcceptStreamFunc impl (Some (\<lambda>a k. case authorizeTarget authorize now a k of Inl e \<Rightarrow> Some (errText e) | Inr _ \<Rightarrow> None)) c of
        (Inl _, c) \<Rightarrow> Some (None, closeConn c)
      | (Inr strm, c) \<Rightarrow>
          (let path = fst (rtmpTarget (text_of (sApp strm)) (text_of (sStreamKey strm)));
               lapses = (case authorizeTarget authorize now (sApp strm) (sStreamKey strm) of Inr t \<Rightarrow> t | Inl _ \<Rightarrow> zeroTime)
           in case NewSession lib path of
                None \<Rightarrow> Some (None, closeConn (readerClose strm c))
              | Some s \<Rightarrow>
                  (case ingestRTMP lib strm lapses nows c \<lparr>avcCfg = None, aacCfg = None, sess = s\<rparr> of
                     None \<Rightarrow> None
                   | Some (st, c) \<Rightarrow> Some (Some (closeSession (sess st)), closeConn (readerClose strm c)))))"

section \<open>What a published stream becomes\<close>

text \<open>Reference: the video and audio in a sequence of RTMP frames, with their presentation times.\<close>

fun rtmpVideo :: "bool \<Rightarrow> frame list \<Rightarrow> (int \<times> bytes) videoFrame list" where
  "rtmpVideo c [] = []"
| "rtmpVideo c (f # fs) =
     (if fType f \<noteq> FrameTypeVideo then rtmpVideo c fs
      else if IsVideoSequenceHeader (fData f) then rtmpVideo (c \<or> \<not> isl (ParseAVCConfig (fData f))) fs
      else if c \<and> 5 \<le> length (fData f) then
        (let pts = (uint (fTimestamp f) + parseFLVVideoCTS (fData f)) * 1000
         in ((pts, drop 5 (fData f)), isVideoKeyframe (fData f), pts) # rtmpVideo c fs)
      else rtmpVideo c fs)"

fun rtmpAudio :: "frame list \<Rightarrow> (int \<times> bytes) list" where
  "rtmpAudio [] = []"
| "rtmpAudio (f # fs) =
     (if fType f = FrameTypeAudio \<and> \<not> IsAudioSequenceHeader (fData f) then
        (case StripFLVAudioHeader (fData f) of Inl _ \<Rightarrow> rtmpAudio fs | Inr raw \<Rightarrow> (uint (fTimestamp f) * 1000, raw) # rtmpAudio fs)
      else rtmpAudio fs)"

fun ingestFrames :: "'b msfLib \<Rightarrow> frame list \<Rightarrow> 'b ingestState \<Rightarrow> 'b ingestState option" where
  "ingestFrames lib [] s = Some s"
| "ingestFrames lib (f # fs) s = (case ingestFrame lib f s of None \<Rightarrow> None | Some s \<Rightarrow> ingestFrames lib fs s)"

definition encoded :: "int \<times> bytes \<Rightarrow> bytes" where
  "encoded x = EncodeLOC (word_of_int (fst x)) (snd x)"

definition asRead :: "int \<times> bytes \<Rightarrow> locError + u64 \<times> bytes" where
  "asRead x = Inr (word_of_int (fst x mod 2 ^ 62), snd x)"

lemmas push_defs = PushVideo_def PushAudio_def writeMediaFrame_LOC

lemma register_tracks [simp]:
  "video (sessHandler (snd (RegisterVideo lib cfg s))) = video (sessHandler s)"
  "audio (sessHandler (snd (RegisterVideo lib cfg s))) = audio (sessHandler s)"
  "video (sessHandler (snd (RegisterAudio lib acfg s))) = video (sessHandler s)"
  "audio (sessHandler (snd (RegisterAudio lib acfg s))) = audio (sessHandler s)"
  by (auto simp: RegisterVideo_def RegisterAudio_def registerVideo_def registerAudio_def registerTrack_def Let_def
      split: option.splits prod.splits)

lemma register_path [simp]:
  "sessPath (snd (RegisterVideo lib cfg s)) = sessPath s" "sessPath (snd (RegisterAudio lib acfg s)) = sessPath s"
  by (simp_all add: RegisterVideo_def RegisterAudio_def split_beta)

text \<open>Whether a frame brings a video configuration.\<close>

definition configures :: "frame \<Rightarrow> bool" where
  "configures f \<longleftrightarrow> fType f = FrameTypeVideo \<and> IsVideoSequenceHeader (fData f) \<and> \<not> isl (ParseAVCConfig (fData f))"

lemma rtmpVideo_Cons: "rtmpVideo c (f # fs) = rtmpVideo c [f] @ rtmpVideo (c \<or> configures f) fs"
  by (auto simp: configures_def Let_def)

lemma ingestFrame_tracks:
  "\<exists>st. ingestFrame lib f s = Some st \<and> sessPath (sess st) = sessPath (sess s)
    \<and> (avcCfg st \<noteq> None \<longleftrightarrow> avcCfg s \<noteq> None \<or> configures f)
    \<and> video (sessHandler (sess st)) =
        pushAll (map (\<lambda>(x, key, t). (encoded x, key, t)) (rtmpVideo (avcCfg s \<noteq> None) [f])) (video (sessHandler (sess s)))
    \<and> audio (sessHandler (sess st)) = fold audioPush (map encoded (rtmpAudio [f])) (audio (sessHandler (sess s)))"
proof (cases "fType f = FrameTypeVideo")
  case True
  then show ?thesis
    by (cases "ParseAVCConfig (fData f)"; cases "avcCfg s")
      (simp_all add: ingestFrame_def ingestVideo_def push_defs encoded_def pushAll_def configures_def Let_def)
next
  case False
  then show ?thesis
    by (cases "ParseAACConfig (fData f)"; cases "StripFLVAudioHeader (fData f)")
      (simp_all add: ingestFrame_def ingestAudio_def push_defs encoded_def pushAll_def configures_def)
qed

lemma ingestFrames_tracks:
  "\<exists>st. ingestFrames lib fs s = Some st \<and> sessPath (sess st) = sessPath (sess s)
    \<and> video (sessHandler (sess st)) =
        pushAll (map (\<lambda>(x, key, t). (encoded x, key, t)) (rtmpVideo (avcCfg s \<noteq> None) fs)) (video (sessHandler (sess s)))
    \<and> audio (sessHandler (sess st)) = fold audioPush (map encoded (rtmpAudio fs)) (audio (sessHandler (sess s)))"
proof (induction fs arbitrary: s)
  case (Cons f fs)
  obtain s1 where s1: "ingestFrame lib f s = Some s1" "sessPath (sess s1) = sessPath (sess s)"
    "(avcCfg s1 \<noteq> None) = (avcCfg s \<noteq> None \<or> configures f)"
    "video (sessHandler (sess s1)) =
        pushAll (map (\<lambda>(x, key, t). (encoded x, key, t)) (rtmpVideo (avcCfg s \<noteq> None) [f])) (video (sessHandler (sess s)))"
    "audio (sessHandler (sess s1)) = fold audioPush (map encoded (rtmpAudio [f])) (audio (sessHandler (sess s)))"
    using ingestFrame_tracks [of lib f s] by blast
  have a: "rtmpAudio (f # fs) = rtmpAudio [f] @ rtmpAudio fs" by (simp split: sum.splits)
  from Cons.IH [of s1] show ?case
    by (simp only: ingestFrames.simps s1 option.case rtmpVideo_Cons [of _ f fs] a map_append pushAll_def fold_append comp_apply)
qed (simp add: pushAll_def)

lemma trackGroups_audio:
  "map gframes (trackGroups (fold audioPush fs b)) = map gframes (trackGroups b) @ map (\<lambda>f. [f]) fs"
  by (induction fs arbitrary: b) (simp_all add: audioPush_groups)

lemma DecodeLOC_encoded: "length (snd x) < 2 ^ 62 \<Longrightarrow> DecodeLOC (encoded x) = asRead x"
proof -
  assume "length (snd x) < 2 ^ 62"
  then have "DecodeLOC (encoded x @ []) = Inr (take_bit 62 (word_of_int (fst x)), snd x)"
    unfolding encoded_def by (rule DecodeLOC_EncodeLOC)
  then show ?thesis by (simp add: asRead_def timestamp_62)
qed

text \<open>The groups of a session that took frames, as they are read.\<close>

definition videoRead :: "'b ingestSession \<Rightarrow> (locError + u64 \<times> bytes) list list" where
  "videoRead s = map (map DecodeLOC \<circ> gframes) (trackGroups (vbuf (video (sessHandler s))))"

definition audioRead :: "'b ingestSession \<Rightarrow> (locError + u64 \<times> bytes) list list" where
  "audioRead s = map (map DecodeLOC \<circ> gframes) (trackGroups (audio (sessHandler s)))"

lemma rtmpVideo_data: "(x, k, t) \<in> set (rtmpVideo c fs) \<Longrightarrow> \<exists>f \<in> set fs. length (snd x) \<le> length (fData f)"
  by (induction c fs rule: rtmpVideo.induct) (auto simp: Let_def split: if_splits)

lemma rtmpAudio_data: "x \<in> set (rtmpAudio fs) \<Longrightarrow> \<exists>f \<in> set fs. length (snd x) \<le> length (fData f)"
proof (induction fs)
  case (Cons f fs)
  have "StripFLVAudioHeader (fData f) = Inr raw \<Longrightarrow> length raw \<le> length (fData f)" for raw
    by (auto simp: StripFLVAudioHeader_def split: if_splits)
  with Cons show ?case by (auto split: if_splits sum.splits)
qed simp

lemma set_gops: "concat (gops fs) = map fst fs"
  by (cases fs rule: gops.cases) (simp_all add: concat_cutGroups)

lemma ingest_read:
  assumes "ingestFrames lib fs \<lparr>avcCfg = None, aacCfg = None, sess = s\<rparr> = Some st" and new: "NewSession lib path = Some s"
    and len: "\<forall>f \<in> set fs. length (fData f) < 2 ^ 62"
  shows "videoRead (sess st) = map (map asRead) (gops (rtmpVideo False fs))"
    and "audioRead (sess st) = map (\<lambda>x. [asRead x]) (rtmpAudio fs)" and "sessPath (sess st) = path"
proof -
  let ?vs = "map (\<lambda>(x, key, t). (encoded x, key, t)) (rtmpVideo False fs)"
  have s: "video (sessHandler s) = newVideoTrack" "audio (sessHandler s) = newTrackBuffer" "sessPath s = path"
    using new by (auto simp: NewSession_def newIngestHandler_def split: if_splits)
  have t: "sessPath (sess st) = path" "video (sessHandler (sess st)) = pushAll ?vs newVideoTrack"
    "audio (sessHandler (sess st)) = fold audioPush (map encoded (rtmpAudio fs)) newTrackBuffer"
    using ingestFrames_tracks [of lib fs "\<lparr>avcCfg = None, aacCfg = None, sess = s\<rparr>"] assms(1) s by auto
  have "DecodeLOC (encoded x) = asRead x" if "x \<in> set (concat (gops (rtmpVideo False fs)))" for x
    using that len rtmpVideo_data [of x _ _ False fs] by (intro DecodeLOC_encoded) (fastforce simp: set_gops)
  then have "map (map DecodeLOC) (map (map encoded) (gops (rtmpVideo False fs))) = map (map asRead) (gops (rtmpVideo False fs))"
    by auto
  then show "videoRead (sess st) = map (map asRead) (gops (rtmpVideo False fs))"
    by (simp only: videoRead_def t map_map [symmetric] pushAll_gops gops_map)
  have "DecodeLOC (encoded x) = asRead x" if "x \<in> set (rtmpAudio fs)" for x
    using that len rtmpAudio_data [of x fs] by (intro DecodeLOC_encoded) fastforce
  then show "audioRead (sess st) = map (\<lambda>x. [asRead x]) (rtmpAudio fs)"
    by (simp only: audioRead_def t map_map [symmetric] trackGroups_audio)
      (simp add: newTrackBuffer_def trackGroups_def)
  show "sessPath (sess st) = path" by (rule t(1))
qed

lemma closeSession_read [simp]:
  "videoRead (closeSession s) = videoRead s" "audioRead (closeSession s) = audioRead s" "sessPath (closeSession s) = sessPath s"
proof -
  have "gframes (groups (updGroup p setComplete b) q) = gframes (groups b q)" for p b q
    by (simp add: updGroup_def setComplete_def)
  then show "videoRead (closeSession s) = videoRead s"
    by (simp add: videoRead_def closeSession_def closeHandler_def videoClose_def trackGroups_def split: option.splits)
qed (simp_all add: audioRead_def closeSession_def closeHandler_def)

lemma ingestRTMP_frames:
  assumes "readFrames strm (length nows) c = (Inr fs, c')" and "\<forall>t \<in> set nows. \<not> lapsed lapses t"
  shows "ingestRTMP lib strm lapses nows c s = map_option (\<lambda>st. (st, c')) (ingestFrames lib fs s)"
  using assms
proof (induction nows arbitrary: c fs s)
  case (Cons t nows)
  then obtain f gs c1 where "ReadFrame strm c = (Inr f, c1)" "readFrames strm (length nows) c1 = (Inr gs, c')" "fs = f # gs"
    by (auto simp: bindS_Inr_iff)
  with Cons show ?case by (auto split: option.splits)
qed simp

section \<open>Who publishes what\<close>

lemma ingestFrame_path: "ingestFrame lib f s = Some st \<Longrightarrow> sessPath (sess st) = sessPath (sess s)"
  using ingestFrame_tracks [of lib f s] by auto

lemma ingestRTMP_path:
  "ingestRTMP lib strm lapses nows c s = Some (st, c') \<Longrightarrow> sessPath (sess st) = sessPath (sess s)"
  by (induction lib strm lapses nows c s rule: ingestRTMP.induct)
    (auto dest: ingestFrame_path split: if_splits prod.splits sum.splits option.splits)

text \<open>Nothing is read from the connection once the permission has lapsed.\<close>

lemma ingestRTMP_until:
  "ingestRTMP lib strm lapses (takeWhile (\<lambda>t. \<not> lapsed lapses t) nows) c s = ingestRTMP lib strm lapses nows c s"
  by (induction lib strm lapses nows c s rule: ingestRTMP.induct) (auto split: prod.splits sum.splits option.splits)

lemma handleConn_session:
  assumes "handleConn lib impl errText authorize now nows c = Some (Some s, c')"
  obtains strm c1 t where
    "AcceptStreamFunc impl (Some (\<lambda>a k. case authorizeTarget authorize now a k of Inl e \<Rightarrow> Some (errText e) | Inr _ \<Rightarrow> None)) c = (Inr strm, c1)"
    "authorizeTarget authorize now (sApp strm) (sStreamKey strm) = Inr t"
    "sessPath s = fst (rtmpTarget (text_of (sApp strm)) (text_of (sStreamKey strm)))"
    "handleConn lib impl errText authorize now (takeWhile (\<lambda>x. \<not> lapsed t x) nows) c = Some (Some s, c')"
proof -
  let ?allow = "\<lambda>a k. case authorizeTarget authorize now a k of Inl e \<Rightarrow> Some (errText e) | Inr _ \<Rightarrow> None"
  from assms obtain strm c1 where acc: "AcceptStreamFunc impl (Some ?allow) c = (Inr strm, c1)"
    by (auto simp: handleConn_def split: prod.splits sum.splits)
  from accepted_stream_allowed [OF acc] obtain t where t: "authorizeTarget authorize now (sApp strm) (sStreamKey strm) = Inr t"
    by (auto split: sum.splits)
  let ?path = "fst (rtmpTarget (text_of (sApp strm)) (text_of (sStreamKey strm)))"
  from assms obtain s0 st c2 where run: "NewSession lib ?path = Some s0"
    "ingestRTMP lib strm t nows c1 \<lparr>avcCfg = None, aacCfg = None, sess = s0\<rparr> = Some (st, c2)" "s = closeSession (sess st)"
    by (auto simp: handleConn_def acc t Let_def split: option.splits)
  have "sessPath s0 = ?path" using run(1) by (auto simp: NewSession_def split: if_splits)
  with ingestRTMP_path [OF run(2)] run(3) have "sessPath s = ?path" by (simp add: closeSession_def)
  moreover have "handleConn lib impl errText authorize now (takeWhile (\<lambda>x. \<not> lapsed t x) nows) c
      = handleConn lib impl errText authorize now nows c"
    by (simp only: handleConn_def acc prod.case sum.case t Let_def ingestRTMP_until)
  ultimately show ?thesis using that acc t assms by simp
qed

lemma authorizeTarget_verified:
  assumes "authorizeTarget (publishAuthorizer pf mq (Some v) beneath) now a k = Inr t"
  shows "\<exists>g. Check pf mq now (snd (rtmpTarget (text_of a) (text_of k))) ActionPublish (fst (rtmpTarget (text_of a) (text_of k))) v = Inr g
    \<and> Allows mq (agGrant g) ActionPublish (fst (rtmpTarget (text_of a) (text_of k))) \<and> t = agExpires g
    \<and> prefix beneath (fst (rtmpTarget (text_of a) (text_of k))) \<and> snd (rtmpTarget (text_of a) (text_of k)) \<noteq> []"
  using assms by (auto simp: authorizeTarget_def publishAuthorizer_def bindE_Inr_iff split_beta split: if_splits)

lemma Check_tenant: "storeOk pf (vStore v) \<Longrightarrow> Check pf mq now tok act p v = Inr g \<Longrightarrow> tenantGrant mq (vStore v) g"
  unfolding Check_def bindE_Inr_iff using decide_tenant by fastforce

section \<open>Properties\<close>

text \<open>
  C11: Nobody publishes over RTMP what the token does not allow. With a key set, whatever a connection sends, a session
  is opened only at a path that lies beneath the server's directory and that a presented token, verified at that
  moment, allows to publish: a path beneath the prefix of a key of the set (or beneath it in \<open>.hls\<close>). Once the
  token has expired nothing more is taken from the connection.
\<close>

theorem push_authorized:
  assumes ok: "storeOk pf (vStore v)" and mq: "patternsRelative mq"
    and conn: "handleConn lib impl errText (publishAuthorizer pf mq (Some v) beneath) now nows c = Some (Some s, c')"
  shows "\<exists>credential g keys key. credential \<noteq> [] \<and> Check pf mq now credential ActionPublish (sessPath s) v = Inr g
    \<and> prefix beneath (sessPath s) \<and> Allows mq (agGrant g) ActionPublish (sessPath s)
    \<and> storeSet (vStore v) = Some keys \<and> keys (agKeyID g) = Some key
    \<and> (prefix (segments (Prefix key)) (segments (sessPath s)) \<or> prefix (''.hls'' # segments (Prefix key)) (segments (sessPath s)))
    \<and> handleConn lib impl errText (publishAuthorizer pf mq (Some v) beneath) now (takeWhile (\<lambda>t. \<not> lapsed (agExpires g) t) nows) c
        = Some (Some s, c')"
proof -
  obtain strm c1 t where
    "AcceptStreamFunc impl (Some (\<lambda>a k. case authorizeTarget (publishAuthorizer pf mq (Some v) beneath) now a k of
        Inl e \<Rightarrow> Some (errText e) | Inr _ \<Rightarrow> None)) c = (Inr strm, c1)"
    and t: "authorizeTarget (publishAuthorizer pf mq (Some v) beneath) now (sApp strm) (sStreamKey strm) = Inr t"
    and path: "sessPath s = fst (rtmpTarget (text_of (sApp strm)) (text_of (sStreamKey strm)))"
    and stop: "handleConn lib impl errText (publishAuthorizer pf mq (Some v) beneath) now (takeWhile (\<lambda>x. \<not> lapsed t x) nows) c
        = Some (Some s, c')"
    by (rule handleConn_session [OF conn])
  let ?cred = "snd (rtmpTarget (text_of (sApp strm)) (text_of (sStreamKey strm)))"
  from authorizeTarget_verified [OF t] obtain g where
    g: "Check pf mq now ?cred ActionPublish (sessPath s) v = Inr g"
      "Allows mq (agGrant g) ActionPublish (sessPath s)" "t = agExpires g" "prefix beneath (sessPath s)" "?cred \<noteq> []"
    unfolding path by blast
  from Check_tenant [OF ok g(1)] obtain keys key where
    key: "storeSet (vStore v) = Some keys" "keys (agKeyID g) = Some key" "confined mq (segments (Prefix key)) (agGrant g)"
    by (auto simp: tenantGrant_def)
  from Allows_confined(2) [OF key(3) mq g(2)] key(1,2) g stop show ?thesis by blast
qed

text \<open>
  What an RTMP publisher sends is what its subscribers can decode. Ingest never panics on the frames of
  a connection, whatever they hold and whatever the catalog library answers; the video groups of the session are the
  coded pictures from the first valid sequence header on, cut at keyframes, each with its presentation time (decode
  time plus composition offset) and its length-prefixed data unchanged, and every raw AAC frame is a group of the audio track.
\<close>

lemma rtmp_media_groups:
  assumes "\<forall>f \<in> set fs. length (fData f) < 2 ^ 62" and "NewSession lib path = Some s"
  shows "\<exists>st. ingestFrames lib fs \<lparr>avcCfg = None, aacCfg = None, sess = s\<rparr> = Some st \<and> sessPath (sess st) = path
    \<and> videoRead (sess st) = map (map asRead) (gops (rtmpVideo False fs))
    \<and> audioRead (sess st) = map (\<lambda>x. [asRead x]) (rtmpAudio fs)"
  using ingestFrames_tracks [of lib fs "\<lparr>avcCfg = None, aacCfg = None, sess = s\<rparr>"] ingest_read [OF _ assms(2,1)] by blast

text \<open>A library that keeps what it is given, and a stream of a configuration, a keyframe and two pictures.\<close>

definition sampleLib :: "(initDataRef list \<times> msfTrack list) msfLib" where
  "sampleLib = \<lparr>msfNew = Some ([], []), msfInitData = fst, msfSetInitData = (\<lambda>d b. Some (d, snd b)),
     msfCatalogName = (\<lambda>_. ''catalog''), msfRegister = (\<lambda>t b. Some (fst b, t # snd b))\<rparr>"

definition sampleStream :: "frame list" where
  "sampleStream = [\<lparr>fType = 9, fTimestamp = 0, fData = [0x17, 0, 0, 0, 0, 1, 66, 0, 31, 255, 224, 0]\<rparr>,
     \<lparr>fType = 9, fTimestamp = 0, fData = [0x17, 1, 0, 0, 80, 7]\<rparr>, \<lparr>fType = 8, fTimestamp = 10, fData = [0xAF, 1, 33]\<rparr>,
     \<lparr>fType = 9, fTimestamp = 40, fData = [0x27, 1, 0xFF, 0xFF, 0xF6, 8]\<rparr>,
     \<lparr>fType = 9, fTimestamp = 120, fData = [0x17, 1, 0, 0, 0, 9]\<rparr>]"

lemma sampleStream_media:
  "gops (rtmpVideo False sampleStream) = [[(80000, [7]), (30000, [8])], [(120000, [9])]]"
  "rtmpAudio sampleStream = [(10000, [33])]"
  by code_simp+

text \<open>A publisher that presents the sample token with its stream key.\<close>

definition sampleStreamKey :: bytes where
  "sampleStreamKey = str (''cam?jwt='' @ sampleToken)"

lemma text_of_str: "text_of (str s) = s"
proof -
  have "char_of (unat (of_char c :: byte)) = c" for c :: char
  proof -
    have "unat (of_nat (of_char c) :: byte) = of_char c mod 256" by (simp only: unat_of_nat) simp
    then show ?thesis by (simp add: of_nat_of_char)
  qed
  then show ?thesis by (simp add: text_of_def str_def comp_def)
qed

lemma sample_target: "rtmpTarget (text_of (str ''acme/room'')) (text_of sampleStreamKey) = (''/acme/room/cam'', sampleToken)"
proof -
  have "sampleToken \<noteq> []" using sample_token by (auto simp: signAt_def bindE_Inr_iff Let_def split: if_splits option.splits)
  moreover have "splitCredential (''cam?jwt='' @ sampleToken) = (''cam'', sampleToken)"
    using sample_credential by (auto simp: splitCredential_def cut_def credentialOf_def split: option.splits)
  moreover have "splitCredential ''acme/room'' = (''acme/room'', [])" by code_simp
  ultimately show ?thesis by (simp add: rtmpTarget_def sampleStreamKey_def text_of_str)
qed

lemma sample_check: "Check samplePlatform sampleMoqt (5 * second) sampleToken ActionPublish ''/acme/room/cam'' sampleVerifier = Inr sampleAuth"
  using sample_fresh sample_verified sample_unpaused sample_id
  by (simp add: Check_def decide_def currentSet_def sampleVerifier_def claimsAuth_def sampleAuth_def)

lemma sample_allows: "Allows sampleMoqt (agGrant sampleAuth) ActionPublish ''/acme/room/cam''"
  by (simp add: Allows_def sampleAuth_def sampleGrant_def sampleMoqt_def Patterns_def action_defs normalizePath_def ContainsAny_def HasPrefix_def TrimPrefix_def)

lemma length_b64digits: "length (b64digits bs) \<le> 2 * length bs"
  by (induction bs rule: b64digits.induct) simp_all

lemma sample_token_short: "length sampleToken < 200"
proof -
  have e: "length (EncodeToString s) \<le> 2 * length s" for s
    using length_b64digits [of "map of_char s"] by (simp add: EncodeToString_def)
  have tok: "sampleToken = (EncodeToString ''h'' @ ''.'' @ EncodeToString ''b'') @ ''.''
      @ EncodeToString (ed25519_Sign samplePlatform (Private sampleKey) (EncodeToString ''h'' @ ''.'' @ EncodeToString ''b''))"
    using sample_token sample_documents by (auto simp: signAt_def sample_prefix sample_checked samplePlatform_def tablePlatform_def Let_def split: if_splits)
  have "length sampleToken \<le> 2 + 1 + 2 + 1 + 2 * (32 + (2 + 1 + 2))"
    unfolding tok using e [of "''h''"] e [of "''b''"]
      e [of "ed25519_Sign samplePlatform (Private sampleKey) (EncodeToString ''h'' @ ''.'' @ EncodeToString ''b'')"]
    by (simp add: samplePlatform_def tablePlatform_def sampleKey_def sampleSeed_def)
  then show ?thesis by simp
qed

lemma sample_publishes: "publishOk (str ''acme/room'') sampleStreamKey"
  using sample_token_short
  by (simp add: publishOk_def commandOk_def connectObj_def command_names carried_def str_def of_char_def
      maxDecodeDepth_def sampleStreamKey_def)

theorem push_authorized_witness:
  "\<exists>bs s c'. handleConn sampleLib (\<lambda>_. 0) (\<lambda>_. []) (publishAuthorizer samplePlatform sampleMoqt (Some sampleVerifier) ''/acme/'')
      (5 * second) [] (sampleConn [bs]) = Some (Some s, c')
    \<and> sessPath s = ''/acme/room/cam''
    \<and> (\<exists>credential g. Check samplePlatform sampleMoqt (5 * second) credential ActionPublish (sessPath s) sampleVerifier = Inr g
         \<and> prefix ''/acme/'' (sessPath s))"
proof -
  let ?auth = "publishAuthorizer samplePlatform sampleMoqt (Some sampleVerifier) ''/acme/''"
  let ?allow = "\<lambda>a k. case authorizeTarget ?auth (5 * second) a k of Inl _ \<Rightarrow> Some [] | Inr _ \<Rightarrow> None"
  have ok: "authorizeTarget ?auth (5 * second) (str ''acme/room'') sampleStreamKey = Inr (agExpires sampleAuth)"
    using sample_check sample_allows sample_token
    by (auto simp: authorizeTarget_def publishAuthorizer_def sample_target signAt_def bindE_Inr_iff Let_def split: if_splits option.splits)
  then have "Some ?allow = None \<or> (\<exists>f. Some ?allow = Some f \<and> f (str ''acme/room'') sampleStreamKey = None)" by simp
  moreover have "connOpen (sampleConn [])" by (simp add: connOpen_def)
  ultimately obtain bs where rd: "\<forall>c r. readerFor (sampleConn []) c \<longrightarrow> connContents c = bs @ r \<longrightarrow>
      (\<exists>c'. AcceptStreamFunc (\<lambda>_. 0) (Some ?allow) c = (Inr \<lparr>sStreamID = (if (0::u32) = 0 then nextStreamID c else 0),
              sApp = str ''acme/room'', sStreamKey = sampleStreamKey\<rparr>, c') \<and> connContents c' = r \<and> readerFor (sampleConn []) c')"
    using accept_negotiates [OF _ sample_publishes, of "sampleConn []" "Some ?allow" 0 "\<lambda>_. 0"] by blast
  have "readerFor (sampleConn []) (sampleConn [bs])" "connContents (sampleConn [bs]) = bs @ []" by (simp_all add: readerFor_def)
  with rd obtain strm c' where acc: "AcceptStreamFunc (\<lambda>_. 0) (Some ?allow) (sampleConn [bs]) = (Inr strm, c')"
    "sApp strm = str ''acme/room''" "sStreamKey strm = sampleStreamKey" by fastforce
  then obtain s c2 where run: "handleConn sampleLib (\<lambda>_. 0) (\<lambda>_. []) ?auth (5 * second) [] (sampleConn [bs]) = Some (Some s, c2)"
    "sessPath s = ''/acme/room/cam''"
    by (auto simp: handleConn_def ok sample_target NewSession_def newIngestHandler_def sampleLib_def closeSession_def Let_def)
  from push_authorized [OF sample_storeOk sample_platform(3) run(1)] run show ?thesis by blast
qed

end
